(* ===== verification/NH_Prelude.thy ===== *)
theory NH_Prelude
  imports Main "HOL-Library.Word" "HOL-Library.Monad_Syntax" "HOL-Library.AList"
begin

unbundle bit_operations_syntax

text \<open>
  Shared material of the development: the fragment of Go's run time that every
  component uses (slices with their bounds checks, \<open>copy\<close>, big-endian byte strings)
  and the generic lemmas on lists and association lists that carry the component proofs.

  A run-time panic of the Go code (index out of range, slice bounds, nil map write,
  integer division by zero, an explicit panic of a library call) is \<open>None\<close>, a normal
  return is \<open>Some\<close>: the operations of the components that can panic have an option
  result and run in the option monad. An error that the code returns as a value is
  a value of an error datatype, never \<open>None\<close> of this option.
\<close>

named_theorems go_run \<open>unfolding rules for the Go run-time fragment\<close>

type_synonym byte = "8 word"

section \<open>Slices and copy\<close>

text \<open>\<open>go_slice xs lo hi\<close> is \<open>xs[lo:hi]\<close>; a slice outside the bounds panics.\<close>

definition go_slice :: "'a list \<Rightarrow> int \<Rightarrow> int \<Rightarrow> 'a list option" where
  "go_slice xs lo hi =
     (if 0 \<le> lo \<and> lo \<le> hi \<and> hi \<le> int (length xs)
      then Some (take (nat hi - nat lo) (drop (nat lo) xs)) else None)"

text \<open>\<open>index_at xs i\<close> is \<open>xs[i]\<close>; an index outside the bounds panics.\<close>

definition index_at :: "'a list \<Rightarrow> int \<Rightarrow> 'a option" where
  "index_at xs i = (if 0 \<le> i \<and> i < int (length xs) then Some (xs ! nat i) else None)"

text \<open>\<open>store_at xs i v\<close> is the assignment \<open>xs[i] = v\<close>.\<close>

definition store_at :: "'a list \<Rightarrow> int \<Rightarrow> 'a \<Rightarrow> 'a list option" where
  "store_at xs i v = (if 0 \<le> i \<and> i < int (length xs) then Some (xs[nat i := v]) else None)"

text \<open>
  \<open>go_copy dst src\<close> is the destination after \<open>copy(dst, src)\<close>: the first
  \<open>min(len(dst), len(src))\<close> elements are overwritten. \<open>copy_into dst off src\<close> is the
  array after \<open>copy(dst[off:], src)\<close>.
\<close>

definition go_copy :: "'a list \<Rightarrow> 'a list \<Rightarrow> 'a list" where
  "go_copy dst src = take (length dst) src @ drop (length src) dst"

definition copy_into :: "'a list \<Rightarrow> int \<Rightarrow> 'a list \<Rightarrow> 'a list option" where
  "copy_into dst off src =
     (if 0 \<le> off \<and> off \<le> int (length dst)
      then Some (take (nat off) dst @ go_copy (drop (nat off) dst) src) else None)"

text \<open>Integer remainder for a non-negative dividend; a zero divisor panics.\<close>

definition go_mod :: "int \<Rightarrow> int \<Rightarrow> int option" where
  "go_mod a b = (if b = 0 then None else Some (a mod b))"

lemma slice_ok [go_run]:
  "lo \<le> hi \<Longrightarrow> hi \<le> length xs \<Longrightarrow> go_slice xs (int lo) (int hi) = Some (take (hi - lo) (drop lo xs))"
  by (simp add: go_slice_def)

lemma slice_length: "go_slice xs lo hi = Some ys \<Longrightarrow> length ys = nat (hi - lo)"
  by (auto simp: go_slice_def nat_diff_distrib' split: if_splits)

lemma index_at_ok [go_run]: "i < length xs \<Longrightarrow> index_at xs (int i) = Some (xs ! i)"
  by (simp add: index_at_def)

lemma store_at_ok [go_run]: "i < length xs \<Longrightarrow> store_at xs (int i) v = Some (xs[i := v])"
  by (simp add: store_at_def)

lemma length_go_copy [simp]: "length (go_copy dst src) = length dst"
  by (simp add: go_copy_def)

lemma go_copy_exact [simp]: "length src = length dst \<Longrightarrow> go_copy dst src = src"
  by (simp add: go_copy_def)

lemma go_copy_short: "length src \<le> length dst \<Longrightarrow> go_copy dst src = src @ drop (length src) dst"
  by (simp add: go_copy_def)

lemma copy_into_ok [go_run]:
  "off + length src \<le> length dst \<Longrightarrow>
   copy_into dst (int off) src = Some (take off dst @ src @ drop (off + length src) dst)"
  by (simp add: copy_into_def go_copy_short add.commute)

lemma copy_into_length: "copy_into dst off src = Some xs \<Longrightarrow> length xs = length dst"
  by (auto simp: copy_into_def split: if_splits)

lemma go_mod_ok [go_run]: "b \<noteq> 0 \<Longrightarrow> go_mod a b = Some (a mod b)"
  by (simp add: go_mod_def)

lemma field_at: "length pre = n \<Longrightarrow> length f = k \<Longrightarrow> take k (drop n (pre @ f @ post)) = f"
  by simp

section \<open>Big-endian byte strings\<close>

text \<open>
  \<open>be_word bs\<close> reads a byte string as a big-endian number of the word type
  (\<open>binary.BigEndian.Uint32\<close> and the constructors of \<open>netip.Addr\<close>); \<open>be_bytes n w\<close>
  writes the lowest \<open>n\<close> bytes of a word.
\<close>

definition be_word :: "byte list \<Rightarrow> 'a::len word" where
  "be_word bs = foldl (\<lambda>acc b. push_bit 8 acc OR ucast b) 0 bs"

fun be_bytes :: "nat \<Rightarrow> 'a::len word \<Rightarrow> byte list" where
  "be_bytes 0 w = []"
| "be_bytes (Suc n) w = be_bytes n (drop_bit 8 w) @ [ucast w]"

lemma length_be_bytes [simp]: "length (be_bytes n w) = n"
  by (induction n arbitrary: w) auto

lemma be_word_Nil [simp]: "be_word [] = 0"
  by (simp add: be_word_def)

lemma be_word_snoc: "be_word (bs @ [b]) = push_bit 8 (be_word bs) OR ucast b"
  by (simp add: be_word_def)

text \<open>A string of \<open>n\<close> bytes sets only the lowest \<open>8 * n\<close> bits.\<close>

lemma bit_be_word: "bit (be_word bs :: 'a::len word) i \<Longrightarrow> i < 8 * length bs"
proof (induction bs arbitrary: i rule: rev_induct)
  case Nil
  then show ?case by simp
next
  case (snoc b bs)
  from snoc.prems consider "bit (be_word bs :: 'a word) (i - 8)" "8 \<le> i" | "bit b i"
    by (auto simp: be_word_snoc bit_simps)
  then show ?case
  proof cases
    case 1
    then show ?thesis using snoc.IH [of "i - 8"] by simp
  next
    case 2
    then show ?thesis using bit_imp_le_length [of b i] by simp
  qed
qed

lemma be_bytes_word:
  assumes "8 * length bs \<le> LENGTH('a)"
  shows "be_bytes (length bs) (be_word bs :: 'a::len word) = bs"
  using assms
proof (induction bs rule: rev_induct)
  case Nil
  then show ?case by simp
next
  case (snoc b bs)
  have small: "bit (be_word bs :: 'a word) i \<Longrightarrow> i + 8 < LENGTH('a)" for i
    using bit_be_word [where 'a = 'a, of bs i] snoc.prems by simp
  have hi: "drop_bit 8 (be_word (bs @ [b]) :: 'a word) = be_word bs"
  proof (rule bit_word_eqI)
    fix n assume "n < LENGTH('a)"
    have "\<not> bit b (8 + n)" using bit_imp_le_length [of b "8 + n"] by auto
    then show "bit (drop_bit 8 (be_word (bs @ [b]) :: 'a word)) n \<longleftrightarrow> bit (be_word bs :: 'a word) n"
      using small [of n] by (auto simp: be_word_snoc bit_simps add.commute)
  qed
  have lo: "ucast (be_word (bs @ [b]) :: 'a word) = b"
    by (rule bit_word_eqI) (use snoc.prems in \<open>auto simp: be_word_snoc bit_simps\<close>)
  show ?case using snoc by (simp add: hi lo)
qed

lemma be_word_bytes:
  assumes "8 * n = LENGTH('a)"
  shows "be_word (be_bytes n (w :: 'a::len word)) = w"
proof -
  have *: "be_word (be_bytes m (v :: 'a word)) = take_bit (8 * m) v" for m v
  proof (induction m arbitrary: v)
    case 0
    then show ?case by simp
  next
    case (Suc m)
    show ?case
      by (rule bit_word_eqI) (auto simp: be_word_snoc Suc bit_simps)
  qed
  show ?thesis using assms by (simp add: * take_bit_word_eq_self)
qed

section \<open>Maps as association lists\<close>

text \<open>
  A Go map is an association list with pairwise distinct keys: \<open>map_of\<close> is the lookup,
  \<open>AList.update\<close> the assignment, \<open>AList.delete\<close> the builtin \<open>delete\<close> and \<open>length\<close> the
  builtin \<open>len\<close>. Go iterates over a map in an unspecified order: where an iteration is
  modelled, the order is the order of the list, and a lemma states what does not
  depend on it.
\<close>

definition wf_map :: "('k \<times> 'v) list \<Rightarrow> bool" where
  "wf_map m = distinct (map fst m)"

lemma wf_map_Nil [simp]: "wf_map []"
  by (simp add: wf_map_def)

lemma wf_map_update [simp]: "wf_map m \<Longrightarrow> wf_map (AList.update k v m)"
  by (simp add: wf_map_def distinct_update)

lemma wf_map_delete [simp]: "wf_map m \<Longrightarrow> wf_map (AList.delete k m)"
  by (simp add: wf_map_def distinct_delete)

lemma wf_map_filter [simp]: "wf_map m \<Longrightarrow> wf_map (filter P m)"
  by (induction m) (auto simp: wf_map_def)

lemma map_of_delete: "map_of (AList.delete k m) = (map_of m)(k := None)"
  by (rule AList.delete_conv')

lemma map_of_filter_wf:
  "wf_map m \<Longrightarrow>
   map_of (filter P m) k = (case map_of m k of None \<Rightarrow> None | Some v \<Rightarrow> if P (k, v) then Some v else None)"
  by (induction m) (auto simp: wf_map_def map_of_eq_None_iff split: option.splits)

lemma wf_map_perm:
  assumes "wf_map m" "wf_map m'" "set m = set m'"
  shows "map_of m = map_of m'"
  using assms by (metis wf_map_def map_of_inject_set)

lemma length_update_new: "map_of m k = None \<Longrightarrow> length (AList.update k v m) = Suc (length m)"
  by (induction m) (auto split: if_splits)

lemma length_update_old: "map_of m k \<noteq> None \<Longrightarrow> length (AList.update k v m) = length m"
  by (induction m) (auto split: if_splits)

end
