(* ===== verification/Netip.thy ===== *)
theory Netip
  imports NH_Prelude "HOL-Library.Char_ord" "HOL-Library.List_Lexorder"
begin

text \<open>
  The part of Go's \<open>net/netip\<close> that the program uses (\<open>Addr\<close>, \<open>AddrPort\<close>, \<open>Prefix\<close>
  and the methods called on them by \<open>core/protocol/ip.go\<close>, \<open>core/stack/hash.go\<close>,
  \<open>core/engine\<close>, \<open>core/config\<close> and \<open>core/route\<close>), as of the toolchain named in
  \<open>go.mod\<close> (go1.22.4). An IPv6 address carries its zone, the empty string for none.
\<close>

section \<open>Addresses\<close>

datatype ipaddr = ZeroAddr | Addr4 "32 word" | Addr6 "128 word" string

definition AddrFromSlice :: "byte list \<Rightarrow> ipaddr \<times> bool" where
  "AddrFromSlice bs =
     (if length bs = 4 then (Addr4 (be_word bs), True)
      else if length bs = 16 then (Addr6 (be_word bs) [], True)
      else (ZeroAddr, False))"

definition addr_IsValid :: "ipaddr \<Rightarrow> bool" where
  "addr_IsValid a = (a \<noteq> ZeroAddr)"

fun Is4 :: "ipaddr \<Rightarrow> bool" where
  "Is4 (Addr4 w) = True"
| "Is4 _ = False"

fun Is6 :: "ipaddr \<Rightarrow> bool" where
  "Is6 (Addr6 w z) = True"
| "Is6 _ = False"

text \<open>The 128-bit value the library stores: an IPv4 address is kept 4-in-6 mapped.\<close>

fun addr_u128 :: "ipaddr \<Rightarrow> 128 word" where
  "addr_u128 ZeroAddr = 0"
| "addr_u128 (Addr4 w) = 0xffff00000000 OR ucast w"
| "addr_u128 (Addr6 w z) = w"

fun Is4In6 :: "ipaddr \<Rightarrow> bool" where
  "Is4In6 (Addr6 w z) = (drop_bit 32 w = 0xffff)"
| "Is4In6 _ = False"

definition Unmap :: "ipaddr \<Rightarrow> ipaddr" where
  "Unmap a = (if Is4In6 a then Addr4 (ucast (addr_u128 a)) else a)"

fun BitLen :: "ipaddr \<Rightarrow> nat" where
  "BitLen ZeroAddr = 0"
| "BitLen (Addr4 w) = 32"
| "BitLen (Addr6 w z) = 128"

fun addr_zone :: "ipaddr \<Rightarrow> string" where
  "addr_zone (Addr6 w z) = z"
| "addr_zone _ = []"

text \<open>\<open>As4\<close> panics on the zero address and on an IPv6 address that is not 4-in-6.\<close>

fun As4 :: "ipaddr \<Rightarrow> byte list option" where
  "As4 ZeroAddr = None"
| "As4 (Addr4 w) = Some (be_bytes 4 w)"
| "As4 (Addr6 w z) = (if Is4In6 (Addr6 w z) then Some (be_bytes 4 w) else None)"

definition As16 :: "ipaddr \<Rightarrow> byte list" where
  "As16 a = be_bytes 16 (addr_u128 a)"

definition addr_Compare :: "ipaddr \<Rightarrow> ipaddr \<Rightarrow> int" where
  "addr_Compare a b =
     (if BitLen a < BitLen b then - 1 else if BitLen b < BitLen a then 1
      else if addr_u128 a < addr_u128 b then - 1 else if addr_u128 b < addr_u128 a then 1
      else if Is6 a then
        (if addr_zone a < addr_zone b then - 1 else if addr_zone b < addr_zone a then 1 else 0)
      else 0)"

definition addr_IsMulticast :: "ipaddr \<Rightarrow> bool" where
  "addr_IsMulticast a = (case Unmap a of
       ZeroAddr \<Rightarrow> False
     | Addr4 w \<Rightarrow> (ucast (drop_bit 24 w) :: byte) AND 0xf0 = 0xe0
     | Addr6 w z \<Rightarrow> drop_bit 120 w = 0xff)"

definition addr_IsLinkLocalMulticast :: "ipaddr \<Rightarrow> bool" where
  "addr_IsLinkLocalMulticast a = (case Unmap a of
       ZeroAddr \<Rightarrow> False
     | Addr4 w \<Rightarrow> drop_bit 24 w = 224 \<and> (ucast (drop_bit 16 w) :: byte) = 0
                  \<and> (ucast (drop_bit 8 w) :: byte) = 0
     | Addr6 w z \<Rightarrow> (ucast (drop_bit 112 w) :: 16 word) AND 0xff0f = 0xff02)"

lemma AddrFromSlice_ok [simp]:
  "length bs = 4 \<Longrightarrow> AddrFromSlice bs = (Addr4 (be_word bs), True)"
  "length bs = 16 \<Longrightarrow> AddrFromSlice bs = (Addr6 (be_word bs) [], True)"
  by (simp_all add: AddrFromSlice_def)

lemma addr_IsValid_simps [simp]:
  "\<not> addr_IsValid ZeroAddr" "addr_IsValid (Addr4 w)" "addr_IsValid (Addr6 v z)"
  by (simp_all add: addr_IsValid_def)

lemma length_As4: "As4 a = Some bs \<Longrightarrow> length bs = 4"
  by (cases a) (auto split: if_splits)

lemma length_As16 [simp]: "length (As16 a) = 16"
  by (simp add: As16_def)

text \<open>The 4-in-6 value determines the IPv4 address.\<close>

lemma mapped_u128_inject:
  "(0xffff00000000 OR ucast (v :: 32 word) :: 128 word) = 0xffff00000000 OR ucast w \<longleftrightarrow> v = w"
proof
  assume eq: "(0xffff00000000 OR ucast v :: 128 word) = 0xffff00000000 OR ucast w"
  have low: "take_bit 32 (0xffff00000000 OR ucast u :: 128 word) = ucast u" for u :: "32 word"
    by (rule bit_word_eqI) (auto simp: bit_simps take_bit_or dest: bit_imp_le_length)
  from eq have "(ucast v :: 128 word) = ucast w" by (metis low)
  then have same: "bit (ucast v :: 128 word) n = bit (ucast w :: 128 word) n" for n by simp
  show "v = w"
  proof (rule bit_word_eqI)
    fix n assume "n < LENGTH(32)"
    then show "bit v n = bit w n" using same [of n] by (simp add: bit_ucast_iff)
  qed
qed simp

lemma addr_Compare_eq: "addr_Compare a b = 0 \<longleftrightarrow> a = b"
proof
  assume "addr_Compare a b = 0"
  then have eq: "BitLen a = BitLen b" "addr_u128 a = addr_u128 b" "Is6 a \<Longrightarrow> addr_zone a = addr_zone b"
    by (auto simp: addr_Compare_def split: if_splits)
  then show "a = b" by (cases a; cases b) (auto simp: mapped_u128_inject)
qed (simp add: addr_Compare_def)

section \<open>Addresses are linearly ordered by Compare\<close>

instantiation ipaddr :: linorder
begin

definition less_eq_ipaddr :: "ipaddr \<Rightarrow> ipaddr \<Rightarrow> bool" where
  "less_eq_ipaddr a b = (addr_Compare a b \<le> 0)"

definition less_ipaddr :: "ipaddr \<Rightarrow> ipaddr \<Rightarrow> bool" where
  "less_ipaddr a b = (addr_Compare a b < 0)"

instance
proof
  fix a b c :: ipaddr
  have swap: "addr_Compare b a = - addr_Compare a b" for a b :: ipaddr
    by (cases a; cases b) (auto simp: addr_Compare_def)
  show "(a < b) = (a \<le> b \<and> \<not> b \<le> a)"
    using swap [of b a] by (auto simp: less_eq_ipaddr_def less_ipaddr_def)
  show "a \<le> a" by (simp add: less_eq_ipaddr_def addr_Compare_def)
  show "a \<le> b \<or> b \<le> a"
    using swap [of b a] by (auto simp: less_eq_ipaddr_def)
  show "a = b" if "a \<le> b" "b \<le> a"
    using that swap [of b a] addr_Compare_eq [of a b] by (simp add: less_eq_ipaddr_def)
  show "a \<le> c" if "a \<le> b" "b \<le> c"
    using that
    by (cases a; cases b; cases c)
      (auto simp: less_eq_ipaddr_def addr_Compare_def split: if_splits)
qed

end

section \<open>Ports and prefixes\<close>

datatype addrport = AddrPort (ap_addr: ipaddr) (ap_port: "16 word")

text \<open>A prefix is an address, with its host bits, and a length; the zero prefix is invalid.\<close>

datatype prefix = ZeroPrefix | Prefix ipaddr nat

fun prefix_Addr :: "prefix \<Rightarrow> ipaddr" where
  "prefix_Addr ZeroPrefix = ZeroAddr"
| "prefix_Addr (Prefix a n) = a"

fun prefix_IsValid :: "prefix \<Rightarrow> bool" where
  "prefix_IsValid ZeroPrefix = False"
| "prefix_IsValid (Prefix a n) = True"

fun prefix_Bits :: "prefix \<Rightarrow> int" where
  "prefix_Bits ZeroPrefix = - 1"
| "prefix_Bits (Prefix a n) = int n"

end
