(* ===== verification/NetHash.thy ===== *)
theory NetHash
  imports Netip
begin

text \<open>
  \<open>core/stack/hash.go\<close>: the flow hash of a packet, Jenkins' 32-bit mix over the two
  addresses and the two ports. The constants \<open>net.IPv4\<close> and \<open>net.IPv6\<close> come from
  \<open>go-cidranger/net\<close>, which is not part of the repository: they are arguments of
  \<open>NetHash\<close>.
\<close>

type_synonym u32 = "32 word"

text \<open>\<open>shift\<close> is a Go \<open>uint\<close>, 64 bits wide; a Go shift by the width or more gives zero.\<close>

definition rol32 :: "u32 \<Rightarrow> 64 word \<Rightarrow> u32" where
  "rol32 word shift = push_bit (unat shift) word OR drop_bit (unat ((- shift) AND 31)) word"

text \<open>The body of \<open>jHashMix\<close>, all three variables at its end; the function returns \<open>c\<close>.\<close>

definition jHashMix_body :: "u32 \<Rightarrow> u32 \<Rightarrow> u32 \<Rightarrow> u32 \<times> u32 \<times> u32" where
  "jHashMix_body a b c = (
     let a = a - c;
         a = a XOR rol32 c 4;
         c = c + b;
         b = b - a;
         b = b XOR rol32 a 6;
         a = a + c;
         c = c - b;
         c = c XOR rol32 b 8;
         b = b + a;
         a = a - c;
         a = a XOR rol32 c 16;
         c = c + b;
         b = b - a;
         b = b XOR rol32 a 19;
         a = a + c;
         c = c - b;
         c = c XOR rol32 b 4;
         b = b + a
     in (a, b, c))"

definition jHashMix :: "u32 \<Rightarrow> u32 \<Rightarrow> u32 \<Rightarrow> u32" where
  "jHashMix a b c = snd (snd (jHashMix_body a b c))"

text \<open>\<open>binary.BigEndian.Uint32\<close> reads the first four bytes and panics on a shorter slice.\<close>

definition BigEndian_Uint32 :: "byte list \<Rightarrow> u32 option" where
  "BigEndian_Uint32 bs = (if length bs < 4 then None else Some (be_word (take 4 bs)))"

text \<open>\<open>binary.BigEndian.Uint32(bs[lo:hi])\<close>.\<close>

definition u32_at :: "byte list \<Rightarrow> int \<Rightarrow> int \<Rightarrow> u32 option" where
  "u32_at bs lo hi = do { s \<leftarrow> go_slice bs lo hi; BigEndian_Uint32 s }"

definition ports_word :: "addrport \<Rightarrow> addrport \<Rightarrow> u32" where
  "ports_word src dst = push_bit 16 (ucast (ap_port src)) OR ucast (ap_port dst)"

definition net4HashFn :: "addrport \<Rightarrow> addrport \<Rightarrow> u32 option" where
  "net4HashFn src dst = do {
     srcIP \<leftarrow> As4 (ap_addr src);
     srcTotal \<leftarrow> BigEndian_Uint32 srcIP;
     dstIP \<leftarrow> As4 (ap_addr dst);
     dstTotal \<leftarrow> BigEndian_Uint32 dstIP;
     Some (jHashMix srcTotal dstTotal (ports_word src dst))
   }"

definition net6HashFn :: "addrport \<Rightarrow> addrport \<Rightarrow> u32 option" where
  "net6HashFn src dst = do {
     let srcIP = As16 (ap_addr src);
     srcTotal \<leftarrow> u32_at srcIP 12 16;
     let dstIP = As16 (ap_addr dst);
     d0 \<leftarrow> u32_at dstIP 0 4;
     d1 \<leftarrow> u32_at dstIP 4 8;
     d2 \<leftarrow> u32_at dstIP 8 12;
     d3 \<leftarrow> u32_at dstIP 12 16;
     let dstTotal = jHashMix (d0 XOR d1) d2 d3;
     Some (jHashMix srcTotal dstTotal (ports_word src dst))
   }"

definition NetHash :: "'v \<Rightarrow> 'v \<Rightarrow> 'v \<Rightarrow> addrport \<Rightarrow> addrport \<Rightarrow> u32 option" where
  "NetHash net_IPv4 net_IPv6 network src dst =
     (if network = net_IPv4 then net4HashFn src dst
      else if network = net_IPv6 then net6HashFn src dst
      else Some 0)"

section \<open>The mix is a permutation\<close>

text \<open>Three lines of the mix; the six groups differ in the roles of the variables.\<close>

definition mix_round :: "64 word \<Rightarrow> u32 \<times> u32 \<times> u32 \<Rightarrow> u32 \<times> u32 \<times> u32" where
  "mix_round k = (\<lambda>(x, y, z). ((x - z) XOR rol32 z k, y, z + y))"

definition unmix_round :: "64 word \<Rightarrow> u32 \<times> u32 \<times> u32 \<Rightarrow> u32 \<times> u32 \<times> u32" where
  "unmix_round k = (\<lambda>(x, y, z). let z = z - y in ((x XOR rol32 z k) + z, y, z))"

definition turn :: "u32 \<times> u32 \<times> u32 \<Rightarrow> u32 \<times> u32 \<times> u32" where
  "turn = (\<lambda>(a, b, c). (b, c, a))"

lemma unmix_mix [simp]: "unmix_round k (mix_round k t) = t"
  by (cases t) (simp add: mix_round_def unmix_round_def Let_def xor.assoc)

lemma mix_unmix [simp]: "mix_round k (unmix_round k t) = t"
  by (cases t) (simp add: mix_round_def unmix_round_def Let_def xor.assoc)

lemma bij_mix_round: "bij (mix_round k)"
  by (rule bij_betw_byWitness [where f' = "unmix_round k"]) auto

lemma bij_turn: "bij turn"
  by (rule bij_betw_byWitness [where f' = "turn \<circ> turn"]) (auto simp: turn_def)

lemma jHashMix_body_rounds:
  "jHashMix_body a b c =
     (turn \<circ> mix_round 4 \<circ> turn \<circ> mix_round 19 \<circ> turn \<circ> mix_round 16 \<circ>
      turn \<circ> mix_round 8 \<circ> turn \<circ> mix_round 6 \<circ> turn \<circ> mix_round 4) (a, b, c)"
  unfolding jHashMix_body_def mix_round_def turn_def o_def split_conv Let_def by (rule refl)

lemma bij_jHashMix_body: "bij (\<lambda>(a, b, c). jHashMix_body a b c)"
proof -
  have "(\<lambda>(a, b, c). jHashMix_body a b c) =
     turn \<circ> mix_round 4 \<circ> turn \<circ> mix_round 19 \<circ> turn \<circ> mix_round 16 \<circ>
      turn \<circ> mix_round 8 \<circ> turn \<circ> mix_round 6 \<circ> turn \<circ> mix_round 4"
    by (rule ext) (auto simp only: jHashMix_body_rounds split_paired_all split_conv)
  then show ?thesis by (simp only: bij_comp bij_mix_round bij_turn)
qed

lemma unat_neg_and_31:
  assumes "unat (s :: 64 word) < 32"
  shows "unat ((- s) AND 31) = (32 - unat s) mod 32"
proof -
  have "(- s) AND 31 = take_bit 5 (- s)" by (simp add: take_bit_eq_mask mask_eq_exp_minus_1)
  then have "unat ((- s) AND 31) = unat (- s) mod 32"
    by (simp only: unsigned_take_bit_eq) (simp add: take_bit_eq_mod)
  also have "unat (- s) mod 32 = (32 - unat s) mod 32"
  proof (cases "s = 0")
    case False
    then have "unat (- s) = 2 ^ 64 - unat s"
      using unat_sub_if' [of 0 s] by (simp add: unat_eq_zero word_size)
    also have "\<dots> = 32 * (2 ^ 59 - 1) + (32 - unat s)" using assms by simp
    finally show ?thesis by (simp add: mod_add_left_eq [symmetric] del: mod_add_left_eq)
  qed simp
  finally show ?thesis .
qed

lemma rol32_rotl:
  assumes "unat s < 32"
  shows "rol32 w s = word_rotl (unat s) w"
proof (rule bit_word_eqI)
  fix n assume n: "n < LENGTH(32)"
  let ?k = "unat s"
  have rsh: "unat ((- s) AND 31) = (32 - ?k) mod 32" using assms by (rule unat_neg_and_31)
  have far: "\<not> bit w m" if "32 \<le> m" for m using that bit_imp_le_length [of w m] by auto
  consider "?k = 0" | "0 < ?k" "?k \<le> n" | "n < ?k" by linarith
  then show "bit (rol32 w s) n = bit (word_rotl ?k w) n"
  proof cases
    case 1
    with n show ?thesis by (simp add: rol32_def bit_simps rsh bit_word_rotl_iff)
  next
    case 2
    then have "(n + (32 - ?k)) mod 32 = n - ?k" using n assms by (simp add: mod_if)
    with 2 n assms far show ?thesis
      by (auto simp: rol32_def bit_simps rsh bit_word_rotl_iff mod_if)
  next
    case 3
    define j where "j = 32 - ?k"
    with 3 n assms have j: "j < 32" "n + j < 32" "\<not> ?k \<le> n" by auto
    then have sh: "unat ((- s) AND 31) = j" by (simp add: rsh j_def [symmetric])
    from j n assms have "(n + (LENGTH(32) - ?k mod LENGTH(32))) mod LENGTH(32) = n + j"
      by (simp add: j_def [symmetric])
    with j show ?thesis
      unfolding rol32_def sh bit_word_rotl_iff
      by (simp add: bit_simps add.commute)
  qed
qed

text \<open>Reading a four-byte slice of a 16-byte address never panics.\<close>

lemma u32_at_ok:
  assumes "m + 4 \<le> length bs"
  shows "u32_at bs (int m) (int (m + 4)) = Some (be_word (take 4 (drop m bs)))"
proof -
  have "go_slice bs (int m) (int (m + 4)) = Some (take 4 (drop m bs))"
    using assms by (subst slice_ok) simp_all
  then show ?thesis using assms by (simp add: u32_at_def BigEndian_Uint32_def)
qed

lemma u32_at_16:
  assumes "length bs = 16"
  shows "u32_at bs 0 4 = Some (be_word (take 4 bs))"
    and "u32_at bs 4 8 = Some (be_word (take 4 (drop 4 bs)))"
    and "u32_at bs 8 12 = Some (be_word (take 4 (drop 8 bs)))"
    and "u32_at bs 12 16 = Some (be_word (drop 12 bs))"
  using u32_at_ok [of 0 bs] u32_at_ok [of 4 bs] u32_at_ok [of 8 bs] u32_at_ok [of 12 bs] assms
  by simp_all

lemma net6HashFn_eq:
  "net6HashFn src dst =
     (let s = As16 (ap_addr src); d = As16 (ap_addr dst) in
      Some (jHashMix (be_word (drop 12 s))
              (jHashMix (be_word (take 4 d) XOR be_word (take 4 (drop 4 d)))
                        (be_word (take 4 (drop 8 d))) (be_word (drop 12 d)))
              (ports_word src dst)))"
  by (simp add: net6HashFn_def Let_def u32_at_16)

lemma BigEndian_As4: "As4 a = Some bs \<Longrightarrow> BigEndian_Uint32 bs = Some (be_word bs)"
  by (auto simp: BigEndian_Uint32_def dest: length_As4)

lemma net4HashFn_eq:
  "net4HashFn src dst =
     (case (As4 (ap_addr src), As4 (ap_addr dst)) of
        (Some s, Some d) \<Rightarrow> Some (jHashMix (be_word s) (be_word d) (ports_word src dst))
      | _ \<Rightarrow> None)"
  by (auto simp: net4HashFn_def BigEndian_As4 split: option.splits)

section \<open>Properties\<close>

text \<open>The hash is perfectly balanced: of the \<open>2 ^ 96\<close> triples of address, address and
  port words, exactly \<open>2 ^ 64\<close> are hashed to each 32-bit value (the mix is a permutation of
  the triples, of which the function returns one component).\<close>

theorem jHashMix_uniform: "card {(a, b, c). jHashMix a b c = h} = 2 ^ 64"
proof -
  let ?f = "\<lambda>(a, b, c). jHashMix_body a b c"
  let ?T = "{t :: u32 \<times> u32 \<times> u32. snd (snd t) = h}"
  have pre: "{(a, b, c). jHashMix a b c = h} = ?f -` ?T"
    by (auto simp: jHashMix_def)
  have "?f ` {(a, b, c). jHashMix a b c = h} = ?T"
    unfolding pre using bij_is_surj [OF bij_jHashMix_body] by (rule surj_image_vimage_eq)
  moreover have "inj_on ?f {(a, b, c). jHashMix a b c = h}"
    using bij_is_inj [OF bij_jHashMix_body] by (rule inj_on_subset) simp
  ultimately have "card {(a, b, c). jHashMix a b c = h} = card ?T"
    by (metis (no_types, lifting) card_image)
  also have "?T = UNIV \<times> UNIV \<times> {h}" by auto
  also have "card \<dots> = 2 ^ 64" by (simp add: card_cartesian_product card_word)
  finally show ?thesis .
qed

text \<open>For every shift below the word size rol32 is the 32-bit rotation to the left,
  although it computes the right shift from a negated unsigned 64-bit number.\<close>

theorem rol32_is_rotation:
  assumes "unat s < 32"
  shows "rol32 w s = word_rotl (unat s) w"
  using assms by (rule rol32_rotl)

theorem rol32_is_rotation_witness:
  "unat (8 :: 64 word) < 32 \<and> rol32 0x80000001 8 = word_rotl (unat (8 :: 64 word)) 0x80000001"
  using rol32_is_rotation [of 8 "0x80000001"] by simp

text \<open>NetHash panics in exactly one case: the network is IPv4 and one of the two addresses
  is neither IPv4 nor 4-in-6 mapped; an IPv6 or unknown network always gives a hash.\<close>

theorem NetHash_panics_iff:
  "NetHash v4 v6 network src dst = None \<longleftrightarrow>
     network = v4 \<and> (As4 (ap_addr src) = None \<or> As4 (ap_addr dst) = None)"
  by (auto simp: NetHash_def net4HashFn_eq net6HashFn_eq Let_def split: option.splits)

text \<open>The IPv6 hash reads only the last four bytes of the source address: two sources that
  agree there collide for every destination and port, so a /96 of sources shares one hash.\<close>

theorem net6HashFn_source_prefix_ignored:
  assumes "drop 12 (As16 s) = drop 12 (As16 s')"
  shows "net6HashFn (AddrPort s p) dst = net6HashFn (AddrPort s' p) dst"
  using assms by (simp add: net6HashFn_eq ports_word_def)

theorem net6HashFn_source_prefix_ignored_witness:
  "net6HashFn (AddrPort (Addr6 (0x20010db8 * 2 ^ 96 + 1) []) 80) (AddrPort (Addr6 1 []) 443)
     = net6HashFn (AddrPort (Addr6 (0xfe80 * 2 ^ 112 + 1) []) 80) (AddrPort (Addr6 1 []) 443)"
proof (rule net6HashFn_source_prefix_ignored)
  show "drop 12 (As16 (Addr6 (0x20010db8 * 2 ^ 96 + 1) []))
      = drop 12 (As16 (Addr6 (0xfe80 * 2 ^ 112 + 1) []))"
    by code_simp
qed

end
