(* ===== verification/RingBuffer.thy ===== *)
theory RingBuffer
  imports NH_Prelude
begin

text \<open>
  \<open>pkgs/ringbuffer/ringbuffer.go\<close>: the data part of the ring buffer. Every definition is one
  method or helper of the file, run with the mutex held; the blocking methods, which release
  the mutex in the middle, are assembled from these sections in \<open>RingBufferConc\<close>.

  Indices and sizes are Go \<open>int\<close>s, kept as integers with every slice, index and remainder
  checked: all their values lie between minus and plus twice the size, so 64 bits never wrap
  for a buffer that fits in memory. A condition variable is the set of the goroutines that
  wait on it; \<open>Broadcast\<close> empties it. \<open>wg\<close> is the counter of the wait group.
\<close>

section \<open>State\<close>

datatype rb_error =
    ErrTooMuchDataToWrite | ErrIsFull | ErrIsEmpty | ErrIsNotEmpty | ErrAcquireLock
  | ErrWriteOnClosed | EOF | ErrResetCalled | ErrOther nat

record ringbuffer =
  buf :: "byte list"
  size_of :: int
  rpos :: int
  wpos :: int
  isFull :: bool
  err :: "rb_error option"
  block :: bool
  wg :: nat
  readCond :: "nat set"
  writeCond :: "nat set"
  orphaned :: "nat set"

text \<open>\<open>make([]byte, size)\<close> panics on a negative size.\<close>

definition rb_New :: "int \<Rightarrow> ringbuffer option" where
  "rb_New sz =
     (if sz < 0 then None
      else Some \<lparr>buf = replicate (nat sz) 0, size_of = sz, rpos = 0, wpos = 0, isFull = False,
                 err = None, block = False, wg = 0, readCond = {}, writeCond = {}, orphaned = {}\<rparr>)"

definition rb_NewBuffer :: "byte list \<Rightarrow> ringbuffer" where
  "rb_NewBuffer b =
     \<lparr>buf = b, size_of = int (length b), rpos = 0, wpos = 0, isFull = False,
      err = None, block = False, wg = 0, readCond = {}, writeCond = {}, orphaned = {}\<rparr>"

text \<open>
  \<open>SetBlocking(true)\<close> installs new condition variables: whoever waited on the old ones is
  never signalled again (the comment of the method asks for a call before any use).
\<close>

definition SetBlocking :: "bool \<Rightarrow> ringbuffer \<Rightarrow> ringbuffer" where
  "SetBlocking b s =
     (let s = s\<lparr>block := b\<rparr>
      in if b then s\<lparr>orphaned := orphaned s \<union> readCond s \<union> writeCond s,
                     readCond := {}, writeCond := {}\<rparr>
         else s)"

definition broadcast_read :: "ringbuffer \<Rightarrow> ringbuffer" where
  "broadcast_read s = s\<lparr>readCond := {}\<rparr>"

definition broadcast_write :: "ringbuffer \<Rightarrow> ringbuffer" where
  "broadcast_write s = s\<lparr>writeCond := {}\<rparr>"

section \<open>Errors\<close>

definition transient :: "rb_error option \<Rightarrow> bool" where
  "transient e = (case e of None \<Rightarrow> True
     | Some e \<Rightarrow> e \<in> {ErrIsEmpty, ErrIsFull, ErrAcquireLock, ErrTooMuchDataToWrite, ErrIsNotEmpty})"

definition setErr :: "rb_error option \<Rightarrow> ringbuffer \<Rightarrow> rb_error option \<times> ringbuffer" where
  "setErr e s =
     (if err s \<noteq> None \<and> err s \<noteq> Some EOF then (err s, s)
      else if transient e then (e, s)
      else (e, (let s = s\<lparr>err := e\<rparr>
                in if block s then broadcast_write (broadcast_read s) else s)))"

definition readErr :: "ringbuffer \<Rightarrow> rb_error option" where
  "readErr s = (case err s of
       None \<Rightarrow> None
     | Some e \<Rightarrow>
         if e = EOF then (if wpos s = rpos s \<and> \<not> isFull s then Some EOF else None)
         else Some e)"

text \<open>The check at the head of the writing methods.\<close>

definition writeErr :: "ringbuffer \<Rightarrow> rb_error option" where
  "writeErr s = (case err s of None \<Rightarrow> None
     | Some e \<Rightarrow> Some (if e = EOF then ErrWriteOnClosed else e))"

section \<open>Moving the data\<close>

text \<open>The copy of \<open>n\<close> bytes out of the buffer, in one piece or around the end of the array.\<close>

definition rb_copy_out :: "ringbuffer \<Rightarrow> int \<Rightarrow> byte list \<Rightarrow> byte list option" where
  "rb_copy_out s n p =
     (if rpos s + n \<le> size_of s then do {
        data \<leftarrow> go_slice (buf s) (rpos s) (rpos s + n);
        Some (go_copy p data)
      }
      else do {
        let c1 = size_of s - rpos s;
        data1 \<leftarrow> go_slice (buf s) (rpos s) (size_of s);
        let p = go_copy p data1;
        let c2 = n - c1;
        data2 \<leftarrow> go_slice (buf s) 0 c2;
        copy_into p c1 data2
      })"

text \<open>\<open>read(p)\<close>: the new contents of \<open>p\<close>, the count and the error.\<close>

definition rb_read ::
  "byte list \<Rightarrow> ringbuffer \<Rightarrow> ((byte list \<times> int \<times> rb_error option) \<times> ringbuffer) option" where
  "rb_read p s =
     (if wpos s = rpos s \<and> \<not> isFull s then Some ((p, 0, Some ErrIsEmpty), s)
      else if wpos s > rpos s then do {
        let n = wpos s - rpos s;
        let n = (if n > int (length p) then int (length p) else n);
        data \<leftarrow> go_slice (buf s) (rpos s) (rpos s + n);
        let p = go_copy p data;
        r \<leftarrow> go_mod (rpos s + n) (size_of s);
        Some ((p, n, None), s\<lparr>rpos := r\<rparr>)
      }
      else do {
        let n = size_of s - rpos s + wpos s;
        let n = (if n > int (length p) then int (length p) else n);
        p \<leftarrow> rb_copy_out s n p;
        r \<leftarrow> go_mod (rpos s + n) (size_of s);
        let s = s\<lparr>rpos := r, isFull := False\<rparr>;
        Some ((p, n, readErr s), s)
      })"

text \<open>
  The copy of \<open>p\<close>, known to fit, into the buffer; the write position may become \<open>size\<close>.
\<close>

definition rb_copy_in :: "byte list \<Rightarrow> ringbuffer \<Rightarrow> ringbuffer option" where
  "rb_copy_in p s =
     (let n = int (length p)
      in if wpos s \<ge> rpos s then do {
           let c1 = size_of s - wpos s;
           if c1 \<ge> n then do {
             b \<leftarrow> copy_into (buf s) (wpos s) p;
             Some (s\<lparr>buf := b, wpos := wpos s + n\<rparr>)
           }
           else do {
             p1 \<leftarrow> go_slice p 0 c1;
             b \<leftarrow> copy_into (buf s) (wpos s) p1;
             let c2 = n - c1;
             p2 \<leftarrow> go_slice p c1 n;
             b \<leftarrow> copy_into b 0 p2;
             Some (s\<lparr>buf := b, wpos := c2\<rparr>)
           }
         }
         else do {
           b \<leftarrow> copy_into (buf s) (wpos s) p;
           Some (s\<lparr>buf := b, wpos := wpos s + n\<rparr>)
         })"

text \<open>The end of both writing helpers: wrap the position, set the flag when it meets the reader.\<close>

definition rb_wrap :: "ringbuffer \<Rightarrow> ringbuffer" where
  "rb_wrap s =
     (let s = (if wpos s = size_of s then s\<lparr>wpos := 0\<rparr> else s)
      in if wpos s = rpos s then s\<lparr>isFull := True\<rparr> else s)"

text \<open>\<open>write(p)\<close>: the count and the error.\<close>

definition rb_write ::
  "byte list \<Rightarrow> ringbuffer \<Rightarrow> ((int \<times> rb_error option) \<times> ringbuffer) option" where
  "rb_write p s =
     (if isFull s then Some ((0, Some ErrIsFull), s)
      else do {
        let avail = (if wpos s \<ge> rpos s then size_of s - wpos s + rpos s else rpos s - wpos s);
        (p, e) \<leftarrow> (if int (length p) > avail
                   then do { q \<leftarrow> go_slice p 0 avail; Some (q, Some ErrTooMuchDataToWrite) }
                   else Some (p, None));
        s \<leftarrow> rb_copy_in p s;
        Some ((int (length p), e), rb_wrap s)
      })"

definition rb_writeByte :: "byte \<Rightarrow> ringbuffer \<Rightarrow> (rb_error option \<times> ringbuffer) option" where
  "rb_writeByte c s =
     (if wpos s = rpos s \<and> isFull s then Some (Some ErrIsFull, s)
      else do {
        b \<leftarrow> store_at (buf s) (wpos s) c;
        Some (None, rb_wrap (s\<lparr>buf := b, wpos := wpos s + 1\<rparr>))
      })"

text \<open>The end of \<open>ReadByte\<close>, once the buffer is known not to be empty.\<close>

definition rb_takeByte :: "ringbuffer \<Rightarrow> ((byte \<times> rb_error option) \<times> ringbuffer) option" where
  "rb_takeByte s = do {
     b \<leftarrow> index_at (buf s) (rpos s);
     let s = s\<lparr>rpos := rpos s + 1\<rparr>;
     let s = (if rpos s = size_of s then s\<lparr>rpos := 0\<rparr> else s);
     let s = s\<lparr>isFull := False\<rparr>;
     Some ((b, readErr s), s)
   }"

section \<open>Observers\<close>

definition rb_Length :: "ringbuffer \<Rightarrow> int" where
  "rb_Length s =
     (if wpos s = rpos s then (if isFull s then size_of s else 0)
      else if wpos s > rpos s then wpos s - rpos s
      else size_of s - rpos s + wpos s)"

definition rb_Capacity :: "ringbuffer \<Rightarrow> int" where
  "rb_Capacity s = size_of s"

definition rb_Free :: "ringbuffer \<Rightarrow> int" where
  "rb_Free s =
     (if wpos s = rpos s then (if isFull s then 0 else size_of s)
      else if wpos s < rpos s then rpos s - wpos s
      else size_of s - wpos s + rpos s)"

definition rb_IsFull :: "ringbuffer \<Rightarrow> bool" where
  "rb_IsFull s = isFull s"

definition rb_IsEmpty :: "ringbuffer \<Rightarrow> bool" where
  "rb_IsEmpty s = (\<not> isFull s \<and> wpos s = rpos s)"

text \<open>\<open>dst\<close> is the caller's slice up to its capacity.\<close>

definition getDst :: "byte list \<Rightarrow> int \<Rightarrow> byte list option" where
  "getDst dst n =
     (if int (length dst) < n then Some (replicate (nat n) 0) else go_slice dst 0 n)"

definition rb_Bytes :: "byte list \<Rightarrow> ringbuffer \<Rightarrow> byte list option" where
  "rb_Bytes dst s =
     (if wpos s = rpos s then
        (if isFull s then do {
           b \<leftarrow> getDst dst (size_of s);
           d1 \<leftarrow> go_slice (buf s) (rpos s) (int (length (buf s)));
           let b = go_copy b d1;
           d2 \<leftarrow> go_slice (buf s) 0 (wpos s);
           copy_into b (size_of s - rpos s) d2
         }
         else Some [])
      else if wpos s > rpos s then do {
        b \<leftarrow> getDst dst (wpos s - rpos s);
        d \<leftarrow> go_slice (buf s) (rpos s) (wpos s);
        Some (go_copy b d)
      }
      else do {
        let n = size_of s - rpos s + wpos s;
        b \<leftarrow> getDst dst n;
        if rpos s + n < size_of s then do {
          d \<leftarrow> go_slice (buf s) (rpos s) (rpos s + n);
          Some (go_copy b d)
        }
        else do {
          let c1 = size_of s - rpos s;
          d1 \<leftarrow> go_slice (buf s) (rpos s) (size_of s);
          let b = go_copy b d1;
          let c2 = n - c1;
          d2 \<leftarrow> go_slice (buf s) 0 c2;
          copy_into b c1 d2
        }
      })"

section \<open>Methods that hold the mutex throughout\<close>

text \<open>\<open>locked\<close>: another goroutine holds the mutex, so that \<open>TryLock\<close> fails.\<close>

definition TryRead ::
  "bool \<Rightarrow> byte list \<Rightarrow> ringbuffer \<Rightarrow>
   ((byte list \<times> int \<times> rb_error option) \<times> ringbuffer) option" where
  "TryRead locked p s =
     (if locked then Some ((p, 0, Some ErrAcquireLock), s)
      else case readErr s of Some e \<Rightarrow> Some ((p, 0, Some e), s)
      | None \<Rightarrow>
        if p = [] then Some ((p, 0, readErr s), s)
        else do {
          ((p, n, e), s) \<leftarrow> rb_read p s;
          let s = (if block s \<and> n > 0 then broadcast_read s else s);
          Some ((p, n, e), s)
        })"

definition TryWrite ::
  "bool \<Rightarrow> byte list \<Rightarrow> ringbuffer \<Rightarrow> ((int \<times> rb_error option) \<times> ringbuffer) option" where
  "TryWrite locked p s =
     (if p = [] then (let (e, s) = setErr None s in Some ((0, e), s))
      else if locked then Some ((0, Some ErrAcquireLock), s)
      else case writeErr s of Some e \<Rightarrow> Some ((0, Some e), s)
      | None \<Rightarrow> do {
          ((n, e), s) \<leftarrow> rb_write p s;
          let s = (if block s \<and> n > 0 then broadcast_write s else s);
          let (e, s) = setErr e s;
          Some ((n, e), s)
        })"

definition TryWriteByte :: "bool \<Rightarrow> byte \<Rightarrow> ringbuffer \<Rightarrow> (rb_error option \<times> ringbuffer) option" where
  "TryWriteByte locked c s =
     (if locked then Some (Some ErrAcquireLock, s)
      else case writeErr s of Some e \<Rightarrow> Some (Some e, s)
      | None \<Rightarrow> do {
          (e, s) \<leftarrow> rb_writeByte c s;
          let s = (if e = None \<and> block s then broadcast_write s else s);
          Some (e, s)
        })"

definition CloseWithError :: "rb_error option \<Rightarrow> ringbuffer \<Rightarrow> ringbuffer" where
  "CloseWithError e s = snd (setErr (if e = None then Some EOF else e) s)"

definition CloseWriter :: "ringbuffer \<Rightarrow> ringbuffer" where
  "CloseWriter s = snd (setErr (Some EOF) s)"

end
