(* ===== verification/RingBufferCorrect.thy ===== *)
theory RingBufferCorrect
  imports RingBuffer
begin

text \<open>
  Correctness of the ring buffer's data part: the index invariant, the byte queue that a
  buffer stands for, and the refinement of every reading, writing and observing section to
  the corresponding operation on a bounded byte queue.
\<close>

section \<open>Rings over a list\<close>

text \<open>\<open>ring b r n\<close>: the \<open>n\<close> elements from position \<open>r\<close> on, wrapping at the end of \<open>b\<close>.\<close>

definition ring :: "'a list \<Rightarrow> nat \<Rightarrow> nat \<Rightarrow> 'a list" where
  "ring b r n = take n (drop r (b @ b))"

lemma length_ring [simp]: "r < length b \<Longrightarrow> n \<le> length b \<Longrightarrow> length (ring b r n) = n"
  by (simp add: ring_def)

lemma ring_0 [simp]: "ring b r 0 = []"
  by (simp add: ring_def)

lemma mod_below:
  fixes N :: nat
  assumes "r < N" "n \<le> N"
  shows "(r + n) mod N = (if r + n < N then r + n else r + n - N)"
  using assms by (simp add: le_mod_geq)

lemma ring_nth:
  assumes "r < length b" "n \<le> length b" "i < n"
  shows "ring b r n ! i = b ! ((r + i) mod length b)"
proof -
  have "ring b r n ! i = (b @ b) ! (r + i)"
    using assms by (simp add: ring_def del: take_append drop_append)
  with assms show ?thesis by (simp add: nth_append mod_if)
qed

lemma ring_take: "k \<le> n \<Longrightarrow> take k (ring b r n) = ring b r k"
  by (simp add: ring_def min_absorb1 del: take_append drop_append)

lemma ring_drop:
  assumes "r < length b" "n \<le> length b" "k \<le> n"
  shows "drop k (ring b r n) = ring b ((r + k) mod length b) (n - k)"
proof (rule nth_equalityI)
  have "(r + k) mod length b < length b" using assms(1) by (intro mod_less_divisor) auto
  then show "length (drop k (ring b r n)) = length (ring b ((r + k) mod length b) (n - k))"
    using assms by simp
  fix i assume "i < length (drop k (ring b r n))"
  then have i: "i < n - k" using assms by simp
  then have "drop k (ring b r n) ! i = b ! ((r + (k + i)) mod length b)"
    using assms by (simp add: ring_nth)
  also have "\<dots> = ring b ((r + k) mod length b) (n - k) ! i"
    using assms i \<open>(r + k) mod length b < length b\<close>
    by (subst ring_nth) (simp_all add: mod_add_left_eq add.assoc)
  finally show "drop k (ring b r n) ! i = ring b ((r + k) mod length b) (n - k) ! i" .
qed

text \<open>The two shapes of a ring: within the array, or around its end.\<close>

lemma ring_straight: "r + n \<le> length b \<Longrightarrow> ring b r n = take n (drop r b)"
  by (simp add: ring_def)

lemma ring_wrapped:
  assumes "r \<le> length b" "length b \<le> r + n" "n \<le> length b"
  shows "ring b r n = drop r b @ take (r + n - length b) b"
  using assms by (simp add: ring_def add.commute)

text \<open>\<open>ring_put b w q\<close>: the array after writing \<open>q\<close> at position \<open>w\<close>, wrapping at the end.\<close>

definition ring_put :: "'a list \<Rightarrow> nat \<Rightarrow> 'a list \<Rightarrow> 'a list" where
  "ring_put b w q =
     (if w + length q \<le> length b then take w b @ q @ drop (w + length q) b
      else let c = length b - w in
        drop c q @ take (w - (length q - c)) (drop (length q - c) b) @ take c q)"

lemma length_ring_put [simp]:
  "w < length b \<Longrightarrow> length q \<le> length b \<Longrightarrow> length (ring_put b w q) = length b"
  by (auto simp: ring_put_def Let_def)

lemma ring_put_new:
  assumes "w < length b" "length q \<le> length b" "i < length q"
  shows "ring_put b w q ! ((w + i) mod length b) = q ! i"
proof (cases "w + length q \<le> length b")
  case True
  then show ?thesis using assms by (simp add: ring_put_def nth_append mod_if)
next
  case False
  then show ?thesis
    using assms by (auto simp: ring_put_def Let_def nth_append mod_if)
qed

lemma ring_put_old:
  assumes "w < length b" "length q + n \<le> length b" "j < n"
  shows "ring_put b w q ! ((w + length q + j) mod length b) = b ! ((w + length q + j) mod length b)"
proof (cases "w + length q \<le> length b")
  case True
  then show ?thesis using assms by (auto simp: ring_put_def nth_append mod_if)
next
  case False
  then have "(w + length q + j) mod length b = w + length q + j - length b"
    using assms by (simp add: mod_if)
  with False show ?thesis using assms by (auto simp: ring_put_def Let_def nth_append add.commute)
qed

lemma ring_append:
  assumes "r < length b" "n + length q \<le> length b"
  shows "ring (ring_put b ((r + n) mod length b) q) r (n + length q) = ring b r n @ q"
proof (rule nth_equalityI)
  let ?w = "(r + n) mod length b"
  have w: "?w < length b" using assms(1) by (intro mod_less_divisor) auto
  have len: "length (ring_put b ?w q) = length b" using w assms(2) by simp
  show "length (ring (ring_put b ?w q) r (n + length q)) = length (ring b r n @ q)"
    using assms len by simp
  fix i assume "i < length (ring (ring_put b ?w q) r (n + length q))"
  then have i: "i < n + length q" using assms len by simp
  have at: "ring (ring_put b ?w q) r (n + length q) ! i = ring_put b ?w q ! ((r + i) mod length b)"
    using assms len i by (subst ring_nth) simp_all
  show "ring (ring_put b ?w q) r (n + length q) ! i = (ring b r n @ q) ! i"
  proof (cases "i < n")
    case False
    then have "r + i = r + n + (i - n)" by simp
    then have "(r + i) mod length b = (?w + (i - n)) mod length b" by (simp only: mod_add_left_eq)
    with False i w assms ring_put_new [of ?w b q "i - n"] show ?thesis
      by (simp add: at nth_append)
  next
    case True
    define j where "j = length b - n - length q + i"
    have "?w + length q + j = ?w + (length b + i - n)" using True assms by (simp add: j_def)
    then have "(?w + length q + j) mod length b = (r + n + (length b + i - n)) mod length b"
      by (simp only: mod_add_left_eq)
    also have "r + n + (length b + i - n) = r + i + length b" using True assms by simp
    finally have pos: "(?w + length q + j) mod length b = (r + i) mod length b" by simp
    have "ring_put b ?w q ! ((r + i) mod length b) = b ! ((r + i) mod length b)"
      using ring_put_old [of ?w b q "length b - length q" j] w True assms pos by (simp add: j_def)
    with True assms show ?thesis by (simp add: at nth_append ring_nth)
  qed
qed

section \<open>Invariant and contents\<close>

definition rb_wf :: "ringbuffer \<Rightarrow> bool" where
  "rb_wf s \<longleftrightarrow> size_of s = int (length (buf s)) \<and>
     0 \<le> rpos s \<and> rpos s < size_of s \<and> 0 \<le> wpos s \<and> wpos s < size_of s \<and>
     (isFull s \<longrightarrow> wpos s = rpos s)"

definition rb_contents :: "ringbuffer \<Rightarrow> byte list" where
  "rb_contents s = ring (buf s) (nat (rpos s)) (nat (rb_Length s))"

text \<open>The same state seen as an array, a start and a length.\<close>

definition rb_view :: "ringbuffer \<Rightarrow> nat \<Rightarrow> nat \<Rightarrow> bool" where
  "rb_view s R n \<longleftrightarrow> size_of s = int (length (buf s)) \<and> rpos s = int R \<and> R < length (buf s) \<and>
     n \<le> length (buf s) \<and> wpos s = int ((R + n) mod length (buf s)) \<and> isFull s = (n = length (buf s))"

lemma view_wf: "rb_view s R n \<Longrightarrow> rb_wf s"
proof -
  assume v: "rb_view s R n"
  then have "(R + n) mod length (buf s) < length (buf s)"
    by (intro mod_less_divisor) (auto simp: rb_view_def)
  with v show ?thesis by (auto simp: rb_view_def rb_wf_def)
qed

lemma wf_view:
  assumes "rb_wf s"
  obtains R n where "rb_view s R n"
proof -
  let ?N = "length (buf s)"
  define R W where "R = nat (rpos s)" and "W = nat (wpos s)"
  with assms have RW: "rpos s = int R" "wpos s = int W" "R < ?N" "W < ?N"
    by (auto simp: rb_wf_def)
  define n where "n = (if W = R then if isFull s then ?N else 0 else if R < W then W - R else ?N - R + W)"
  have "n \<le> ?N" "(R + n) mod ?N = W" "isFull s = (n = ?N)"
    using assms RW by (auto simp: n_def rb_wf_def mod_if split: if_splits)
  with assms RW have "rb_view s R n" by (simp add: rb_view_def rb_wf_def)
  then show ?thesis by (rule that)
qed

lemma view_mod: "rb_view s R n \<Longrightarrow>
    (R + n) mod length (buf s) = (if R + n < length (buf s) then R + n else R + n - length (buf s))"
  using mod_below [of R "length (buf s)" n] by (simp add: rb_view_def)

lemma view_Length: "rb_view s R n \<Longrightarrow> rb_Length s = int n"
  using view_mod [of s R n] by (auto simp: rb_view_def rb_Length_def split: if_splits)

lemma view_Free: "rb_view s R n \<Longrightarrow> rb_Free s = int (length (buf s)) - int n"
  using view_mod [of s R n] by (auto simp: rb_view_def rb_Free_def split: if_splits)

lemma view_contents: "rb_view s R n \<Longrightarrow> rb_contents s = ring (buf s) R n"
  using view_Length [of s R n] by (simp add: rb_contents_def rb_view_def)

lemma view_length_contents: "rb_view s R n \<Longrightarrow> length (rb_contents s) = n"
  by (simp add: view_contents) (simp add: rb_view_def)

lemma view_IsEmpty: "rb_view s R n \<Longrightarrow> rb_IsEmpty s \<longleftrightarrow> n = 0"
  using view_mod [of s R n] by (auto simp: rb_view_def rb_IsEmpty_def split: if_splits)

lemma view_readErr:
  "rb_view s R n \<Longrightarrow> readErr s =
     (case err s of None \<Rightarrow> None | Some e \<Rightarrow> if e = EOF then (if n = 0 then Some EOF else None) else Some e)"
  using view_IsEmpty [of s R n] by (auto simp: readErr_def rb_IsEmpty_def split: option.splits)

section \<open>Reading\<close>

lemma slice_int:
  "a = int x \<Longrightarrow> b = int y \<Longrightarrow> x \<le> y \<Longrightarrow> y \<le> length xs \<Longrightarrow>
   go_slice xs a b = Some (take (y - x) (drop x xs))"
  by (simp add: slice_ok)

lemma copy_into_int:
  "a = int x \<Longrightarrow> x + length src \<le> length dst \<Longrightarrow>
   copy_into dst a src = Some (take x dst @ src @ drop (x + length src) dst)"
  by (simp add: copy_into_ok)

lemma mod_int: "b = int N \<Longrightarrow> 0 < N \<Longrightarrow> go_mod (int x) b = Some (int (x mod N))"
  by (simp add: go_mod_def zmod_int)

lemma rb_read_empty:
  "rb_view s R 0 \<Longrightarrow> rb_read p s = Some ((p, 0, Some ErrIsEmpty), s)"
  by (auto simp: rb_read_def rb_view_def)

text \<open>What a successful read leaves behind: \<open>k\<close> bytes fewer.\<close>

definition advance :: "nat \<Rightarrow> ringbuffer \<Rightarrow> ringbuffer" where
  "advance k s = s\<lparr>rpos := int ((nat (rpos s) + k) mod length (buf s)), isFull := False\<rparr>"

lemma advance_simps [simp]:
  "buf (advance k s) = buf s" "size_of (advance k s) = size_of s" "wpos (advance k s) = wpos s"
  "err (advance k s) = err s" "block (advance k s) = block s" "wg (advance k s) = wg s"
  "readCond (advance k s) = readCond s" "writeCond (advance k s) = writeCond s"
  "orphaned (advance k s) = orphaned s"
  by (simp_all add: advance_def)

lemma view_advance:
  assumes v: "rb_view s R n" and k: "0 < k" "k \<le> n"
  shows "rb_view (advance k s) ((R + k) mod length (buf s)) (n - k)"
    and "rb_contents (advance k s) = drop k (rb_contents s)"
proof -
  let ?N = "length (buf s)"
  have N: "0 < ?N" "R < ?N" "n \<le> ?N" using v by (auto simp: rb_view_def)
  have "R + n = R + k + (n - k)" using k by simp
  then have "((R + k) mod ?N + (n - k)) mod ?N = (R + n) mod ?N" by (simp only: mod_add_left_eq)
  with v k N show view: "rb_view (advance k s) ((R + k) mod ?N) (n - k)"
    by (auto simp: rb_view_def advance_def)
  show "rb_contents (advance k s) = drop k (rb_contents s)"
    using ring_drop [OF N(2,3) k(2)] by (simp add: view_contents [OF view] view_contents [OF v])
qed

lemma rb_copy_out_ok:
  assumes v: "rb_view s R n" and k: "k \<le> n" "k \<le> length p"
  shows "rb_copy_out s (int k) p = Some (ring (buf s) R k @ drop k p)"
proof -
  let ?N = "length (buf s)"
  have N: "R < ?N" "n \<le> ?N" "size_of s = int ?N" "rpos s = int R"
    using v by (auto simp: rb_view_def)
  show ?thesis
  proof (cases "R + k \<le> ?N")
    case True
    have "go_slice (buf s) (int R) (int R + int k) = Some (ring (buf s) R k)"
      using True by (subst slice_int [of _ R _ "R + k"]) (auto simp: ring_straight)
    moreover have "length (ring (buf s) R k) = k" using N k by simp
    ultimately show ?thesis using True N k by (simp add: rb_copy_out_def go_copy_short)
  next
    case far: False
    have c: "?N - R \<le> k" "k - (?N - R) \<le> ?N" using far N k by auto
    have d1: "go_slice (buf s) (int R) (int ?N) = Some (drop R (buf s))"
      using N by (subst slice_int [of _ R _ ?N]) auto
    have d2: "go_slice (buf s) 0 (int k - (int ?N - int R)) = Some (take (k - (?N - R)) (buf s))"
      using N c by (subst slice_int [of _ 0 _ "k - (?N - R)"]) (auto simp: of_nat_diff)
    have p1: "go_copy p (drop R (buf s)) = drop R (buf s) @ drop (?N - R) p"
      using c k N by (simp add: go_copy_short)
    have "copy_into (drop R (buf s) @ drop (?N - R) p) (int ?N - int R) (take (k - (?N - R)) (buf s))
        = Some (drop R (buf s) @ take (k - (?N - R)) (buf s) @ drop k p)"
      using N c k by (subst copy_into_int [of _ "?N - R"]) (auto simp: of_nat_diff)
    moreover have "ring (buf s) R k = drop R (buf s) @ take (k - (?N - R)) (buf s)"
      using far N k by (simp add: ring_wrapped add.commute)
    ultimately show ?thesis using far N d1 d2 p1 by (simp add: rb_copy_out_def Let_def)
  qed
qed

lemma rb_read_ok:
  assumes v: "rb_view s R n" and n: "0 < n" and p: "p \<noteq> []"
  defines "k \<equiv> min n (length p)"
  shows "rb_read p s =
    Some ((take k (rb_contents s) @ drop k p, int k,
           if R + n < length (buf s) then None else readErr (advance k s)), advance k s)"
proof -
  let ?N = "length (buf s)"
  have N: "0 < ?N" "R < ?N" "n \<le> ?N" "size_of s = int ?N" "rpos s = int R"
    using v by (auto simp: rb_view_def)
  have w: "wpos s = (if R + n < ?N then int (R + n) else int (R + n - ?N))"
    using v view_mod [OF v] by (simp add: rb_view_def)
  have k: "k \<le> n" "k \<le> length p" "0 < k" using n p by (auto simp: k_def)
  have clamp: "(if int n > int (length p) then int (length p) else int n) = int k"
    by (simp add: k_def)
  have rd: "take k (rb_contents s) = ring (buf s) R k"
    using k(1) by (simp add: view_contents [OF v] ring_take)
  have md: "go_mod (rpos s + int k) (size_of s) = Some (int ((R + k) mod ?N))"
    using N mod_int [of "size_of s" ?N "R + k"] by simp
  have adv: "s\<lparr>rpos := int ((R + k) mod ?N), isFull := False\<rparr> = advance k s"
    using N by (simp add: advance_def)
  show ?thesis
  proof (cases "R + n < ?N")
    case True
    have full: "\<not> isFull s" using v True by (simp add: rb_view_def)
    have sl: "go_slice (buf s) (rpos s) (rpos s + int k) = Some (ring (buf s) R k)"
      using True k N by (subst slice_int [of _ R _ "R + k"]) (auto simp: ring_straight)
    have copy: "go_copy p (ring (buf s) R k) = ring (buf s) R k @ drop k p"
      using N k by (simp add: go_copy_short)
    have same: "s\<lparr>rpos := x\<rparr> = s\<lparr>rpos := x, isFull := False\<rparr>" for x using full by simp
    have pos: "wpos s > rpos s" "wpos s - rpos s = int n" using True w n N by simp_all
    show ?thesis
      using True pos sl copy md adv clamp rd same [of "int ((R + k) mod ?N)"]
      unfolding rb_read_def pos(2) Let_def clamp by simp
  next
    case False
    have ne: "(wpos s = rpos s \<and> \<not> isFull s) = False" "(wpos s > rpos s) = False"
      using v False w N n by (auto simp: rb_view_def)
    have cnt: "size_of s - rpos s + wpos s = int n" using False w N by (simp add: of_nat_diff)
    show ?thesis
      using False md adv rd rb_copy_out_ok [OF v k(1,2)]
      unfolding rb_read_def ne cnt Let_def clamp by simp
  qed
qed

section \<open>Writing\<close>

text \<open>What a write of \<open>q\<close>, known to fit, leaves behind.\<close>

definition append_data :: "byte list \<Rightarrow> ringbuffer \<Rightarrow> ringbuffer" where
  "append_data q s =
     s\<lparr>buf := ring_put (buf s) (nat (wpos s)) q,
       wpos := int ((nat (wpos s) + length q) mod length (buf s)),
       isFull := (int (length q) = rb_Free s)\<rparr>"

lemma append_data_simps [simp]:
  "size_of (append_data q s) = size_of s" "rpos (append_data q s) = rpos s"
  "err (append_data q s) = err s" "block (append_data q s) = block s" "wg (append_data q s) = wg s"
  "readCond (append_data q s) = readCond s" "writeCond (append_data q s) = writeCond s"
  "orphaned (append_data q s) = orphaned s"
  by (simp_all add: append_data_def)

lemma view_wpos: "rb_view s R n \<Longrightarrow> nat (wpos s) = (R + n) mod length (buf s)"
  by (simp add: rb_view_def)

lemma view_wpos_less: "rb_view s R n \<Longrightarrow> nat (wpos s) < length (buf s)"
  using view_wf [of s R n] by (auto simp: rb_wf_def)

lemma view_append:
  assumes v: "rb_view s R n" and q: "n + length q \<le> length (buf s)"
  shows "rb_view (append_data q s) R (n + length q)"
    and "rb_contents (append_data q s) = rb_contents s @ q"
proof -
  let ?N = "length (buf s)"
  have N: "R < ?N" "n \<le> ?N" using v by (auto simp: rb_view_def)
  then have W: "(R + n) mod ?N < ?N" by (intro mod_less_divisor) auto
  have len: "length (buf (append_data q s)) = ?N"
    using W q by (simp add: append_data_def view_wpos [OF v])
  have "((R + n) mod ?N + length q) mod ?N = (R + (n + length q)) mod ?N"
    by (simp add: mod_add_left_eq add.assoc)
  moreover have "(int (length q) = rb_Free s) = (n + length q = ?N)"
    using view_Free [OF v] N(2) by auto
  ultimately show view: "rb_view (append_data q s) R (n + length q)"
    using v q N len
    by (simp add: rb_view_def) (simp add: append_data_def view_wpos [OF v])
  show "rb_contents (append_data q s) = rb_contents s @ q"
    using ring_append [OF N(1) q]
    by (simp add: view_contents [OF view] view_contents [OF v])
      (simp add: append_data_def view_wpos [OF v])
qed

lemma rb_wrap_simps [simp]:
  "buf (rb_wrap s) = buf s" "size_of (rb_wrap s) = size_of s" "rpos (rb_wrap s) = rpos s"
  "err (rb_wrap s) = err s" "block (rb_wrap s) = block s"
  by (simp_all add: rb_wrap_def Let_def)

lemma rb_wrap_append:
  assumes v: "rb_view s R n" and q: "n + length q \<le> length (buf s)" "q \<noteq> []"
    and b: "b = ring_put (buf s) (nat (wpos s)) q"
    and w: "w = int (nat (wpos s) + length q) \<or> w = int ((nat (wpos s) + length q) mod length (buf s))"
      "w \<le> int (length (buf s))"
  shows "rb_wrap (s\<lparr>buf := b, wpos := w\<rparr>) = append_data q s"
proof -
  let ?N = "length (buf s)" and ?W = "nat (wpos s)"
  have N: "size_of s = int ?N" "rpos s = int R" "R < ?N" using v by (auto simp: rb_view_def)
  have full: "\<not> isFull s" using v q by (simp add: rb_view_def) (cases q; simp)
  have small: "?W < ?N" using v by (rule view_wpos_less)
  have w': "(if w = int ?N then 0 else w) = int ((?W + length q) mod ?N)"
    using w(1)
  proof
    assume "w = int (?W + length q)"
    with w(2) small show ?thesis by (cases "?W + length q = ?N") auto
  next
    have "(?W + length q) mod ?N < ?N" using small by (intro mod_less_divisor) auto
    moreover assume "w = int ((?W + length q) mod ?N)"
    ultimately show ?thesis by simp
  qed
  have "((R + n) mod ?N + length q) mod ?N = (R + (n + length q)) mod ?N"
    by (simp add: mod_add_left_eq add.assoc)
  then have pos: "(?W + length q) mod ?N = (R + (n + length q)) mod ?N"
    by (simp add: view_wpos [OF v])
  have meet: "(int ((?W + length q) mod ?N) = int R) = (int (length q) = rb_Free s)"
    using view_Free [OF v] q N(3) mod_below [of R ?N "n + length q"]
    unfolding pos by (cases q) (auto split: if_splits)
  show ?thesis
    using w' meet N full b by (auto simp: rb_wrap_def Let_def append_data_def split: if_splits)
qed

lemma rb_copy_in_ok:
  assumes v: "rb_view s R n" and q: "n + length q \<le> length (buf s)" "q \<noteq> []"
  shows "\<exists>s'. rb_copy_in q s = Some s' \<and> rb_wrap s' = append_data q s"
proof -
  let ?N = "length (buf s)" and ?W = "nat (wpos s)" and ?m = "length q"
  have N: "size_of s = int ?N" "rpos s = int R" "R < ?N" "n \<le> ?N" "wpos s = int ?W"
    using v by (auto simp: rb_view_def)
  have W: "?W = (if R + n < ?N then R + n else R + n - ?N)"
    using view_mod [OF v] by (simp add: view_wpos [OF v])
  note wrap = rb_wrap_append [OF v q]
  have straight: "copy_into (buf s) (wpos s) q = Some (ring_put (buf s) ?W q)" if "?W + ?m \<le> ?N"
    using that N(5) by (subst copy_into_int [of _ ?W]) (auto simp: ring_put_def)
  show ?thesis
  proof (cases "?W + ?m \<le> ?N")
    case True
    have "rb_copy_in q s = Some (s\<lparr>buf := ring_put (buf s) ?W q, wpos := int (?W + ?m)\<rparr>)"
      using straight [OF True] True N
      by (auto simp: rb_copy_in_def Let_def of_nat_diff)
    with wrap [OF refl, of "int (?W + ?m)"] True show ?thesis by auto
  next
    case False
    then have Wn: "?W = R + n" and c: "?N - ?W \<le> ?m" "?W \<le> ?N" "?m - (?N - ?W) \<le> ?W"
      using W q(1) N by (auto split: if_splits)
    let ?c = "?N - ?W"
    have c1: "size_of s - wpos s = int ?c" using N c by (simp add: of_nat_diff)
    have p1: "go_slice q 0 (int ?c) = Some (take ?c q)"
      using c by (subst slice_int [of _ 0 _ ?c]) auto
    have p2: "go_slice q (int ?c) (int ?m) = Some (drop ?c q)"
      using c by (subst slice_int [of _ ?c _ ?m]) auto
    have b1: "copy_into (buf s) (wpos s) (take ?c q) = Some (take ?W (buf s) @ take ?c q)"
      using c N(5) by (subst copy_into_int [of _ ?W]) auto
    have b2: "copy_into (take ?W (buf s) @ take ?c q) 0 (drop ?c q) = Some (ring_put (buf s) ?W q)"
      using c False
      by (subst copy_into_int [of _ 0]) (auto simp: ring_put_def Let_def drop_take)
    have "wpos s \<ge> rpos s" using N Wn by simp
    moreover have "\<not> int ?c \<ge> int ?m" using False c(2) by linarith
    ultimately have "rb_copy_in q s = Some (s\<lparr>buf := ring_put (buf s) ?W q, wpos := int ?m - int ?c\<rparr>)"
      using p1 p2 b1 b2 unfolding rb_copy_in_def Let_def c1 by simp
    moreover have "int ?m - int ?c = int ((?W + ?m) mod ?N)"
    proof -
      have "?W < ?N" using v by (rule view_wpos_less)
      then have "(?W + ?m) mod ?N = ?W + ?m - ?N" using False q(1) mod_below [of ?W ?N ?m] by simp
      with False c show ?thesis by linarith
    qed
    moreover have "(?W + ?m) mod ?N < ?N" using N by (intro mod_less_divisor) auto
    ultimately show ?thesis using wrap [OF refl, of "int ((?W + ?m) mod ?N)"] by auto
  qed
qed

lemma rb_write_full:
  "rb_view s R n \<Longrightarrow> n = length (buf s) \<Longrightarrow> rb_write p s = Some ((0, Some ErrIsFull), s)"
  by (simp add: rb_write_def rb_view_def)

lemma rb_write_ok:
  assumes v: "rb_view s R n" and n: "n < length (buf s)" and p: "p \<noteq> []"
  defines "q \<equiv> take (length (buf s) - n) p"
  shows "rb_write p s =
    Some ((int (length q), if length p > length (buf s) - n then Some ErrTooMuchDataToWrite else None),
          append_data q s)"
proof -
  let ?N = "length (buf s)"
  have N: "size_of s = int ?N" "rpos s = int R" "R < ?N" and full: "\<not> isFull s"
    using v n by (auto simp: rb_view_def)
  have w: "wpos s = (if R + n < ?N then int (R + n) else int (R + n - ?N))"
    using v view_mod [OF v] by (simp add: rb_view_def)
  have avail: "(if wpos s \<ge> rpos s then size_of s - wpos s + rpos s else rpos s - wpos s) = int (?N - n)"
    using w N n by (auto simp: of_nat_diff)
  have cut: "(if int (length p) > int (?N - n)
       then do { q \<leftarrow> go_slice p 0 (int (?N - n)); Some (q, Some ErrTooMuchDataToWrite) }
       else Some (p, None))
     = Some (q, if length p > ?N - n then Some ErrTooMuchDataToWrite else None)"
    by (auto simp: q_def slice_int [of _ 0 _ "?N - n"])
  have q: "n + length q \<le> ?N" "q \<noteq> []" using n p by (auto simp: q_def)
  from rb_copy_in_ok [OF v q] obtain s' where
    "rb_copy_in q s = Some s'" "rb_wrap s' = append_data q s" by blast
  then show ?thesis
    using full unfolding rb_write_def Let_def avail cut by simp
qed

lemma rb_writeByte_full:
  "rb_view s R n \<Longrightarrow> n = length (buf s) \<Longrightarrow> rb_writeByte c s = Some (Some ErrIsFull, s)"
  by (auto simp: rb_writeByte_def rb_view_def)

lemma rb_writeByte_ok:
  assumes v: "rb_view s R n" and n: "n < length (buf s)"
  shows "rb_writeByte c s = Some (None, append_data [c] s)"
proof -
  let ?N = "length (buf s)" and ?W = "nat (wpos s)"
  have full: "\<not> isFull s" using v n by (auto simp: rb_view_def)
  have W: "?W < ?N" using v by (rule view_wpos_less)
  have w: "wpos s = int ?W" using v by (simp add: rb_view_def)
  have put: "(buf s)[?W := c] = ring_put (buf s) ?W [c]"
    using W by (simp add: ring_put_def upd_conv_take_nth_drop)
  have "rb_wrap (s\<lparr>buf := ring_put (buf s) ?W [c], wpos := wpos s + 1\<rparr>) = append_data [c] s"
    using W w n by (intro rb_wrap_append [OF v]) auto
  moreover have "store_at (buf s) (wpos s) c = Some ((buf s)[?W := c])"
    using view_wf [OF v] by (simp add: store_at_def rb_wf_def)
  ultimately show ?thesis using full by (simp add: rb_writeByte_def put)
qed

lemma rb_takeByte_ok:
  assumes v: "rb_view s R n" and n: "0 < n"
  shows "rb_takeByte s = Some ((hd (rb_contents s), readErr (advance 1 s)), advance 1 s)"
proof -
  let ?N = "length (buf s)"
  have N: "size_of s = int ?N" "rpos s = int R" "R < ?N" "n \<le> ?N" using v by (auto simp: rb_view_def)
  have "hd (rb_contents s) = rb_contents s ! 0"
    using n view_length_contents [OF v] by (cases "rb_contents s") auto
  also have "\<dots> = buf s ! R" using N n by (simp add: view_contents [OF v] ring_nth)
  finally have h: "index_at (buf s) (rpos s) = Some (hd (rb_contents s))"
    using N by (simp add: index_at_def)
  have "(if rpos s + 1 = size_of s then 0 else rpos s + 1) = int ((R + 1) mod ?N)"
    using N mod_below [of R ?N 1] by auto
  then have "(let s = s\<lparr>rpos := rpos s + 1\<rparr>; s = (if rpos s = size_of s then s\<lparr>rpos := 0\<rparr> else s)
       in s\<lparr>isFull := False\<rparr>) = advance 1 s"
    using N by (auto simp: advance_def Let_def)
  then show ?thesis by (simp add: rb_takeByte_def h Let_def)
qed

section \<open>Observing\<close>

lemma getDst_length: "0 \<le> n \<Longrightarrow> \<exists>b. getDst dst n = Some b \<and> length b = nat n"
  by (auto simp: getDst_def go_slice_def)

lemma rb_Bytes_ok:
  assumes wf: "rb_wf s"
  shows "rb_Bytes dst s = Some (rb_contents s)"
proof -
  obtain R n where v: "rb_view s R n" using wf by (rule wf_view)
  let ?N = "length (buf s)"
  have N: "size_of s = int ?N" "rpos s = int R" "R < ?N" "n \<le> ?N" using v by (auto simp: rb_view_def)
  have w: "wpos s = (if R + n < ?N then int (R + n) else int (R + n - ?N))"
    using v view_mod [OF v] by (simp add: rb_view_def)
  obtain b where b: "getDst dst (int n) = Some b" "length b = n"
    using getDst_length [of "int n" dst] by auto
  have c: "rb_contents s = ring (buf s) R n" using v by (rule view_contents)
  have d1: "go_slice (buf s) (int R) (int ?N) = Some (drop R (buf s))"
    using N by (subst slice_int [of _ R _ ?N]) auto
  show ?thesis
  proof (cases "n = 0")
    case True
    then have "wpos s = rpos s" "\<not> isFull s" using v by (auto simp: rb_view_def)
    with True c show ?thesis by (simp add: rb_Bytes_def)
  next
    case n: False
    show ?thesis
    proof (cases "R + n < ?N")
      case True
      have "go_slice (buf s) (int R) (int R + int n) = Some (ring (buf s) R n)"
        using True by (subst slice_int [of _ R _ "R + n"]) (auto simp: ring_straight)
      with True w n N b c show ?thesis by (simp add: rb_Bytes_def)
    next
      case False
      define j where "j = R + n - ?N"
      have j: "wpos s = int j" "j \<le> R" "n - (?N - R) = j" "?N - R \<le> n"
        using False w N by (auto simp: j_def)
      have d2: "go_slice (buf s) 0 (int j) = Some (take j (buf s))"
        using j N by (subst slice_int [of _ 0 _ j]) auto
      have g: "go_copy b (drop R (buf s)) = drop R (buf s) @ drop (?N - R) b"
        using b j by (simp add: go_copy_short)
      have ring: "ring (buf s) R n = drop R (buf s) @ take j (buf s)"
        using False N by (simp add: ring_wrapped j_def)
      have into: "copy_into (drop R (buf s) @ drop (?N - R) b) (int ?N - int R) (take j (buf s))
          = Some (ring (buf s) R n)"
        using N j b unfolding ring
        by (subst copy_into_int [of _ "?N - R"]) (auto simp: of_nat_diff)
      show ?thesis
      proof (cases "n = ?N")
        case True
        with v N have "isFull s" "j = R" by (auto simp: rb_view_def j_def)
        with True j N b d1 d2 g into c show ?thesis by (simp add: rb_Bytes_def)
      next
        case notfull: False
        have cnt: "int ?N - int R + int j = int n" using False N by (simp add: j_def of_nat_diff)
        have "j < R" using notfull N j False by (simp add: j_def)
        moreover have "int n - (int ?N - int R) = int j" using cnt by simp
        then have d3: "go_slice (buf s) 0 (int n - (int ?N - int R)) = Some (take j (buf s))"
          using d2 by (simp only:)
        ultimately show ?thesis
          using j N b d1 d3 g into c False cnt by (simp add: rb_Bytes_def Let_def)
      qed
    qed
  qed
qed

end
