(* ===== verification/RingBufferConc.thy ===== *)
theory RingBufferConc
  imports RingBufferCorrect
begin

text \<open>
  The blocking methods of \<open>pkgs/ringbuffer/ringbuffer.go\<close> as a machine of goroutines. A
  goroutine holds the mutex from one point where it takes it to the next point where it
  releases it (an unlock, or \<open>Wait\<close> on a condition variable); such a section is one step
  (\<open>rb_section\<close>), and the steps of different goroutines interleave freely. Each \<open>pc\<close> is a
  point outside the mutex; what is still to be done with the data is in its arguments. A
  goroutine in the set of a condition variable cannot step until a broadcast removes it.
\<close>

section \<open>Calls, results and program points\<close>

datatype rb_call =
    CRead "byte list" | CReadByte | CTryRead "byte list"
  | CWrite "byte list" | CWriteByte byte | CTryWrite "byte list" | CTryWriteByte byte
  | CWriteString "byte list"
  | CCloseWithError "rb_error option" | CCloseWriter | CFlush | CClose | CReset

datatype rb_ret =
    RRead "byte list" int "rb_error option"
  | RByte byte "rb_error option"
  | RWrite int "rb_error option"
  | RErr "rb_error option"
  | RUnit

datatype rb_pc =
    Start rb_call
  | ReadWait "byte list"
  | ReadByteWait
  | WriteWait "byte list" int
  | WriteByteWait byte
  | FlushNotEmpty
  | FlushLock
  | FlushWait
  | FlushEnd
  | ResetWait
  | ResetLock
  | Done rb_ret

text \<open>What a section did to the data, for the statements about whole runs.\<close>

datatype rb_event = Quiet | Put "byte list" | Took "byte list" | Cleared

type_synonym outcome = "rb_pc \<times> ringbuffer \<times> rb_event"

definition wait_read :: "nat \<Rightarrow> ringbuffer \<Rightarrow> ringbuffer" where
  "wait_read t s = s\<lparr>readCond := insert t (readCond s)\<rparr>"

definition wait_write :: "nat \<Rightarrow> ringbuffer \<Rightarrow> ringbuffer" where
  "wait_write t s = s\<lparr>writeCond := insert t (writeCond s)\<rparr>"

definition finish :: "rb_ret \<Rightarrow> ringbuffer \<Rightarrow> outcome option" where
  "finish r s = Some (Done r, s, Quiet)"

section \<open>The sections of the blocking methods\<close>

text \<open>\<open>Read\<close>: the end of the call, with the deferred \<open>wg.Done\<close>.\<close>

definition read_end :: "byte list \<Rightarrow> int \<Rightarrow> rb_error option \<Rightarrow> ringbuffer \<Rightarrow> outcome option" where
  "read_end p n e s =
     (let s = (if block s \<and> n > 0 then broadcast_read s else s)
      in Some (Done (RRead p n e), s\<lparr>wg := wg s - 1\<rparr>, Took (take (nat n) p)))"

definition read_try :: "nat \<Rightarrow> byte list \<Rightarrow> ringbuffer \<Rightarrow> outcome option" where
  "read_try t p s = do {
     ((p, n, e), s) \<leftarrow> rb_read p s;
     if e = Some ErrIsEmpty \<and> block s then Some (ReadWait p, wait_write t s, Quiet)
     else read_end p n e s
   }"

definition Read_start :: "nat \<Rightarrow> byte list \<Rightarrow> ringbuffer \<Rightarrow> outcome option" where
  "Read_start t p s =
     (if p = [] then finish (RRead p 0 (readErr s)) s
      else case readErr s of
        Some e \<Rightarrow> finish (RRead p 0 (Some e)) s
      | None \<Rightarrow> read_try t p (s\<lparr>wg := wg s + 1\<rparr>))"

definition Read_resume :: "nat \<Rightarrow> byte list \<Rightarrow> ringbuffer \<Rightarrow> outcome option" where
  "Read_resume t p s =
     (case readErr s of Some e \<Rightarrow> read_end p 0 (Some e) s | None \<Rightarrow> read_try t p s)"

definition TryRead_section :: "byte list \<Rightarrow> ringbuffer \<Rightarrow> outcome option" where
  "TryRead_section p s = do {
     ((p, n, e), s) \<leftarrow> TryRead False p s;
     Some (Done (RRead p n e), s, Took (take (nat n) p))
   }"

text \<open>\<open>ReadByte\<close>: the loop head, entered from the start and after each wake-up.\<close>

definition ReadByte_section :: "nat \<Rightarrow> ringbuffer \<Rightarrow> outcome option" where
  "ReadByte_section t s =
     (case readErr s of
        Some e \<Rightarrow> finish (RByte 0 (Some e)) s
      | None \<Rightarrow>
        if wpos s = rpos s \<and> \<not> isFull s then
          (if block s then Some (ReadByteWait, wait_write t s, Quiet)
           else finish (RByte 0 (Some ErrIsEmpty)) s)
        else do {
          ((b, e), s) \<leftarrow> rb_takeByte s;
          Some (Done (RByte b e), s, Took [b])
        })"

text \<open>\<open>Write\<close>: the code after the loop, and one round of the loop.\<close>

definition write_end ::
  "int \<Rightarrow> rb_error option \<Rightarrow> byte list \<Rightarrow> ringbuffer \<Rightarrow> outcome option" where
  "write_end wrote e new s =
     (let s = (if block s \<and> wrote > 0 then broadcast_write s else s);
          (e, s) = setErr e s
      in Some (Done (RWrite wrote e), s, Put new))"

definition write_round :: "nat \<Rightarrow> byte list \<Rightarrow> int \<Rightarrow> ringbuffer \<Rightarrow> outcome option" where
  "write_round t p wrote s =
     (if p = [] then write_end wrote None [] s
      else do {
        ((n, e), s) \<leftarrow> rb_write p s;
        let wrote = wrote + n;
        let new = take (nat n) p;
        if \<not> block s \<or> e = None then write_end wrote e new s
        else do {
          let (e, s) = setErr e s;
          if block s \<and> (e = Some ErrIsFull \<or> e = Some ErrTooMuchDataToWrite) then do {
            let s = wait_read t (broadcast_write s);
            rest \<leftarrow> go_slice p n (int (length p));
            Some (WriteWait rest wrote, s, Put new)
          }
          else write_end wrote e new s
        }
      })"

definition Write_start :: "nat \<Rightarrow> byte list \<Rightarrow> ringbuffer \<Rightarrow> outcome option" where
  "Write_start t p s =
     (if p = [] then (let (e, s) = setErr None s in finish (RWrite 0 e) s)
      else case writeErr s of
        Some e \<Rightarrow> finish (RWrite 0 (Some e)) s
      | None \<Rightarrow> write_round t p 0 s)"

definition TryWrite_section :: "byte list \<Rightarrow> ringbuffer \<Rightarrow> outcome option" where
  "TryWrite_section p s = do {
     ((n, e), s) \<leftarrow> TryWrite False p s;
     Some (Done (RWrite n e), s, Put (take (nat n) p))
   }"

text \<open>\<open>WriteByte\<close>: the loop condition, and the rounds before and after a wait.\<close>

definition writeByte_check ::
  "nat \<Rightarrow> byte \<Rightarrow> rb_error option \<Rightarrow> byte list \<Rightarrow> ringbuffer \<Rightarrow> outcome option" where
  "writeByte_check t c e new s =
     (if e = Some ErrIsFull \<and> block s then Some (WriteByteWait c, wait_read t s, Put new)
      else
        (let s = (if block s \<and> e = None then broadcast_write s else s)
         in Some (Done (RErr e), s, Put new)))"

definition byte_put :: "rb_error option \<Rightarrow> byte \<Rightarrow> byte list" where
  "byte_put e c = (if e = None then [c] else [])"

definition WriteByte_start :: "nat \<Rightarrow> byte \<Rightarrow> ringbuffer \<Rightarrow> outcome option" where
  "WriteByte_start t c s =
     (case writeErr s of
        Some e \<Rightarrow> finish (RErr (Some e)) s
      | None \<Rightarrow> do {
          (e, s) \<leftarrow> rb_writeByte c s;
          writeByte_check t c e (byte_put e c) s
        })"

definition WriteByte_resume :: "nat \<Rightarrow> byte \<Rightarrow> ringbuffer \<Rightarrow> outcome option" where
  "WriteByte_resume t c s = do {
     (e, s) \<leftarrow> rb_writeByte c s;
     let new = byte_put e c;
     let (e, s) = setErr e s;
     writeByte_check t c e new s
   }"

definition TryWriteByte_section :: "byte \<Rightarrow> ringbuffer \<Rightarrow> outcome option" where
  "TryWriteByte_section c s = do {
     (e, s) \<leftarrow> TryWriteByte False c s;
     Some (Done (RErr e), s, Put (byte_put e c))
   }"

text \<open>\<open>WriteString\<close> writes the string's own bytes, reinterpreted as a slice.\<close>

definition WriteString_start :: "nat \<Rightarrow> byte list \<Rightarrow> ringbuffer \<Rightarrow> outcome option" where
  "WriteString_start t str s = Write_start t str s"

text \<open>
  \<open>Flush\<close> takes the mutex three times: for \<open>IsEmpty\<close>, then for \<open>Wait\<close>, and for the error at
  the end; between the first two it does not hold it.
\<close>

definition Flush_start :: "ringbuffer \<Rightarrow> outcome option" where
  "Flush_start s =
     Some (if rb_IsEmpty s then FlushEnd else if \<not> block s then FlushNotEmpty else FlushLock, s, Quiet)"

definition Flush_notEmpty :: "ringbuffer \<Rightarrow> outcome option" where
  "Flush_notEmpty s = (let (e, s) = setErr (Some ErrIsNotEmpty) s in finish (RErr e) s)"

definition Flush_lock :: "nat \<Rightarrow> ringbuffer \<Rightarrow> outcome option" where
  "Flush_lock t s = Some (FlushWait, wait_read t s, Quiet)"

definition hide_EOF :: "rb_error option \<Rightarrow> rb_error option" where
  "hide_EOF e = (if e = Some EOF then None else e)"

definition Flush_resume :: "ringbuffer \<Rightarrow> outcome option" where
  "Flush_resume s =
     (case readErr s of
        Some e \<Rightarrow> finish (RErr (hide_EOF (Some e))) s
      | None \<Rightarrow> Some (Start CFlush, s, Quiet))"

definition Flush_end :: "ringbuffer \<Rightarrow> outcome option" where
  "Flush_end s = finish (RErr (hide_EOF (readErr s))) s"

text \<open>\<open>Close\<close> of the \<open>WriteCloser\<close>: close the writer, then flush.\<close>

definition Close_start :: "ringbuffer \<Rightarrow> outcome option" where
  "Close_start s = Some (Start CFlush, CloseWriter s, Quiet)"

text \<open>\<open>Reset\<close>: mark, wake everybody, wait for the readers, take the mutex again, clear.\<close>

definition Reset_start :: "ringbuffer \<Rightarrow> outcome option" where
  "Reset_start s =
     (let (_, s) = setErr (Some ErrResetCalled) s;
          s = (if block s then broadcast_write (broadcast_read s) else s)
      in Some (ResetWait, s, Quiet))"

definition Reset_clear :: "ringbuffer \<Rightarrow> outcome option" where
  "Reset_clear s =
     Some (Done RUnit, s\<lparr>rpos := 0, wpos := 0, err := None, isFull := False\<rparr>, Cleared)"

section \<open>One section of a goroutine\<close>

fun rb_section :: "nat \<Rightarrow> rb_pc \<Rightarrow> ringbuffer \<Rightarrow> outcome option" where
  "rb_section t (Start (CRead p)) s = Read_start t p s"
| "rb_section t (Start CReadByte) s = ReadByte_section t s"
| "rb_section t (Start (CTryRead p)) s = TryRead_section p s"
| "rb_section t (Start (CWrite p)) s = Write_start t p s"
| "rb_section t (Start (CWriteByte c)) s = WriteByte_start t c s"
| "rb_section t (Start (CTryWrite p)) s = TryWrite_section p s"
| "rb_section t (Start (CTryWriteByte c)) s = TryWriteByte_section c s"
| "rb_section t (Start (CWriteString p)) s = WriteString_start t p s"
| "rb_section t (Start (CCloseWithError e)) s = finish RUnit (CloseWithError e s)"
| "rb_section t (Start CCloseWriter) s = finish RUnit (CloseWriter s)"
| "rb_section t (Start CFlush) s = Flush_start s"
| "rb_section t (Start CClose) s = Close_start s"
| "rb_section t (Start CReset) s = Reset_start s"
| "rb_section t (ReadWait p) s = Read_resume t p s"
| "rb_section t ReadByteWait s = ReadByte_section t s"
| "rb_section t (WriteWait p wrote) s = write_round t p wrote s"
| "rb_section t (WriteByteWait c) s = WriteByte_resume t c s"
| "rb_section t FlushNotEmpty s = Flush_notEmpty s"
| "rb_section t FlushLock s = Flush_lock t s"
| "rb_section t FlushWait s = Flush_resume s"
| "rb_section t FlushEnd s = Flush_end s"
| "rb_section t ResetWait s = Some (ResetLock, s, Quiet)"
| "rb_section t ResetLock s = Reset_clear s"
| "rb_section t (Done r) s = Some (Done r, s, Quiet)"

text \<open>
  A goroutine can step when no condition variable holds it; \<open>wg.Wait\<close> returns when no reader
  is left; a finished call is finished.
\<close>

fun rb_enabled :: "nat \<Rightarrow> rb_pc \<Rightarrow> ringbuffer \<Rightarrow> bool" where
  "rb_enabled t (Done r) s = False"
| "rb_enabled t ResetWait s = (wg s = 0)"
| "rb_enabled t pc s = (t \<notin> readCond s \<and> t \<notin> writeCond s \<and> t \<notin> orphaned s)"

text \<open>What the Try methods return when another goroutine has the mutex.\<close>

fun try_refused :: "rb_call \<Rightarrow> rb_ret option" where
  "try_refused (CTryRead p) = Some (RRead p 0 (Some ErrAcquireLock))"
| "try_refused (CTryWrite p) = (if p = [] then None else Some (RWrite 0 (Some ErrAcquireLock)))"
| "try_refused (CTryWriteByte c) = Some (RErr (Some ErrAcquireLock))"
| "try_refused _ = None"

record rb_system =
  rb :: ringbuffer
  threads :: "nat \<rightharpoonup> rb_pc"

definition rb_system_init :: "ringbuffer \<Rightarrow> rb_system" where
  "rb_system_init s = \<lparr>rb = s, threads = Map.empty\<rparr>"

text \<open>
  The steps: a goroutine calls a method (one of the calls in \<open>A\<close>), runs a section, or is
  refused the mutex by a Try method. The label is the goroutine and what it did to the data.
\<close>

type_synonym rb_label = "nat \<times> rb_event"

inductive rb_step :: "(rb_call \<Rightarrow> bool) \<Rightarrow> rb_system \<Rightarrow> rb_label \<Rightarrow> rb_system \<Rightarrow> bool"
  for A :: "rb_call \<Rightarrow> bool" where
  call: "threads \<sigma> t = None \<Longrightarrow> A c \<Longrightarrow>
     rb_step A \<sigma> (t, Quiet) (\<sigma>\<lparr>threads := (threads \<sigma>)(t \<mapsto> Start c)\<rparr>)"
| section_step: "threads \<sigma> t = Some pc \<Longrightarrow> rb_enabled t pc (rb \<sigma>) \<Longrightarrow>
     rb_section t pc (rb \<sigma>) = Some (pc', s', ev) \<Longrightarrow>
     rb_step A \<sigma> (t, ev) (\<sigma>\<lparr>rb := s', threads := (threads \<sigma>)(t \<mapsto> pc')\<rparr>)"
| refused: "threads \<sigma> t = Some (Start c) \<Longrightarrow> try_refused c = Some r \<Longrightarrow>
     rb_step A \<sigma> (t, Quiet) (\<sigma>\<lparr>threads := (threads \<sigma>)(t \<mapsto> Done r)\<rparr>)"

inductive rb_run :: "(rb_call \<Rightarrow> bool) \<Rightarrow> rb_system \<Rightarrow> rb_label list \<Rightarrow> rb_system \<Rightarrow> bool"
  for A :: "rb_call \<Rightarrow> bool" where
  run_refl: "rb_run A \<sigma> [] \<sigma>"
| run_step: "rb_run A \<sigma> tr \<sigma>' \<Longrightarrow> rb_step A \<sigma>' l \<sigma>'' \<Longrightarrow> rb_run A \<sigma> (tr @ [l]) \<sigma>''"

text \<open>A scheduler, to replay runs: each entry is a call of goroutine \<open>t\<close> or its next section.\<close>

datatype rb_action = Call nat rb_call | Section nat

fun rb_exec :: "rb_action \<Rightarrow> rb_system \<Rightarrow> (rb_label \<times> rb_system) option" where
  "rb_exec (Call t c) \<sigma> =
     (if threads \<sigma> t = None then Some ((t, Quiet), \<sigma>\<lparr>threads := (threads \<sigma>)(t \<mapsto> Start c)\<rparr>) else None)"
| "rb_exec (Section t) \<sigma> =
     (case threads \<sigma> t of
        None \<Rightarrow> None
      | Some pc \<Rightarrow>
        if rb_enabled t pc (rb \<sigma>) then do {
          (pc', s', ev) \<leftarrow> rb_section t pc (rb \<sigma>);
          Some ((t, ev), \<sigma>\<lparr>rb := s', threads := (threads \<sigma>)(t \<mapsto> pc')\<rparr>)
        }
        else None)"

fun rb_replay :: "rb_action list \<Rightarrow> rb_system \<Rightarrow> (rb_label list \<times> rb_system) option" where
  "rb_replay [] \<sigma> = Some ([], \<sigma>)"
| "rb_replay (a # as) \<sigma> = do {
     (l, \<sigma>) \<leftarrow> rb_exec a \<sigma>;
     (tr, \<sigma>) \<leftarrow> rb_replay as \<sigma>;
     Some (l # tr, \<sigma>)
   }"

end
