(* ===== verification/RingBufferConcCorrect.thy ===== *)
theory RingBufferConcCorrect
  imports RingBufferConc
begin

text \<open>
  What holds of the ring buffer when any number of goroutines use it: no section panics, the
  bytes come out in the order in which they went in, the wait group counts the readers, a
  reader sleeps only while the buffer is empty, and (without \<open>ReadByte\<close> and \<open>Reset\<close>) a writer
  sleeps only while it is full. The last section replays the runs in which a goroutine sleeps
  although it could go on.
\<close>

section \<open>Facts about the data sections, in terms of contents\<close>

lemma contents_ctl [simp]:
  "rb_contents (s\<lparr>err := e\<rparr>) = rb_contents s" "rb_contents (s\<lparr>wg := g\<rparr>) = rb_contents s"
  "rb_contents (s\<lparr>readCond := R\<rparr>) = rb_contents s" "rb_contents (s\<lparr>writeCond := W\<rparr>) = rb_contents s"
  by (simp_all add: rb_contents_def rb_Length_def)

lemma wf_ctl [simp]:
  "rb_wf (s\<lparr>err := e\<rparr>) = rb_wf s" "rb_wf (s\<lparr>wg := g\<rparr>) = rb_wf s"
  "rb_wf (s\<lparr>readCond := R\<rparr>) = rb_wf s" "rb_wf (s\<lparr>writeCond := W\<rparr>) = rb_wf s"
  by (simp_all add: rb_wf_def)

lemma readErr_ctl [simp]:
  "readErr (s\<lparr>wg := g\<rparr>) = readErr s" "readErr (s\<lparr>readCond := R\<rparr>) = readErr s"
  "readErr (s\<lparr>writeCond := W\<rparr>) = readErr s"
  by (auto simp: readErr_def split: option.split)

lemma contents_empty_iff: "rb_wf s \<Longrightarrow> rb_contents s = [] \<longleftrightarrow> wpos s = rpos s \<and> \<not> isFull s"
proof -
  assume "rb_wf s"
  then obtain R n where v: "rb_view s R n" by (rule wf_view)
  then show ?thesis
    using view_IsEmpty [OF v] view_length_contents [OF v] by (auto simp: rb_IsEmpty_def)
qed

text \<open>The number of bytes that still fit.\<close>

definition room :: "ringbuffer \<Rightarrow> nat" where
  "room s = length (buf s) - length (rb_contents s)"

lemma read_cases:
  assumes wf: "rb_wf s" and p: "p \<noteq> []"
  obtains (empty) "rb_contents s = []" "rb_read p s = Some ((p, 0, Some ErrIsEmpty), s)"
    | (data) k e where "0 < k" "k = min (length (rb_contents s)) (length p)"
        "rb_read p s = Some ((take k (rb_contents s) @ drop k p, int k, e), advance k s)"
        "e = None \<or> e = readErr (advance k s)"
        "rb_wf (advance k s)" "rb_contents (advance k s) = drop k (rb_contents s)"
proof -
  obtain R n where v: "rb_view s R n" using wf by (rule wf_view)
  note len = view_length_contents [OF v]
  show ?thesis
  proof (cases "n = 0")
    case True
    with len v rb_read_empty show ?thesis by (intro empty) auto
  next
    case False
    define k where "k = min n (length p)"
    have k: "0 < k" "k \<le> n" using False p by (auto simp: k_def)
    note adv = view_advance [OF v k]
    show ?thesis
    proof (rule data [of k "if R + n < length (buf s) then None else readErr (advance k s)"])
      show "0 < k" by (rule k)
      show "k = min (length (rb_contents s)) (length p)" by (simp add: k_def len)
      show "rb_wf (advance k s)" using adv(1) by (rule view_wf)
      show "rb_contents (advance k s) = drop k (rb_contents s)" by (rule adv)
    qed (use rb_read_ok [OF v _ p] False in \<open>auto simp: k_def\<close>)
  qed
qed

lemma write_cases:
  assumes wf: "rb_wf s" and p: "p \<noteq> []"
  obtains (full) "isFull s" "rb_write p s = Some ((0, Some ErrIsFull), s)"
    | (data) q e where "q \<noteq> []" "q = take (room s) p" "\<not> isFull s"
        "rb_write p s = Some ((int (length q), e), append_data q s)"
        "e = (if length p > room s then Some ErrTooMuchDataToWrite else None)"
        "rb_wf (append_data q s)" "rb_contents (append_data q s) = rb_contents s @ q"
        "isFull (append_data q s) = (length p \<ge> room s)"
proof -
  obtain R n where v: "rb_view s R n" using wf by (rule wf_view)
  have room: "room s = length (buf s) - n" using view_length_contents [OF v] by (simp add: room_def)
  show ?thesis
  proof (cases "n = length (buf s)")
    case True
    with v rb_write_full show ?thesis by (intro full) (auto simp: rb_view_def)
  next
    case False
    then have n: "n < length (buf s)" using v by (auto simp: rb_view_def)
    let ?q = "take (length (buf s) - n) p"
    have q: "n + length ?q \<le> length (buf s)" "?q \<noteq> []" using n p by auto
    note a = view_append [OF v q(1)]
    have len: "length (buf (append_data ?q s)) = length (buf s)"
      using view_wpos_less [OF v] q(1) by (simp add: append_data_def)
    have "isFull (append_data ?q s) = (length p \<ge> length (buf s) - n)"
      using a(1) n unfolding rb_view_def len by auto
    then have full: "isFull (append_data ?q s) = (length p \<ge> room s)" by (simp only: room)
    show ?thesis
    proof (rule data [of ?q])
      show "?q \<noteq> []" by (rule q)
      show "?q = take (room s) p" by (simp only: room)
      show "\<not> isFull s" using v False by (simp add: rb_view_def)
      show "rb_write p s = Some ((int (length ?q),
          if length p > room s then Some ErrTooMuchDataToWrite else None), append_data ?q s)"
        using rb_write_ok [OF v n p] by (simp only: room)
      show "rb_wf (append_data ?q s)" using a(1) by (rule view_wf)
    qed (use a full in simp_all)
  qed
qed

lemma writeByte_cases:
  assumes wf: "rb_wf s"
  obtains (full) "isFull s" "rb_writeByte c s = Some (Some ErrIsFull, s)"
    | (data) "\<not> isFull s" "rb_writeByte c s = Some (None, append_data [c] s)"
        "rb_wf (append_data [c] s)" "rb_contents (append_data [c] s) = rb_contents s @ [c]"
proof -
  obtain R n where v: "rb_view s R n" using wf by (rule wf_view)
  show ?thesis
  proof (cases "n = length (buf s)")
    case True
    with v rb_writeByte_full show ?thesis by (intro full) (auto simp: rb_view_def)
  next
    case False
    then have n: "n < length (buf s)" using v by (auto simp: rb_view_def)
    then have q: "n + length [c] \<le> length (buf s)" by simp
    show ?thesis
      using rb_writeByte_ok [OF v n] view_append [OF v q] v False
      by (intro data) (auto simp: rb_view_def [of s] intro: view_wf)
  qed
qed

lemma takeByte_ok:
  assumes wf: "rb_wf s" and ne: "rb_contents s \<noteq> []"
  shows "rb_takeByte s = Some ((hd (rb_contents s), readErr (advance 1 s)), advance 1 s)"
    and "rb_wf (advance 1 s)" and "rb_contents (advance 1 s) = tl (rb_contents s)"
proof -
  obtain R n where v: "rb_view s R n" using wf by (rule wf_view)
  have n: "0 < n" using ne view_length_contents [OF v] by auto
  then have one: "0 < (1::nat)" "1 \<le> n" by auto
  show "rb_takeByte s = Some ((hd (rb_contents s), readErr (advance 1 s)), advance 1 s)"
    using rb_takeByte_ok [OF v n] .
  show "rb_wf (advance 1 s)" using view_advance(1) [OF v one] by (rule view_wf)
  show "rb_contents (advance 1 s) = tl (rb_contents s)"
    using view_advance(2) [OF v one] by (simp add: drop_Suc)
qed

lemma isFull_advance [simp]: "\<not> isFull (advance k s)"
  by (simp add: advance_def)

section \<open>Invariant of the buffer between sections\<close>

definition rb_inv :: "ringbuffer \<Rightarrow> bool" where
  "rb_inv s \<longleftrightarrow> rb_wf s \<and> orphaned s = {} \<and> (err s = None \<or> \<not> transient (err s)) \<and>
     (readCond s \<noteq> {} \<longrightarrow> block s) \<and>
     (writeCond s \<noteq> {} \<longrightarrow> block s \<and> rb_contents s = [] \<and> err s = None)"

fun data_effect :: "rb_event \<Rightarrow> byte list \<Rightarrow> byte list \<Rightarrow> bool" where
  "data_effect Quiet c c' = (c' = c)"
| "data_effect (Put q) c c' = (c' = c @ q)"
| "data_effect (Took q) c c' = (c = q @ c')"
| "data_effect Cleared c c' = (c' = [])"

fun is_ReadWait :: "rb_pc \<Rightarrow> bool" where
  "is_ReadWait (ReadWait p) = True"
| "is_ReadWait _ = False"

fun waits_to_read :: "rb_pc \<Rightarrow> bool" where
  "waits_to_read (ReadWait p) = True"
| "waits_to_read ReadByteWait = True"
| "waits_to_read _ = False"

fun waits_to_write :: "rb_pc \<Rightarrow> bool" where
  "waits_to_write (WriteWait p n) = True"
| "waits_to_write (WriteByteWait c) = True"
| "waits_to_write _ = False"

text \<open>The points of \<open>ReadByte\<close> and \<open>Reset\<close>, which free space without waking a writer.\<close>

fun frees_silently :: "rb_pc \<Rightarrow> bool" where
  "frees_silently (Start CReadByte) = True"
| "frees_silently ReadByteWait = True"
| "frees_silently (Start CReset) = True"
| "frees_silently ResetWait = True"
| "frees_silently ResetLock = True"
| "frees_silently _ = False"

text \<open>
  What one section of goroutine \<open>t\<close> at \<open>pc\<close> guarantees; the four parts are used for the data,
  the wait group, and the two condition variables.
\<close>

fun pc_ok :: "rb_pc \<Rightarrow> bool" where
  "pc_ok (ReadWait p) = (p \<noteq> [])"
| "pc_ok (WriteWait p wrote) = (0 \<le> wrote)"
| "pc_ok _ = True"

definition section_ok ::
  "nat \<Rightarrow> rb_pc \<Rightarrow> ringbuffer \<Rightarrow> rb_pc \<Rightarrow> ringbuffer \<Rightarrow> rb_event \<Rightarrow> bool" where
  "section_ok t pc s pc' s' ev \<longleftrightarrow>
     rb_inv s' \<and> block s' = block s \<and> size_of s' = size_of s \<and> pc_ok pc' \<and> (pc' = FlushLock \<longrightarrow> block s) \<and>
     (frees_silently pc' \<longrightarrow> frees_silently pc) \<and>
     data_effect ev (rb_contents s) (rb_contents s') \<and>
     wg s' + (if is_ReadWait pc then 1 else 0) = wg s + (if is_ReadWait pc' then 1 else 0) \<and>
     writeCond s' \<subseteq> insert t (writeCond s) \<and> (t \<in> writeCond s' \<longrightarrow> waits_to_read pc') \<and>
     readCond s' \<subseteq> insert t (readCond s) \<and>
     (t \<in> readCond s' \<longrightarrow> pc' = FlushWait \<or> waits_to_write pc' \<and> isFull s') \<and>
     (\<not> frees_silently pc \<longrightarrow> readCond s' \<inter> readCond s \<noteq> {} \<longrightarrow> isFull s \<longrightarrow> isFull s')"

definition section_fine :: "nat \<Rightarrow> rb_pc \<Rightarrow> ringbuffer \<Rightarrow> outcome option \<Rightarrow> bool" where
  "section_fine t pc s res \<longleftrightarrow>
     (\<exists>pc' s' ev. res = Some (pc', s', ev) \<and> section_ok t pc s pc' s' ev)"

lemma section_fineI:
  "section_ok t pc s pc' s' ev \<Longrightarrow> section_fine t pc s (Some (pc', s', ev))"
  by (simp add: section_fine_def)

text \<open>A goroutine about to run a section is not in the set of a condition variable.\<close>

definition awake :: "nat \<Rightarrow> ringbuffer \<Rightarrow> bool" where
  "awake t s \<longleftrightarrow> rb_inv s \<and> t \<notin> readCond s \<and> t \<notin> writeCond s"

lemma awakeD: "awake t s \<Longrightarrow> rb_inv s" "awake t s \<Longrightarrow> t \<notin> readCond s" "awake t s \<Longrightarrow> t \<notin> writeCond s"
  by (simp_all add: awake_def)

lemma inv_wf: "rb_inv s \<Longrightarrow> rb_wf s"
  by (simp add: rb_inv_def)

lemma finish_fine:
  assumes "awake t s" "\<not> is_ReadWait pc" "r = Done r'"
  shows "section_fine t pc s (Some (r, s, Quiet))"
  using assms by (auto simp: awake_def section_ok_def intro!: section_fineI)

section \<open>Sections that read\<close>

lemma readErr_empty:
  assumes "rb_wf s" "rb_contents s = []" "readErr s = None"
  shows "err s = None"
  using assms contents_empty_iff [OF assms(1)] by (auto simp: readErr_def split: option.splits if_splits)

text \<open>A reader that takes bytes out leaves nobody asleep who could write.\<close>

lemma inv_advance:
  assumes "rb_inv s" "rb_wf (advance k s)" "rb_contents s \<noteq> []"
  shows "rb_inv (advance k s)" "writeCond s = {}"
  using assms by (auto simp: rb_inv_def)

lemma read_end_fine:
  assumes a: "awake t s" and c: "rb_contents s \<noteq> []" and k: "0 < k" "k \<le> length (rb_contents s)" "k \<le> length p"
    and adv: "rb_wf (advance k s)" "rb_contents (advance k s) = drop k (rb_contents s)"
    and g: "g = wg s + (if is_ReadWait pc then 0 else 1)" "0 < g"
  shows "section_fine t pc s
    (read_end (take k (rb_contents s) @ drop k p) (int k) e ((advance k s)\<lparr>wg := g\<rparr>))"
proof -
  note inv = inv_advance [OF awakeD(1) [OF a] adv(1) c]
  have "block s \<or> readCond s = {}" using a by (auto simp: awake_def rb_inv_def)
  then show ?thesis
    using a inv k g adv
    by (auto simp: read_end_def Let_def broadcast_read_def section_ok_def rb_inv_def awake_def
        intro!: section_fineI)
qed

lemma wait_write_fine:
  assumes a: "awake t s" and c: "rb_contents s = []" and e: "readErr s = None" and b: "block s"
    and pc: "waits_to_read pc'" "pc_ok pc'" "frees_silently pc' \<Longrightarrow> frees_silently pc"
    and g: "g + (if is_ReadWait pc then 1 else 0) = wg s + (if is_ReadWait pc' then 1 else 0)"
  shows "section_fine t pc s (Some (pc', wait_write t (s\<lparr>wg := g\<rparr>), Quiet))"
proof -
  have "err s = None" using readErr_empty [OF inv_wf [OF awakeD(1) [OF a]] c e] .
  then show ?thesis
    using a c b pc g
    by (auto simp: wait_write_def section_ok_def rb_inv_def awake_def intro!: section_fineI)
qed

lemma read_end_nothing_fine:
  assumes a: "awake t s" and g: "g = wg s + (if is_ReadWait pc then 0 else 1)" "0 < g"
  shows "section_fine t pc s (read_end p 0 e (s\<lparr>wg := g\<rparr>))"
  using a g by (auto simp: read_end_def section_ok_def rb_inv_def awake_def intro!: section_fineI)

lemma wg_last:
  "s\<lparr>wg := g, rpos := r\<rparr> = s\<lparr>rpos := r, wg := g\<rparr>"
  "s\<lparr>wg := g, isFull := f\<rparr> = s\<lparr>isFull := f, wg := g\<rparr>"
  by simp_all

lemma rb_read_wg: "rb_read p (s\<lparr>wg := g\<rparr>) =
    map_option (\<lambda>(r, s'). (r, s'\<lparr>wg := g\<rparr>)) (rb_read p s)"
  by (simp add: rb_read_def rb_copy_out_def Let_def map_conv_bind_option Option.bind_assoc o_def
      wg_last)

lemma read_try_fine:
  assumes a: "awake t s" and p: "p \<noteq> []" and e: "readErr s = None"
    and g: "g = wg s + (if is_ReadWait pc then 0 else 1)" "0 < g"
  shows "section_fine t pc s (read_try t p (s\<lparr>wg := g\<rparr>))"
proof (cases rule: read_cases [OF inv_wf [OF awakeD(1) [OF a]] p])
  case 1
  show ?thesis
  proof (cases "block s")
    case True
    have "section_fine t pc s (Some (ReadWait p, wait_write t (s\<lparr>wg := g\<rparr>), Quiet))"
      by (rule wait_write_fine [OF a 1(1) e True]) (use p g in auto)
    with 1 True show ?thesis by (simp add: read_try_def rb_read_wg)
  next
    case False
    with 1 read_end_nothing_fine [OF a g] show ?thesis by (simp add: read_try_def rb_read_wg)
  qed
next
  case (2 k e')
  have c: "rb_contents s \<noteq> []" and k: "k \<le> length (rb_contents s)" "k \<le> length p" using 2(1,2) by auto
  have "e' \<noteq> Some ErrIsEmpty"
    using 2(4) a by (auto simp: awake_def rb_inv_def transient_def readErr_def split: option.splits if_splits)
  with 2 read_end_fine [OF a c 2(1) k 2(5,6) g] show ?thesis
    by (simp add: read_try_def rb_read_wg)
qed

lemma Read_start_fine: "awake t s \<Longrightarrow> section_fine t (Start (CRead p)) s (Read_start t p s)"
  by (auto simp: Read_start_def finish_def split: option.split intro: finish_fine read_try_fine)

lemma Read_resume_fine:
  assumes "awake t s" "0 < wg s" "p \<noteq> []"
  shows "section_fine t (ReadWait p) s (Read_resume t p s)"
  using assms read_try_fine [OF assms(1,3), where g = "wg s" and pc = "ReadWait p"]
    read_end_nothing_fine [OF assms(1), where g = "wg s" and pc = "ReadWait p"]
  by (auto simp: Read_resume_def split: option.split)

lemma TryRead_fine:
  assumes a: "awake t s"
  shows "section_fine t (Start (CTryRead p)) s (TryRead_section p s)"
proof (cases "p = [] \<or> readErr s \<noteq> None")
  case True
  then have "section_fine t (Start (CTryRead p)) s (Some (Done (RRead p 0 (readErr s)), s, Took []))"
    using a by (auto simp: section_ok_def rb_inv_def awake_def intro!: section_fineI)
  with True show ?thesis by (auto simp: TryRead_section_def TryRead_def split: option.split)
next
  case False
  then have p: "p \<noteq> []" and e: "readErr s = None" by auto
  show ?thesis
  proof (cases rule: read_cases [OF inv_wf [OF awakeD(1) [OF a]] p])
    case 1
    have "section_fine t (Start (CTryRead p)) s (Some (Done (RRead p 0 (Some ErrIsEmpty)), s, Took []))"
      using a by (auto simp: section_ok_def rb_inv_def awake_def intro!: section_fineI)
    with 1 e p show ?thesis by (simp add: TryRead_section_def TryRead_def)
  next
    case (2 k e')
    have c: "rb_contents s \<noteq> []" and k: "k \<le> length (rb_contents s)" "k \<le> length p" using 2(1,2) by auto
    have "block s \<or> readCond s = {}" using a by (auto simp: awake_def rb_inv_def)
    with 2 e p a k inv_advance [OF awakeD(1) [OF a] 2(5) c] show ?thesis
      by (auto simp: TryRead_section_def TryRead_def broadcast_read_def section_ok_def rb_inv_def
          awake_def intro!: section_fineI)
  qed
qed

lemma ReadByte_fine:
  assumes a: "awake t s" and pc: "pc = Start CReadByte \<or> pc = ReadByteWait"
  shows "section_fine t pc s (ReadByte_section t s)"
proof (cases "readErr s")
  case (Some e)
  have "section_fine t pc s (finish (RByte 0 (Some e)) s)"
    using a pc by (auto simp: finish_def intro: finish_fine)
  with Some show ?thesis by (simp add: ReadByte_section_def)
next
  case None
  note inv = awakeD(1) [OF a]
  show ?thesis
  proof (cases "rb_contents s = []")
    case True
    then have e: "wpos s = rpos s" "\<not> isFull s" using contents_empty_iff [OF inv_wf [OF inv]] by auto
    have "section_fine t pc s (Some (ReadByteWait, wait_write t s, Quiet))" if "block s"
      using wait_write_fine [OF a True None that, where g = "wg s" and pc = pc and pc' = ReadByteWait] pc
      by auto
    moreover have "section_fine t pc s (finish (RByte 0 (Some ErrIsEmpty)) s)"
      using a pc by (auto simp: finish_def intro: finish_fine)
    ultimately show ?thesis using None e by (simp add: ReadByte_section_def)
  next
    case False
    note take = takeByte_ok [OF inv_wf [OF inv] False]
    have "rb_contents s = hd (rb_contents s) # tl (rb_contents s)" using False by simp
    then have "section_ok t pc s (Done (RByte (hd (rb_contents s)) (readErr (advance 1 s))))
        (advance 1 s) (Took [hd (rb_contents s)])"
      using inv_advance [OF inv take(2) False] a take pc
      by (auto simp: section_ok_def rb_inv_def awake_def)
    moreover have "(wpos s = rpos s \<and> \<not> isFull s) = False"
      using False contents_empty_iff [OF inv_wf [OF inv]] by blast
    ultimately show ?thesis
      using None take(1) unfolding ReadByte_section_def by (simp only:) (simp add: section_fineI)
  qed
qed

section \<open>Sections that write\<close>

lemma setErr_transient:
  "transient e \<or> err s \<noteq> None \<and> err s \<noteq> Some EOF \<Longrightarrow> setErr e s = (if err s \<noteq> None \<and> err s \<noteq> Some EOF then err s else e, s)"
  by (auto simp: setErr_def)

lemma transient_simps [simp]:
  "transient None" "transient (Some ErrIsFull)" "transient (Some ErrTooMuchDataToWrite)"
  "transient (Some ErrIsEmpty)" "transient (Some ErrIsNotEmpty)"
  by (simp_all add: transient_def)

text \<open>The state a write of \<open>q\<close> leaves, \<open>q\<close> empty when the buffer was full.\<close>

definition appended :: "byte list \<Rightarrow> ringbuffer \<Rightarrow> ringbuffer \<Rightarrow> bool" where
  "appended q s s1 \<longleftrightarrow> q = [] \<and> s1 = s \<or>
     q \<noteq> [] \<and> \<not> isFull s \<and> s1 = append_data q s \<and> rb_wf s1 \<and> rb_contents s1 = rb_contents s @ q"

lemma appended_refl [simp]: "appended [] s s"
  by (simp add: appended_def)

text \<open>A broadcast to the readers re-establishes the invariant after a write.\<close>

lemma inv_appended:
  assumes "rb_inv s" "appended q s s1"
  shows "rb_inv (broadcast_write s1)" "\<not> block s \<or> err s \<noteq> None \<or> q = [] \<Longrightarrow> rb_inv s1"
    "rb_contents s1 = rb_contents s @ q" "block s1 = block s" "wg s1 = wg s" "err s1 = err s"
    "readCond s1 = readCond s" "writeCond s1 = writeCond s" "isFull s \<Longrightarrow> isFull s1"
    "size_of s1 = size_of s"
  using assms by (auto simp: rb_inv_def appended_def broadcast_write_def)

lemma broadcast_write_simps [simp]:
  "rb_contents (broadcast_write s) = rb_contents s" "block (broadcast_write s) = block s"
  "wg (broadcast_write s) = wg s" "err (broadcast_write s) = err s"
  "readCond (broadcast_write s) = readCond s" "writeCond (broadcast_write s) = {}"
  "isFull (broadcast_write s) = isFull s" "size_of (broadcast_write s) = size_of s"
  by (simp_all add: broadcast_write_def)

lemma appended_done_fine:
  assumes a: "awake t s" and pc: "\<not> is_ReadWait pc" and s1: "appended q s s1"
    and s2: "s2 = broadcast_write s1 \<or> s2 = s1 \<and> (\<not> block s \<or> err s \<noteq> None \<or> q = [])"
  shows "section_fine t pc s (Some (Done r, s2, Put q))"
proof -
  note ap = inv_appended [OF awakeD(1) [OF a] s1]
  have "rb_inv s2" using s2 ap(1,2) by auto
  moreover have "rb_contents s2 = rb_contents s @ q" "block s2 = block s" "wg s2 = wg s" "size_of s2 = size_of s"
    "readCond s2 = readCond s" "writeCond s2 \<subseteq> writeCond s" "isFull s \<longrightarrow> isFull s2"
    using s2 ap by auto
  ultimately show ?thesis
    using awakeD(2,3) [OF a] pc by (auto simp: section_ok_def intro!: section_fineI)
qed

lemma write_end_fine:
  assumes a: "awake t s" and pc: "\<not> is_ReadWait pc" and s1: "appended q s s1"
    and wrote: "q \<noteq> [] \<Longrightarrow> 0 < wrote" and e: "transient e \<or> err s \<noteq> None \<and> err s \<noteq> Some EOF"
  shows "section_fine t pc s (write_end wrote e q s1)"
proof -
  let ?s2 = "if block s1 \<and> wrote > 0 then broadcast_write s1 else s1"
  have "?s2 = broadcast_write s1 \<or> ?s2 = s1 \<and> (\<not> block s \<or> err s \<noteq> None \<or> q = [])"
    using wrote inv_appended(4) [OF awakeD(1) [OF a] s1] by auto
  moreover have "transient e \<or> err ?s2 \<noteq> None \<and> err ?s2 \<noteq> Some EOF"
    using e inv_appended(6) [OF awakeD(1) [OF a] s1] by simp
  ultimately show ?thesis
    using appended_done_fine [OF a pc s1, of ?s2]
    by (simp add: write_end_def setErr_transient Let_def)
qed

lemma wait_read_fine:
  assumes a: "awake t s" and pc: "\<not> is_ReadWait pc" and s1: "appended q s s1" and b: "block s"
    and pc': "waits_to_write pc'" "pc_ok pc'" and full: "isFull s1"
    and s2: "s2 = broadcast_write s1 \<or> s2 = s1 \<and> q = []"
  shows "section_fine t pc s (Some (pc', wait_read t s2, Put q))"
proof -
  note ap = inv_appended [OF awakeD(1) [OF a] s1]
  have "rb_inv s2" using s2 ap(1,2) by auto
  then have "rb_inv (wait_read t s2)"
    using s2 ap(4) b by (auto simp: wait_read_def rb_inv_def)
  moreover have "rb_contents s2 = rb_contents s @ q" "block s2 = block s" "wg s2 = wg s" "size_of s2 = size_of s"
    "readCond s2 = readCond s" "writeCond s2 \<subseteq> writeCond s" "isFull s2"
    using s2 ap full by auto
  moreover have "\<not> is_ReadWait pc'" "\<not> frees_silently pc'" "pc' \<noteq> FlushLock"
    using pc'(1) by (cases pc'; simp)+
  ultimately show ?thesis
    using awakeD(2,3) [OF a] pc pc'
    by (auto simp: section_ok_def wait_read_def intro!: section_fineI)
qed

lemma write_round_fine:
  assumes a: "awake t s" and pc: "\<not> is_ReadWait pc" and wrote: "0 \<le> wrote"
  shows "section_fine t pc s (write_round t p wrote s)"
proof (cases "p = []")
  case True
  then show ?thesis using write_end_fine [OF a pc, of "[]" s] by (simp add: write_round_def)
next
  case p: False
  show ?thesis
  proof (cases rule: write_cases [OF inv_wf [OF awakeD(1) [OF a]] p])
    case 1
    have sl: "go_slice p 0 (int (length p)) = Some p" by (simp add: go_slice_def)
    have end_fine: "section_fine t pc s (write_end wrote e [] s)"
      if "transient e \<or> err s \<noteq> None \<and> err s \<noteq> Some EOF" for e
      using write_end_fine [OF a pc _ _ that, of "[]" s] by simp
    have wait: "section_fine t pc s
        (Some (WriteWait p wrote, wait_read t (broadcast_write s), Put []))" if "block s"
      using wait_read_fine [OF a pc appended_refl that, of "WriteWait p wrote" "broadcast_write s"]
        wrote 1(1) by simp
    show ?thesis
      using p 1(2) sl wait end_fine [of "Some ErrIsFull"] end_fine [of "err s"]
      by (simp add: write_round_def setErr_transient split: if_splits)
  next
    case (2 q e)
    then have s1: "appended q s (append_data q s)" by (simp add: appended_def)
    have q: "take (length q) p = q" "length q \<le> length p" "0 < length q"
      using 2(1,2) by (cases "length p \<le> room s"; auto simp: min_def)+
    have sl: "go_slice p (int (length q)) (int (length p)) = Some (drop (length q) p)"
      using q(2) by (simp add: go_slice_def)
    have end_fine: "section_fine t pc s (write_end (wrote + int (length q)) e q (append_data q s))"
      if "transient e \<or> err s \<noteq> None \<and> err s \<noteq> Some EOF" for e
      using write_end_fine [OF a pc s1 _ that, where wrote = "wrote + int (length q)"] wrote q(3)
      by simp
    have wait: "section_fine t pc s (Some (WriteWait (drop (length q) p) (wrote + int (length q)),
        wait_read t (broadcast_write (append_data q s)), Put q))" if "block s" "length p > room s"
      using wait_read_fine [OF a pc s1 that(1), of _ "broadcast_write (append_data q s)"] wrote that(2) 2(8)
      by simp
    show ?thesis
    proof (cases "length p > room s")
      case True
      then show ?thesis
        using p 2(4,5) q sl wait end_fine [of e] end_fine [of "err s"]
        by (simp add: write_round_def setErr_transient Let_def)
    next
      case False
      then show ?thesis
        using p 2(4,5) q end_fine [of None] by (simp add: write_round_def)
    qed
  qed
qed

lemma Write_start_fine:
  assumes a: "awake t s" and pc: "\<not> is_ReadWait pc"
  shows "section_fine t pc s (Write_start t p s)"
proof -
  have "section_fine t pc s (finish r s)" for r
    using finish_fine [OF a pc] by (simp add: finish_def)
  moreover have "section_fine t pc s (write_round t p 0 s)" by (rule write_round_fine [OF a pc]) simp
  ultimately show ?thesis
    by (simp add: Write_start_def setErr_transient Let_def split: option.split)
qed

lemma TryWrite_fine:
  assumes a: "awake t s"
  shows "section_fine t (Start (CTryWrite p)) s (TryWrite_section p s)"
proof -
  let ?pc = "Start (CTryWrite p)"
  have pc: "\<not> is_ReadWait ?pc" by simp
  have unchanged: "section_fine t (Start (CTryWrite p)) s (Some (Done r, s, Put []))" for p r
    by (rule appended_done_fine [OF a _ appended_refl]) simp_all
  show ?thesis
  proof (cases "p = [] \<or> err s \<noteq> None")
    case True
    then show ?thesis
      by (auto intro!: unchanged simp: TryWrite_section_def TryWrite_def setErr_transient writeErr_def
          split: option.split)
  next
    case False
    then have p: "p \<noteq> []" and e: "err s = None" by auto
    show ?thesis
    proof (cases rule: write_cases [OF inv_wf [OF awakeD(1) [OF a]] p])
      case 1
      with p e unchanged show ?thesis
        by (simp add: TryWrite_section_def TryWrite_def writeErr_def setErr_transient)
    next
      case (2 q e')
      then have s1: "appended q s (append_data q s)" by (simp add: appended_def)
      have q: "take (length q) p = q" "0 < length q"
        using 2(1,2) by (cases "length p \<le> room s"; auto simp: min_def)+
      note fin = appended_done_fine [OF a pc s1]
      have "section_fine t ?pc s (Some (Done (RWrite (int (length q)) e'),
          if block s then broadcast_write (append_data q s) else append_data q s, Put q))"
        by (rule fin) simp
      with p e 2(4,5) q show ?thesis
        by (simp add: TryWrite_section_def TryWrite_def writeErr_def setErr_transient split: if_splits)
    qed
  qed
qed

lemma writeByte_check_fine:
  assumes a: "awake t s" and pc: "\<not> is_ReadWait pc" and s1: "appended q s s1"
    and e: "e = Some ErrIsFull \<longrightarrow> q = [] \<and> isFull s1"
      "\<not> block s \<or> e = None \<or> err s \<noteq> None \<or> q = []"
  shows "section_fine t pc s (writeByte_check t c e q s1)"
proof -
  note ap = inv_appended [OF awakeD(1) [OF a] s1]
  have "section_fine t pc s (Some (WriteByteWait c, wait_read t s1, Put q))"
    if "e = Some ErrIsFull" "block s"
    using wait_read_fine [OF a pc s1 that(2), of "WriteByteWait c" s1] e(1) that(1) by simp
  moreover have "section_fine t pc s (Some (Done (RErr e),
      if block s1 \<and> e = None then broadcast_write s1 else s1, Put q))"
    using appended_done_fine [OF a pc s1] e(2) ap(4) by auto
  ultimately show ?thesis using ap(4) by (auto simp: writeByte_check_def Let_def)
qed

lemma WriteByte_start_fine:
  assumes a: "awake t s"
  shows "section_fine t (Start (CWriteByte c)) s (WriteByte_start t c s)"
proof (cases "err s")
  case (Some e)
  then show ?thesis
    using finish_fine [OF a] by (auto simp: WriteByte_start_def writeErr_def finish_def)
next
  case None
  show ?thesis
  proof (cases rule: writeByte_cases [OF inv_wf [OF awakeD(1) [OF a]], of c])
    case 1
    with None writeByte_check_fine [OF a, of _ "[]" s "Some ErrIsFull"] show ?thesis
      by (simp add: WriteByte_start_def writeErr_def byte_put_def)
  next
    case 2
    then have "appended [c] s (append_data [c] s)" by (simp add: appended_def)
    with 2(2) None writeByte_check_fine [OF a, of _ "[c]" "append_data [c] s" None] show ?thesis
      by (simp add: WriteByte_start_def writeErr_def byte_put_def)
  qed
qed

lemma WriteByte_resume_fine:
  assumes a: "awake t s"
  shows "section_fine t (WriteByteWait c) s (WriteByte_resume t c s)"
proof (cases rule: writeByte_cases [OF inv_wf [OF awakeD(1) [OF a]], of c])
  case 1
  have fine: "section_fine t (WriteByteWait c) s (writeByte_check t c e [] s)" for e
    using 1(1) by (intro writeByte_check_fine [OF a]) auto
  from 1 show ?thesis by (simp add: WriteByte_resume_def byte_put_def setErr_transient fine)
next
  case 2
  then have s1: "appended [c] s (append_data [c] s)" by (simp add: appended_def)
  have "section_fine t (WriteByteWait c) s (writeByte_check t c e [c] (append_data [c] s))"
    if "e = (if err s \<noteq> None \<and> err s \<noteq> Some EOF then err s else None)" for e
    using that a
    by (intro writeByte_check_fine [OF a _ s1]) (auto simp: awake_def rb_inv_def transient_def)
  note fine = this
  from 2(2) show ?thesis by (simp add: WriteByte_resume_def byte_put_def setErr_transient fine)
qed

lemma TryWriteByte_fine:
  assumes a: "awake t s"
  shows "section_fine t (Start (CTryWriteByte c)) s (TryWriteByte_section c s)"
proof -
  let ?pc = "Start (CTryWriteByte c)"
  have unchanged: "section_fine t ?pc s (Some (Done r, s, Put []))" for r
    by (rule appended_done_fine [OF a _ appended_refl]) simp_all
  show ?thesis
  proof (cases "err s")
    case (Some e)
    then show ?thesis
      by (simp add: unchanged TryWriteByte_section_def TryWriteByte_def writeErr_def byte_put_def)
  next
    case None
    show ?thesis
    proof (cases rule: writeByte_cases [OF inv_wf [OF awakeD(1) [OF a]], of c])
      case 1
      with None unchanged show ?thesis
        by (simp add: TryWriteByte_section_def TryWriteByte_def writeErr_def byte_put_def)
    next
      case 2
      then have s1: "appended [c] s (append_data [c] s)" by (simp add: appended_def)
      have "section_fine t ?pc s (Some (Done (RErr None),
          if block s then broadcast_write (append_data [c] s) else append_data [c] s, Put [c]))"
        by (rule appended_done_fine [OF a _ s1]) simp_all
      with 2(2) None show ?thesis
        by (simp add: TryWriteByte_section_def TryWriteByte_def writeErr_def byte_put_def)
    qed
  qed
qed

section \<open>Closing, flushing, resetting\<close>

lemma setErr_awake:
  assumes "rb_inv s" "setErr e s = (e', s')"
  shows "rb_inv s'" "rb_contents s' = rb_contents s" "block s' = block s" "wg s' = wg s"
    "writeCond s' \<subseteq> writeCond s" "readCond s' \<subseteq> readCond s" "isFull s' = isFull s"
    "size_of s' = size_of s"
  using assms
  by (auto simp: setErr_def rb_inv_def broadcast_read_def broadcast_write_def Let_def split: if_splits)

lemma setErr_fine:
  assumes a: "awake t s"
    and pc: "\<not> is_ReadWait pc" "pc_ok pc'" "\<not> is_ReadWait pc'" "pc' \<noteq> FlushLock" "\<not> frees_silently pc'"
  shows "section_fine t pc s (Some (pc', snd (setErr e s), Quiet))"
proof -
  obtain e' s' where s': "setErr e s = (e', s')" by (cases "setErr e s")
  show ?thesis
    using setErr_awake [OF awakeD(1) [OF a] s'] awakeD(2,3) [OF a] pc s'
    by (auto simp: section_ok_def intro!: section_fineI)
qed

lemma Flush_lock_fine:
  assumes a: "awake t s" and b: "block s"
  shows "section_fine t FlushLock s (Flush_lock t s)"
  using a b
  by (auto simp: Flush_lock_def wait_read_def section_ok_def rb_inv_def awake_def intro!: section_fineI)

lemma Reset_start_fine:
  assumes a: "awake t s"
  shows "section_fine t (Start CReset) s (Reset_start s)"
proof -
  obtain e' s' where s': "setErr (Some ErrResetCalled) s = (e', s')"
    by (cases "setErr (Some ErrResetCalled) s")
  show ?thesis
    using setErr_awake [OF awakeD(1) [OF a] s'] awakeD(2,3) [OF a] s'
    by (auto simp: Reset_start_def section_ok_def rb_inv_def broadcast_write_def broadcast_read_def
        intro!: section_fineI)
qed

lemma Reset_clear_fine:
  assumes a: "awake t s"
  shows "section_fine t ResetLock s (Reset_clear s)"
proof -
  let ?s = "s\<lparr>rpos := 0, wpos := 0, err := None, isFull := False\<rparr>"
  have wf: "rb_wf ?s" using a by (auto simp: awake_def rb_inv_def rb_wf_def)
  then have "rb_contents ?s = []" by (simp add: contents_empty_iff)
  then show ?thesis
    using a wf
    by (auto simp: Reset_clear_def section_ok_def rb_inv_def awake_def intro!: section_fineI)
qed

section \<open>Every section\<close>

lemma Flush_fine:
  assumes a: "awake t s"
  shows "section_fine t (Start CFlush) s (Flush_start s)"
    "section_fine t FlushNotEmpty s (Flush_notEmpty s)"
    "section_fine t FlushWait s (Flush_resume s)"
    "section_fine t FlushEnd s (Flush_end s)"
proof -
  have go: "section_fine t pc s (Some (pc', s, Quiet))"
    if "\<not> is_ReadWait pc" "\<not> is_ReadWait pc'" "pc_ok pc'" "pc' = FlushLock \<longrightarrow> block s"
      "\<not> frees_silently pc'" for pc pc'
    using a that by (auto simp: section_ok_def awake_def intro!: section_fineI)
  show "section_fine t (Start CFlush) s (Flush_start s)"
    using go by (auto simp: Flush_start_def)
  show "section_fine t FlushNotEmpty s (Flush_notEmpty s)"
    by (simp add: Flush_notEmpty_def setErr_transient Let_def finish_def go)
  show "section_fine t FlushWait s (Flush_resume s)"
    using go by (auto simp: Flush_resume_def finish_def split: option.split)
  show "section_fine t FlushEnd s (Flush_end s)"
    by (simp add: Flush_end_def finish_def go)
qed

theorem rb_section_fine:
  assumes a: "awake t s" and pc: "pc_ok pc" "is_ReadWait pc \<Longrightarrow> 0 < wg s"
    "pc = FlushLock \<Longrightarrow> block s" "\<And>r. pc \<noteq> Done r"
  shows "section_fine t pc s (rb_section t pc s)"
proof (cases pc)
  case (Start c)
  note Start [simp]
  show ?thesis
    by (cases c) (use a in \<open>auto simp: finish_def CloseWithError_def CloseWriter_def Close_start_def
        WriteString_start_def intro: Read_start_fine
        ReadByte_fine TryRead_fine Write_start_fine WriteByte_start_fine TryWrite_fine
        TryWriteByte_fine Flush_fine Reset_start_fine setErr_fine\<close>)
next
  case (ReadWait p)
  with a pc show ?thesis by (auto intro: Read_resume_fine)
next
  case ReadByteWait
  with a show ?thesis by (auto intro: ReadByte_fine)
next
  case (WriteWait p wrote)
  with a pc show ?thesis by (auto intro: write_round_fine)
next
  case (WriteByteWait c)
  with a show ?thesis by (auto intro: WriteByte_resume_fine)
next
  case FlushLock
  with a pc show ?thesis by (auto intro: Flush_lock_fine)
next
  case ResetWait
  with a show ?thesis by (auto simp: section_ok_def awake_def intro!: section_fineI)
next
  case ResetLock
  with a show ?thesis by (auto intro: Reset_clear_fine)
qed (use a pc in \<open>auto intro: Flush_fine\<close>)

end
