(* ===== verification/RingBufferSpec.thy ===== *)
theory RingBufferSpec
  imports RingBufferConcCorrect
begin

text \<open>
  The ring buffer's contract for one goroutine: a bounded queue of bytes, stated as a locale
  and interpreted on the code's \<open>write\<close> and \<open>read\<close>; what the observers report; which error
  wins; and what a buffer of size zero does.
\<close>

section \<open>Bounded queues\<close>

text \<open>
  \<open>put\<close> takes a prefix, as much as fits, and reports how much; \<open>get\<close> fills a prefix of the
  caller's slice and reports how much.
\<close>

locale bounded_queue =
  fixes wf :: "'s \<Rightarrow> bool" and contents :: "'s \<Rightarrow> 'a list" and cap :: "'s \<Rightarrow> nat"
    and put :: "'a list \<Rightarrow> 's \<Rightarrow> ((int \<times> 'e) \<times> 's) option"
    and get :: "'a list \<Rightarrow> 's \<Rightarrow> (('a list \<times> int \<times> 'e) \<times> 's) option"
  assumes put_law: "wf s \<Longrightarrow> p \<noteq> [] \<Longrightarrow> k = min (length p) (cap s - length (contents s)) \<Longrightarrow>
      \<exists>e s'. put p s = Some ((int k, e), s') \<and> wf s' \<and> cap s' = cap s \<and>
        contents s' = contents s @ take k p"
    and get_law: "wf s \<Longrightarrow> p \<noteq> [] \<Longrightarrow> k = min (length (contents s)) (length p) \<Longrightarrow>
      \<exists>e s'. get p s = Some ((take k (contents s) @ drop k p, int k, e), s') \<and> wf s' \<and>
        cap s' = cap s \<and> contents s' = drop k (contents s)"
begin

lemma put_fits:
  assumes "wf s" "p \<noteq> []" "length p \<le> cap s - length (contents s)"
  shows "\<exists>e s'. put p s = Some ((int (length p), e), s') \<and> wf s' \<and> cap s' = cap s \<and>
    contents s' = contents s @ p"
  using put_law [OF assms(1,2) refl] assms(3) by (simp add: min_absorb1)

lemma round_trip:
  assumes "wf s" "p \<noteq> []" "contents s = []" "length p \<le> cap s" "length q = length p"
  shows "\<exists>e s1 e' s2. put p s = Some ((int (length p), e), s1) \<and>
    get q s1 = Some ((p, int (length p), e'), s2) \<and> wf s2 \<and> contents s2 = []"
proof -
  from put_fits [OF assms(1,2)] assms(3,4) obtain e s1 where
    s1: "put p s = Some ((int (length p), e), s1)" "wf s1" "contents s1 = p" by auto
  from get_law [OF s1(2) _ refl, of q] s1(3) assms(2,5) obtain e' s2 where
    "get q s1 = Some ((p, int (length p), e'), s2)" "wf s2" "contents s2 = []" by (cases q) auto
  with s1(1) show ?thesis by blast
qed

text \<open>Moving a list of chunks through the queue, each read back before the next is written.\<close>

fun transfer :: "'a list list \<Rightarrow> 's \<Rightarrow> ('a list \<times> 's) option" where
  "transfer [] s = Some ([], s)"
| "transfer (p # ps) s = do {
     ((n, _), s) \<leftarrow> put p s;
     ((q, m, _), s) \<leftarrow> get p s;
     (rest, s) \<leftarrow> transfer ps s;
     Some (take (nat m) q @ rest, s)
   }"

lemma transfer_all:
  assumes "wf s" "contents s = []" "\<forall>p\<in>set ps. p \<noteq> [] \<and> length p \<le> cap s"
  shows "\<exists>s'. transfer ps s = Some (concat ps, s') \<and> wf s' \<and> contents s' = []"
  using assms
proof (induction ps arbitrary: s)
  case (Cons p ps)
  then have p: "p \<noteq> []" "length p \<le> cap s" by auto
  from put_fits [OF Cons.prems(1) p(1)] p(2) Cons.prems(2) obtain e s1 where
    s1: "put p s = Some ((int (length p), e), s1)" "wf s1" "cap s1 = cap s" "contents s1 = p" by auto
  from get_law [OF s1(2) p(1) refl] s1(4) obtain e' s2 where
    s2: "get p s1 = Some ((p, int (length p), e'), s2)" "wf s2" "cap s2 = cap s1" "contents s2 = []"
    by auto
  from Cons.IH [OF s2(2,4)] Cons.prems(3) s1(3) s2(3) obtain s' where
    "transfer ps s2 = Some (concat ps, s')" "wf s'" "contents s' = []" by auto
  with s1(1) s2(1) show ?case by simp
qed simp

end

interpretation ring: bounded_queue rb_wf rb_contents "\<lambda>s. length (buf s)" rb_write rb_read
proof
  fix s :: ringbuffer and p :: "byte list" and k
  assume s: "rb_wf s" "p \<noteq> []" and k: "k = min (length p) (length (buf s) - length (rb_contents s))"
  show "\<exists>e s'. rb_write p s = Some ((int k, e), s') \<and> rb_wf s' \<and> length (buf s') = length (buf s) \<and>
      rb_contents s' = rb_contents s @ take k p"
  proof (cases rule: write_cases [OF s])
    case 1
    obtain R n where v: "rb_view s R n" using s(1) by (rule wf_view)
    then have "length (rb_contents s) = length (buf s)"
      using 1(1) view_length_contents [OF v] by (simp add: rb_view_def)
    with 1 s k show ?thesis by simp
  next
    case (2 q e)
    have "length q = k" "q = take k p" using 2(2) k by (simp_all add: room_def min_def)
    moreover have "length (buf (append_data q s)) = length (buf s)"
      using s(1) 2(6) by (simp add: rb_wf_def)
    ultimately show ?thesis using 2 by auto
  qed
next
  fix s :: ringbuffer and p :: "byte list" and k
  assume s: "rb_wf s" "p \<noteq> []" and k: "k = min (length (rb_contents s)) (length p)"
  show "\<exists>e s'. rb_read p s = Some ((take k (rb_contents s) @ drop k p, int k, e), s') \<and> rb_wf s' \<and>
      length (buf s') = length (buf s) \<and> rb_contents s' = drop k (rb_contents s)"
    by (cases rule: read_cases [OF s]) (use s k in auto)
qed

section \<open>Reading back what was written\<close>

text \<open>Round trip: bytes written to an empty buffer that can hold them are read back in the same
  order, all of them, wherever in the array the buffer starts.\<close>
theorem rb_round_trip:
  assumes "rb_wf s" "rb_contents s = []" "p \<noteq> []" "length p \<le> length (buf s)" "length q = length p"
  shows "\<exists>e s1 e' s2. rb_write p s = Some ((int (length p), e), s1) \<and>
    rb_read q s1 = Some ((p, int (length p), e'), s2) \<and> rb_wf s2 \<and> rb_contents s2 = []"
  by (rule ring.round_trip [OF assms(1,3,2,4,5)])

text \<open>A buffer of size 3 whose data wraps around the end of the array.\<close>

definition wrapped :: "byte list \<Rightarrow> ringbuffer" where
  "wrapped b = (rb_NewBuffer b)\<lparr>rpos := 2, wpos := 2\<rparr>"

lemma wrapped_wf: "rb_wf (wrapped [7, 8, 9])" "rb_contents (wrapped [7, 8, 9]) = []"
  by (simp_all add: wrapped_def rb_NewBuffer_def rb_wf_def rb_contents_def rb_Length_def)

lemma wrapped_room: "room (wrapped [7, 8, 9]) = 3"
  using wrapped_wf(2) by (simp add: room_def) (simp add: wrapped_def rb_NewBuffer_def)

theorem rb_round_trip_witness:
  "\<exists>e s1 e' s2. rb_write [1, 2] (wrapped [7, 8, 9]) = Some ((2, e), s1) \<and>
    rb_read [0, 0] s1 = Some (([1, 2], 2, e'), s2) \<and> rb_wf s2 \<and> rb_contents s2 = []"
  using rb_round_trip [OF wrapped_wf, of "[1, 2]" "[0, 0]"]
  by (simp add: wrapped_def rb_NewBuffer_def)

text \<open>The helper \<open>write\<close>: it appends the part of \<open>p\<close> that fits, reports how many bytes those
  are, and its error says whether the buffer was full, \<open>p\<close> did not fit, or all is written.\<close>
theorem rb_write_appends:
  assumes "rb_wf s" "p \<noteq> []"
  shows "\<exists>s'. rb_write p s = Some ((int (min (length p) (room s)),
      if room s = 0 then Some ErrIsFull
      else if length p > room s then Some ErrTooMuchDataToWrite else None), s') \<and>
    rb_wf s' \<and> rb_contents s' = rb_contents s @ take (room s) p \<and> rpos s' = rpos s \<and> err s' = err s"
proof (cases rule: write_cases [OF assms])
  case 1
  obtain R n where v: "rb_view s R n" using assms(1) by (rule wf_view)
  then have "room s = 0"
    using 1(1) view_length_contents [OF v] by (simp add: rb_view_def room_def)
  with 1 assms(1) show ?thesis by simp
next
  case (2 q e)
  then have "room s \<noteq> 0" "length q = min (length p) (room s)" by auto
  with 2 show ?thesis by auto
qed

theorem rb_write_appends_witness:
  "\<exists>s'. rb_write [1, 2, 3, 4] (wrapped [7, 8, 9]) = Some ((3, Some ErrTooMuchDataToWrite), s') \<and>
    rb_contents s' = [1, 2, 3]"
  using rb_write_appends [OF wrapped_wf(1), of "[1, 2, 3, 4]"] wrapped_wf(2)
  by (auto simp: wrapped_room)

text \<open>The helper \<open>read\<close>: it fills the caller's slice from the front of the queue, reports how
  many bytes it moved, leaves the rest of the slice alone, and reports \<open>ErrIsEmpty\<close> on an
  empty buffer.\<close>
theorem rb_read_takes_the_front:
  assumes "rb_wf s" "p \<noteq> []"
  shows "\<exists>e s'. rb_read p s = Some ((take (length p) (rb_contents s) @ drop (length (rb_contents s)) p,
      int (min (length (rb_contents s)) (length p)), e), s') \<and>
    rb_wf s' \<and> rb_contents s' = drop (length p) (rb_contents s) \<and>
    (rb_contents s = [] \<longrightarrow> e = Some ErrIsEmpty)"
proof (cases rule: read_cases [OF assms])
  case 1
  with assms show ?thesis by simp
next
  case (2 k e)
  have k: "take k (rb_contents s) = take (length p) (rb_contents s)"
    "drop k p = drop (length (rb_contents s)) p"
    "drop k (rb_contents s) = drop (length p) (rb_contents s)"
    using 2(2) by (simp_all add: min_def)
  have "rb_contents s \<noteq> []" using 2(1,2) by auto
  with 2 k show ?thesis by auto
qed

theorem rb_read_takes_the_front_witness:
  "\<exists>e s'. rb_read [0, 0] (wrapped [7, 8, 9]) = Some (([0, 0], 0, e), s') \<and> e = Some ErrIsEmpty"
  using rb_read_takes_the_front [OF wrapped_wf(1), of "[0, 0]"] wrapped_wf(2) by auto

text \<open>The observers agree with the queue: \<open>Length\<close> and \<open>Free\<close> are the bytes held and the bytes
  that still fit, they add up to \<open>Capacity\<close>, \<open>IsEmpty\<close> and \<open>IsFull\<close> are their zeros, and \<open>Bytes\<close>
  returns the contents whatever destination it is given.\<close>
theorem rb_observers:
  assumes "rb_wf s"
  shows "rb_Length s = int (length (rb_contents s)) \<and> rb_Free s = int (room s) \<and>
    rb_Length s + rb_Free s = rb_Capacity s \<and>
    rb_IsEmpty s = (rb_Length s = 0) \<and> rb_IsFull s = (rb_Free s = 0) \<and>
    rb_Bytes dst s = Some (rb_contents s)"
proof -
  obtain R n where v: "rb_view s R n" using assms by (rule wf_view)
  note len = view_length_contents [OF v]
  have N: "n \<le> length (buf s)" "size_of s = int (length (buf s))" "isFull s = (n = length (buf s))"
    "0 < length (buf s)"
    using v by (auto simp: rb_view_def)
  have "rb_Length s = int n" "rb_Free s = int (length (buf s) - n)"
    using view_Length [OF v] view_Free [OF v] N(1) by (simp_all add: of_nat_diff)
  then show ?thesis
    using N len rb_Bytes_ok [OF assms] view_IsEmpty [OF v]
    by (auto simp: room_def rb_Capacity_def rb_IsFull_def)
qed

theorem rb_observers_witness:
  "rb_Length (wrapped [7, 8, 9]) + rb_Free (wrapped [7, 8, 9]) = 3 \<and>
   rb_Bytes [5] (wrapped [7, 8, 9]) = Some []"
  using rb_observers [OF wrapped_wf(1), of "[5]"] wrapped_wf(2)
  by (simp add: rb_Capacity_def) (simp add: wrapped_def rb_NewBuffer_def)

section \<open>Errors\<close>

text \<open>Which error a buffer keeps: \<open>CloseWithError\<close> never replaces an error other than end of
  file, a nil error closes with end of file, an end of file IS replaced by a later error, and
  the transient errors are never kept.\<close>
theorem CloseWithError_keeps_the_first_error:
  "err (CloseWithError e s) =
     (if err s \<noteq> None \<and> err s \<noteq> Some EOF then err s
      else if e = None then Some EOF
      else if transient e then err s else e)"
  by (auto simp: CloseWithError_def setErr_def broadcast_read_def broadcast_write_def Let_def transient_def)

text \<open>After \<open>CloseWriter\<close> on a buffer without an error, readers still get everything the buffer
  holds and the end of file exactly when it is empty, and every writer is refused.\<close>
theorem CloseWriter_drains:
  assumes "rb_wf s" "err s = None"
  shows "readErr (CloseWriter s) = (if rb_contents s = [] then Some EOF else None) \<and>
    writeErr (CloseWriter s) = Some ErrWriteOnClosed \<and> rb_contents (CloseWriter s) = rb_contents s \<and>
    readCond (CloseWriter s) = (if block s then {} else readCond s)"
proof -
  have c: "rb_contents (CloseWriter s) = rb_contents s"
    using assms(2) by (simp add: CloseWriter_def setErr_def transient_def Let_def broadcast_read_def)
  have "rb_wf (CloseWriter s)"
    using assms by (simp add: CloseWriter_def setErr_def transient_def Let_def broadcast_read_def
        broadcast_write_def)
  note empty = contents_empty_iff [OF this] 
  have e: "err (CloseWriter s) = Some EOF" "readCond (CloseWriter s) = (if block s then {} else readCond s)"
    using assms(2) by (simp_all add: CloseWriter_def setErr_def transient_def Let_def broadcast_read_def
        broadcast_write_def)
  show ?thesis using c e empty by (simp add: readErr_def writeErr_def)
qed

theorem CloseWriter_drains_witness:
  "readErr (CloseWriter (wrapped [7, 8, 9])) = Some EOF \<and>
   writeErr (CloseWriter (wrapped [7, 8, 9])) = Some ErrWriteOnClosed"
  using CloseWriter_drains [OF wrapped_wf(1)] wrapped_wf(2)
  by (simp add: wrapped_def rb_NewBuffer_def)

text \<open>A buffer of size zero is created without complaint, but writing a byte indexes past its
  array, and reading after a write of any bytes divides by its size: both panic.\<close>
theorem zero_size_buffer_panics:
  "\<exists>s r s'. rb_New 0 = Some s \<and> rb_writeByte c s = None \<and>
    rb_write [c] s = Some (r, s') \<and> rb_read [c] s' = None"
  by (simp add: rb_New_def rb_writeByte_def store_at_def rb_write_def rb_copy_in_def rb_wrap_def
      go_slice_def copy_into_def rb_read_def rb_copy_out_def go_mod_def go_copy_def)

end
