(* ===== verification/RingBufferBytes.thy ===== *)
theory RingBufferBytes
  imports RingBufferSpec
begin

text \<open>
  The block operations \<open>read\<close> and \<open>write\<close> of \<open>pkgs/ringbuffer/ringbuffer.go\<close>, which copy in one or
  two pieces around the end of the array, against the operations on single bytes.
\<close>

section \<open>A byte at a time\<close>

text \<open>Writing the bytes of \<open>p\<close> one by one until one is refused, and taking up to \<open>n\<close> bytes one by one.\<close>

fun write_bytes :: "byte list \<Rightarrow> ringbuffer \<Rightarrow> (nat \<times> ringbuffer) option" where
  "write_bytes [] s = Some (0, s)"
| "write_bytes (c # p) s = do {
     (e, s) \<leftarrow> rb_writeByte c s;
     if e \<noteq> None then Some (0, s)
     else do { (n, s) \<leftarrow> write_bytes p s; Some (n + 1, s) }
   }"

fun take_bytes :: "nat \<Rightarrow> ringbuffer \<Rightarrow> (byte list \<times> ringbuffer) option" where
  "take_bytes 0 s = Some ([], s)"
| "take_bytes (Suc n) s =
     (if rb_IsEmpty s then Some ([], s)
      else do {
        ((b, e), s) \<leftarrow> rb_takeByte s;
        (bs, s) \<leftarrow> take_bytes n s;
        Some (b # bs, s)
      })"

lemma ring_put_one: "w < length b \<Longrightarrow> ring_put b w [c] = b[w := c]"
  by (simp add: ring_put_def upd_conv_take_nth_drop)

lemma ring_put_Cons:
  assumes w: "w < length b" and q: "length (c # q) \<le> length b"
  shows "ring_put b w (c # q) = ring_put (b[w := c]) ((w + 1) mod length b) q"
proof (rule nth_equalityI)
  let ?N = "length b" and ?w = "(w + 1) mod length b"
  have w': "?w < ?N" using w by (intro mod_less_divisor) auto
  show "length (ring_put b w (c # q)) = length (ring_put (b[w := c]) ?w q)"
    using w w' q by simp
  fix i assume "i < length (ring_put b w (c # q))"
  then have i: "i < ?N" using w q by simp
  define j where "j = (if w \<le> i then i - w else i + ?N - w)"
  have j: "i = (w + j) mod ?N" "j < ?N" using w i by (auto simp: j_def mod_if)
  show "ring_put b w (c # q) ! i = ring_put (b[w := c]) ?w q ! i"
  proof (cases "j < length (c # q)")
    case True
    then have left: "ring_put b w (c # q) ! i = (c # q) ! j" using ring_put_new [OF w q] j(1) by simp
    show ?thesis
    proof (cases j)
      case 0
      then have "i = w" using j(1) w by simp
      have "?w + length q + (?N - 1 - length q) = ?w + (?N - 1)" using q by simp
      then have "(?w + length q + (?N - 1 - length q)) mod ?N = (w + 1 + (?N - 1)) mod ?N"
        by (simp only: mod_add_left_eq)
      also have "w + 1 + (?N - 1) = w + ?N" using w by simp
      also have "(w + ?N) mod ?N = w" using w by simp
      finally have at: "(?w + length q + (?N - 1 - length q)) mod ?N = w" .
      show ?thesis
      proof (cases "length q + 1 = ?N")
        case True
        then have "?N - 1 - length q = 0" by simp
        have "ring_put (b[w := c]) ?w q ! ((?w + length q + 0) mod length (b[w := c])) =
            b[w := c] ! ((?w + length q + 0) mod length (b[w := c]))"
          using ring_put_old [of ?w "b[w := c]" q 1 0] w' True by simp
        with at True \<open>i = w\<close> left 0 w show ?thesis by simp
      next
        case False
        then have "ring_put (b[w := c]) ?w q ! ((?w + length q + (?N - 1 - length q)) mod length (b[w := c])) =
            b[w := c] ! ((?w + length q + (?N - 1 - length q)) mod length (b[w := c]))"
          using ring_put_old [of ?w "b[w := c]" q "?N - length q" "?N - 1 - length q"] w' q by simp
        with at \<open>i = w\<close> left 0 w show ?thesis by simp
      qed
    next
      case (Suc k)
      have "i = (?w + k) mod ?N" using j(1) Suc by (simp add: mod_add_left_eq)
      then show ?thesis
        using left Suc True ring_put_new [of ?w "b[w := c]" q k] w' q by simp
    qed
  next
    case False
    define k where "k = j - length (c # q)"
    have k: "j = length (c # q) + k" using False by (simp add: k_def)
    have "i = (w + length (c # q) + k) mod ?N" using j(1) k by (simp add: add.assoc)
    then have left: "ring_put b w (c # q) ! i = b ! i"
      using ring_put_old [of w b "c # q" "?N - length (c # q)" k] w q j(2) k by simp
    have "i = (?w + length q + k) mod ?N" using j(1) k by (simp add: mod_add_left_eq add.assoc)
    then have "ring_put (b[w := c]) ?w q ! i = b[w := c] ! i"
      using ring_put_old [of ?w "b[w := c]" q "?N - length q" k] w' q j(2) k by simp
    moreover have "i \<noteq> w"
    proof
      assume "i = w"
      then have "j = 0" by (simp add: j_def)
      with False show False by simp
    qed
    ultimately show ?thesis using left by simp
  qed
qed

lemma append_data_Cons:
  assumes v: "rb_view s R n" and q: "n + length (c # q) \<le> length (buf s)" and ne: "q \<noteq> []"
  shows "append_data (c # q) s = append_data q (append_data [c] s)"
proof -
  have W: "nat (wpos s) < length (buf s)" using v by (rule view_wpos_less)
  have v1: "rb_view (append_data [c] s) R (n + 1)" using view_append(1) [OF v, of "[c]"] q by simp
  have len: "length (buf (append_data [c] s)) = length (buf s)" using W q by (simp add: append_data_def)
  have free: "(int (length (c # q)) = rb_Free s) = (int (length q) = rb_Free (append_data [c] s))"
    by (simp add: view_Free [OF v] view_Free [OF v1] len) auto
  have b: "buf (append_data q (append_data [c] s)) = ring_put (buf s) (nat (wpos s)) (c # q)"
    using ring_put_Cons [OF W, of c q] q W by (simp add: append_data_def ring_put_one)
  have p: "wpos (append_data q (append_data [c] s)) =
      int ((nat (wpos s) + length (c # q)) mod length (buf s))"
    using W q by (simp add: append_data_def ring_put_one mod_add_left_eq add.assoc)
  show ?thesis using b p free by (simp add: append_data_def)
qed

lemma advance_Suc:
  assumes "rb_view s R n"
  shows "advance k (advance (Suc 0) s) = advance (Suc k) s"
  by (simp add: advance_def mod_add_left_eq add.assoc)

lemma write_bytes_eq:
  assumes "rb_view s R n"
  shows "write_bytes p s = Some (min (length p) (length (buf s) - n),
    if p = [] \<or> n = length (buf s) then s else append_data (take (length (buf s) - n) p) s)"
  using assms
proof (induction p arbitrary: s n)
  case (Cons c p)
  note v = Cons.prems
  show ?case
  proof (cases "n < length (buf s)")
    case False
    then have "n = length (buf s)" using v by (simp add: rb_view_def)
    with rb_writeByte_full [OF v] show ?thesis by simp
  next
    case True
    have v1: "rb_view (append_data [c] s) R (n + 1)" using view_append(1) [OF v, of "[c]"] True by simp
    have len: "length (buf (append_data [c] s)) = length (buf s)"
      using view_wpos_less [OF v] True by (simp add: append_data_def)
    obtain m where m: "length (buf s) - n = Suc m" "length (buf s) - (n + 1) = m"
      using True by (cases "length (buf s) - n") auto
    have join: "append_data (take (length (buf s) - n) (c # p)) s =
        (if p = [] \<or> n + 1 = length (buf s) then append_data [c] s
         else append_data (take (length (buf s) - (n + 1)) p) (append_data [c] s))"
      using m append_data_Cons [OF v, of c "take m p"] True by (cases p; cases m) auto
    show ?thesis using Cons.IH [OF v1, unfolded len] rb_writeByte_ok [OF v True] True join m by simp
  qed
qed simp

lemma take_bytes_eq:
  assumes "rb_view s R n"
  shows "take_bytes k s = Some (take k (rb_contents s), if k = 0 \<or> n = 0 then s else advance (min n k) s)"
  using assms
proof (induction k arbitrary: s R n)
  case (Suc k)
  note v = Suc.prems
  show ?case
  proof (cases "n = 0")
    case True
    then show ?thesis using view_IsEmpty [OF v] view_length_contents [OF v] by simp
  next
    case False
    then have n: "0 < n" by simp
    have v1: "rb_view (advance 1 s) ((R + 1) mod length (buf s)) (n - 1)" "rb_contents (advance 1 s) = drop 1 (rb_contents s)"
      using view_advance [OF v, of 1] n by auto
    have "rb_contents s \<noteq> []" using view_length_contents [OF v] n by auto
    then have "take (Suc k) (rb_contents s) = hd (rb_contents s) # take k (drop 1 (rb_contents s))"
      by (cases "rb_contents s") auto
    moreover have "(if k = 0 \<or> n - 1 = 0 then advance 1 s else advance (min (n - 1) k) (advance 1 s)) =
        advance (min n (Suc k)) s"
      using n by (cases n; cases k) (simp_all add: advance_Suc [OF v])
    ultimately show ?thesis
      using Suc.IH [OF v1(1)] rb_takeByte_ok [OF v n] view_IsEmpty [OF v] False v1(2) by simp
  qed
qed simp

section \<open>The property\<close>

text \<open>C24. Moving a block is moving its bytes: on every well-formed buffer \<open>write(p)\<close> counts as many bytes,
  and leaves the same array, positions and flag, as \<open>writeByte\<close> for one byte of \<open>p\<close> after the other
  until one is refused, and it reports an error exactly when one was; \<open>read(p)\<close> delivers what taking
  single bytes until the buffer is empty delivers, leaves the same state, and does not touch the
  rest of \<open>p\<close>. (For an empty \<open>p\<close> both return before they get here.)\<close>

theorem block_moves_are_byte_moves:
  assumes "rb_wf s" and "p \<noteq> []"
  shows "(\<exists>n e s'. rb_write p s = Some ((int n, e), s') \<and> write_bytes p s = Some (n, s') \<and> (e = None \<longleftrightarrow> n = length p)) \<and>
    (\<exists>n p' e s'. rb_read p s = Some ((p', int n, e), s') \<and> take_bytes (length p) s = Some (take n p', s') \<and>
       drop n p' = drop n p)"
proof
  obtain R n where v: "rb_view s R n" using wf_view [OF assms(1)] .
  show "\<exists>n e s'. rb_write p s = Some ((int n, e), s') \<and> write_bytes p s = Some (n, s') \<and> (e = None \<longleftrightarrow> n = length p)"
  proof (cases "n = length (buf s)")
    case True
    then show ?thesis using rb_write_full [OF v] write_bytes_eq [OF v, of p] assms(2) by simp
  next
    case False
    then have "n < length (buf s)" using v by (simp add: rb_view_def)
    from rb_write_ok [OF v this assms(2)] write_bytes_eq [OF v, of p] False assms(2) show ?thesis
      by (simp add: min.commute)
  qed
  show "\<exists>n p' e s'. rb_read p s = Some ((p', int n, e), s') \<and> take_bytes (length p) s = Some (take n p', s') \<and>
       drop n p' = drop n p"
  proof (cases "n = 0")
    case True
    then show ?thesis
      using rb_read_empty [of s R p] v take_bytes_eq [OF v, of "length p"] view_length_contents [OF v] by simp
  next
    case False
    then have n: "0 < n" by simp
    have c: "length (rb_contents s) = n" using v by (rule view_length_contents)
    then have "take (length p) (rb_contents s) = take (min n (length p)) (rb_contents s)"
      by (metis min.commute take_all_iff take_take order_refl)
    with rb_read_ok [OF v n assms(2)] take_bytes_eq [OF v, of "length p"] n assms(2) c show ?thesis by simp
  qed
qed

theorem block_moves_are_byte_moves_witness:
  "rb_write [1, 2, 3, 4] (wrapped [7, 8, 9]) = map_option (\<lambda>(n, s). ((int n, Some ErrTooMuchDataToWrite), s))
     (write_bytes [1, 2, 3, 4] (wrapped [7, 8, 9])) \<and>
   (\<exists>n e s'. rb_write [1, 2, 3, 4] (wrapped [7, 8, 9]) = Some ((int n, e), s') \<and>
      write_bytes [1, 2, 3, 4] (wrapped [7, 8, 9]) = Some (n, s') \<and> (e = None \<longleftrightarrow> n = 4))"
proof
  show "rb_write [1, 2, 3, 4] (wrapped [7, 8, 9]) = map_option (\<lambda>(n, s). ((int n, Some ErrTooMuchDataToWrite), s))
     (write_bytes [1, 2, 3, 4] (wrapped [7, 8, 9]))"
    by code_simp
  show "\<exists>n e s'. rb_write [1, 2, 3, 4] (wrapped [7, 8, 9]) = Some ((int n, e), s') \<and>
      write_bytes [1, 2, 3, 4] (wrapped [7, 8, 9]) = Some (n, s') \<and> (e = None \<longleftrightarrow> n = 4)"
  proof -
    have len: "length [1, 2, 3, 4 :: byte] = 4" "[1, 2, 3, 4 :: byte] \<noteq> []" by simp_all
    show ?thesis
      using conjunct1 [OF block_moves_are_byte_moves [OF wrapped_wf(1) len(2)]] by (simp only: len(1))
  qed
qed

end
