(* ===== verification/RingBufferRuns.thy ===== *)
theory RingBufferRuns
  imports RingBufferConcCorrect
begin

text \<open>
  Runs of any number of goroutines over one ring buffer: the system invariant, the statements
  about every reachable state, and the replayed runs in which a goroutine sleeps although it
  could go on.
\<close>

section \<open>The scheduler only makes steps\<close>

lemma exec_step:
  assumes "rb_exec a \<sigma> = Some (l, \<sigma>')" "\<And>t c. a = Call t c \<Longrightarrow> A c"
  shows "rb_step A \<sigma> l \<sigma>'"
  using assms
  by (cases a) (auto split: if_splits option.splits bind_splits intro: rb_step.intros)

lemma run_prepend: "rb_run A \<sigma>' tr \<sigma>'' \<Longrightarrow> rb_step A \<sigma> l \<sigma>' \<Longrightarrow> rb_run A \<sigma> (l # tr) \<sigma>''"
proof (induction rule: rb_run.induct)
  case (run_refl \<sigma>')
  with rb_run.run_step [OF rb_run.run_refl, of A \<sigma> l] show ?case by simp
next
  case (run_step \<sigma>1 tr \<sigma>2 l' \<sigma>3)
  then have "rb_run A \<sigma> (l # tr) \<sigma>2" by simp
  from rb_run.run_step [OF this run_step(2)] show ?case by simp
qed

lemma replay_run:
  "rb_replay as \<sigma> = Some (tr, \<sigma>') \<Longrightarrow> (\<And>t c. Call t c \<in> set as \<Longrightarrow> A c) \<Longrightarrow> rb_run A \<sigma> tr \<sigma>'"
proof (induction as arbitrary: \<sigma> tr)
  case Nil
  then show ?case by (auto intro: rb_run.run_refl)
next
  case (Cons a as)
  then obtain l \<sigma>1 tr' where "rb_exec a \<sigma> = Some (l, \<sigma>1)" "rb_replay as \<sigma>1 = Some (tr', \<sigma>')" "tr = l # tr'"
    by (auto split: bind_splits)
  with Cons show ?case by (auto intro!: run_prepend exec_step)
qed

section \<open>The system invariant\<close>

definition readers :: "rb_system \<Rightarrow> nat set" where
  "readers \<sigma> = {t. \<exists>p. threads \<sigma> t = Some (ReadWait p)}"

definition sys_inv :: "rb_system \<Rightarrow> bool" where
  "sys_inv \<sigma> \<longleftrightarrow>
     rb_inv (rb \<sigma>) \<and> finite (dom (threads \<sigma>)) \<and> wg (rb \<sigma>) = card (readers \<sigma>) \<and>
     (\<forall>t pc. threads \<sigma> t = Some pc \<longrightarrow> pc_ok pc \<and> (pc = FlushLock \<longrightarrow> block (rb \<sigma>))) \<and>
     (\<forall>t\<in>readCond (rb \<sigma>). \<exists>pc. threads \<sigma> t = Some pc \<and> (pc = FlushWait \<or> waits_to_write pc)) \<and>
     (\<forall>t\<in>writeCond (rb \<sigma>). \<exists>pc. threads \<sigma> t = Some pc \<and> waits_to_read pc)"

lemma finite_readers: "finite (dom (threads \<sigma>)) \<Longrightarrow> finite (readers \<sigma>)"
  by (rule finite_subset [of _ "dom (threads \<sigma>)"]) (auto simp: readers_def)

lemma waits_pcs:
  "waits_to_read pc \<Longrightarrow> (\<exists>p. pc = ReadWait p) \<or> pc = ReadByteWait"
  "waits_to_write pc \<Longrightarrow> (\<exists>p n. pc = WriteWait p n) \<or> (\<exists>c. pc = WriteByteWait c)"
  by (cases pc; simp)+

lemma sys_enabled_awake:
  assumes "sys_inv \<sigma>" "threads \<sigma> t = Some pc" "rb_enabled t pc (rb \<sigma>)"
  shows "awake t (rb \<sigma>)" "\<And>r. pc \<noteq> Done r" "is_ReadWait pc \<Longrightarrow> 0 < wg (rb \<sigma>)"
proof -
  show "\<And>r. pc \<noteq> Done r" using assms(3) by auto
  have "t \<notin> readCond (rb \<sigma>) \<and> t \<notin> writeCond (rb \<sigma>)"
  proof (cases "pc = ResetWait")
    case True
    then show ?thesis using assms(1,2) by (auto simp: sys_inv_def dest!: bspec [of _ _ t])
  qed (use assms(3) in \<open>cases pc; simp\<close>)
  then show "awake t (rb \<sigma>)" using assms(1) by (simp add: awake_def sys_inv_def)
  assume "is_ReadWait pc"
  then have "t \<in> readers \<sigma>" using assms(2) by (cases pc) (auto simp: readers_def)
  moreover have "finite (readers \<sigma>)" using assms(1) by (simp add: sys_inv_def finite_readers)
  ultimately show "0 < wg (rb \<sigma>)"
    using assms(1) by (auto simp: sys_inv_def card_gt_0_iff)
qed

lemma sys_section:
  assumes inv: "sys_inv \<sigma>" and t: "threads \<sigma> t = Some pc" and en: "rb_enabled t pc (rb \<sigma>)"
  obtains pc' s' ev where "rb_section t pc (rb \<sigma>) = Some (pc', s', ev)" "section_ok t pc (rb \<sigma>) pc' s' ev"
proof -
  note aw = sys_enabled_awake [OF assms]
  have "pc_ok pc" "pc = FlushLock \<Longrightarrow> block (rb \<sigma>)" using inv t by (auto simp: sys_inv_def)
  then have "section_fine t pc (rb \<sigma>) (rb_section t pc (rb \<sigma>))"
    using aw by (intro rb_section_fine) auto
  with that show thesis by (auto simp: section_fine_def)
qed

lemma card_readers_update:
  assumes fin: "finite (readers \<sigma>)" and t: "threads \<sigma> t = Some pc"
  shows "card (readers (\<sigma>\<lparr>rb := s', threads := (threads \<sigma>)(t \<mapsto> pc')\<rparr>)) + (if is_ReadWait pc then 1 else 0)
    = card (readers \<sigma>) + (if is_ReadWait pc' then 1 else 0)"
proof -
  have R: "readers (\<sigma>\<lparr>rb := s', threads := (threads \<sigma>)(t \<mapsto> pc')\<rparr>)
      = (if is_ReadWait pc' then insert t (readers \<sigma>) else readers \<sigma> - {t})"
    by (cases pc') (auto simp: readers_def)
  have mem: "t \<in> readers \<sigma> \<longleftrightarrow> is_ReadWait pc" using t by (cases pc) (auto simp: readers_def)
  show ?thesis
  proof (cases "is_ReadWait pc")
    case True
    then have "Suc (card (readers \<sigma> - {t})) = card (readers \<sigma>)"
      using mem by (intro card_Suc_Diff1 [OF fin]) simp
    with True mem show ?thesis unfolding R by (simp add: insert_absorb)
  next
    case False
    with mem fin show ?thesis unfolding R by simp
  qed
qed

lemma sys_inv_step:
  assumes inv: "sys_inv \<sigma>" and step: "rb_step A \<sigma> (t, ev) \<sigma>'"
  shows "sys_inv \<sigma>' \<and> block (rb \<sigma>') = block (rb \<sigma>) \<and> size_of (rb \<sigma>') = size_of (rb \<sigma>) \<and>
    data_effect ev (rb_contents (rb \<sigma>)) (rb_contents (rb \<sigma>'))"
  using step
proof cases
  case (call c)
  have "readers \<sigma>' = readers \<sigma>" using call by (auto simp: readers_def)
  then show ?thesis using inv call by (auto simp: sys_inv_def)
next
  case (refused c r)
  have "readers \<sigma>' = readers \<sigma>" using refused by (auto simp: readers_def)
  then show ?thesis using inv refused by (auto simp: sys_inv_def)
next
  case (section_step pc pc' s')
  obtain ok: "section_ok t pc (rb \<sigma>) pc' s' ev"
    using sys_section [OF inv section_step(2,3)] section_step(4) by auto
  have fin: "finite (readers \<sigma>)" using inv by (simp add: sys_inv_def finite_readers)
  note card = card_readers_update [OF fin section_step(2), where s' = s' and pc' = pc', folded section_step(1)]
  have "wg s' = card (readers \<sigma>')"
    using card ok inv by (auto simp: section_ok_def sys_inv_def split: if_splits)
  moreover have "\<forall>u\<in>readCond s'. \<exists>pc. threads \<sigma>' u = Some pc \<and> (pc = FlushWait \<or> waits_to_write pc)"
    using ok inv section_step(1) by (auto simp: section_ok_def sys_inv_def)
  moreover have "\<forall>u\<in>writeCond s'. \<exists>pc. threads \<sigma>' u = Some pc \<and> waits_to_read pc"
    using ok inv section_step(1) by (auto simp: section_ok_def sys_inv_def)
  ultimately show ?thesis
    using ok inv section_step(1) by (auto simp: section_ok_def sys_inv_def)
qed

section \<open>Runs\<close>

text \<open>A new buffer in blocking or non-blocking mode, before any goroutine uses it.\<close>

definition rb_start :: "int \<Rightarrow> bool \<Rightarrow> rb_system option" where
  "rb_start sz b = do { s \<leftarrow> rb_New sz; Some (rb_system_init (SetBlocking b s)) }"

lemma rb_start_inv:
  assumes "rb_start sz b = Some \<sigma>" "0 < sz"
  shows "sys_inv \<sigma>" "rb_contents (rb \<sigma>) = []" "size_of (rb \<sigma>) = sz" "threads \<sigma> = Map.empty"
    "block (rb \<sigma>) = b" "readCond (rb \<sigma>) = {}"
proof -
  define s where "s = SetBlocking b \<lparr>buf = replicate (nat sz) 0, size_of = sz, rpos = 0, wpos = 0,
    isFull = False, err = None, block = False, wg = 0, readCond = {}, writeCond = {}, orphaned = {}\<rparr>"
  have \<sigma>: "\<sigma> = rb_system_init s"
    using assms by (simp add: rb_start_def rb_New_def s_def)
  have wf: "rb_wf s" using assms(2) by (simp add: s_def SetBlocking_def rb_wf_def Let_def)
  then have c: "rb_contents s = []"
    by (simp add: contents_empty_iff) (simp add: s_def SetBlocking_def Let_def)
  have "readers \<sigma> = {}" by (simp add: readers_def \<sigma> rb_system_init_def)
  with wf c show "sys_inv \<sigma>"
    by (simp add: sys_inv_def \<sigma> rb_system_init_def rb_inv_def) (simp add: s_def SetBlocking_def Let_def)
  show "rb_contents (rb \<sigma>) = []" "threads \<sigma> = Map.empty" using c by (simp_all add: \<sigma> rb_system_init_def)
  show "size_of (rb \<sigma>) = sz" "block (rb \<sigma>) = b" "readCond (rb \<sigma>) = {}"
    by (simp_all add: \<sigma> rb_system_init_def s_def SetBlocking_def Let_def)
qed

text \<open>The specification: a queue of bytes, fed and drained by the labels of a run.\<close>

fun queue_step :: "rb_event \<Rightarrow> byte list \<Rightarrow> byte list option" where
  "queue_step Quiet c = Some c"
| "queue_step (Put q) c = Some (c @ q)"
| "queue_step (Took q) c = (if take (length q) c = q then Some (drop (length q) c) else None)"
| "queue_step Cleared c = Some []"

fun queue_run :: "rb_label list \<Rightarrow> byte list \<Rightarrow> byte list option" where
  "queue_run [] c = Some c"
| "queue_run (l # tr) c = do { c \<leftarrow> queue_step (snd l) c; queue_run tr c }"

lemma queue_run_append: "queue_run (tr @ [l]) c = do { c \<leftarrow> queue_run tr c; queue_step (snd l) c }"
  by (induction tr arbitrary: c) (auto split: bind_split)

lemma data_effect_queue: "data_effect ev c c' \<Longrightarrow> queue_step ev c = Some c'"
  by (cases ev) auto

lemma run_inv:
  assumes "rb_run A \<sigma>0 tr \<sigma>" "sys_inv \<sigma>0"
  shows "sys_inv \<sigma> \<and> block (rb \<sigma>) = block (rb \<sigma>0) \<and> size_of (rb \<sigma>) = size_of (rb \<sigma>0) \<and>
    queue_run tr (rb_contents (rb \<sigma>0)) = Some (rb_contents (rb \<sigma>))"
  using assms
proof (induction rule: rb_run.induct)
  case (run_step \<sigma>0 tr \<sigma> l \<sigma>')
  obtain t ev where l: "l = (t, ev)" by (cases l)
  from run_step sys_inv_step [of \<sigma> A t ev \<sigma>'] data_effect_queue [of ev] show ?case
    by (auto simp: l queue_run_append)
qed simp

lemma start_run:
  assumes "rb_start sz b = Some \<sigma>0" "0 < sz" "rb_run A \<sigma>0 tr \<sigma>"
  shows "sys_inv \<sigma>" "block (rb \<sigma>) = b" "size_of (rb \<sigma>) = sz"
    "queue_run tr [] = Some (rb_contents (rb \<sigma>))"
  using run_inv [OF assms(3)] rb_start_inv [OF assms(1,2)] by auto

lemma contents_le_size: "rb_wf s \<Longrightarrow> int (length (rb_contents s)) \<le> size_of s"
proof (erule wf_view)
  fix R n assume v: "rb_view s R n"
  then show ?thesis using view_length_contents [OF v] by (simp add: rb_view_def)
qed

fun bytes_put :: "rb_event \<Rightarrow> byte list" where
  "bytes_put (Put q) = q"
| "bytes_put _ = []"

fun bytes_taken :: "rb_event \<Rightarrow> byte list" where
  "bytes_taken (Took q) = q"
| "bytes_taken _ = []"

definition all_put :: "rb_label list \<Rightarrow> byte list" where
  "all_put tr = concat (map (bytes_put \<circ> snd) tr)"

definition all_taken :: "rb_label list \<Rightarrow> byte list" where
  "all_taken tr = concat (map (bytes_taken \<circ> snd) tr)"

lemma queue_run_fifo:
  "queue_run tr c = Some c' \<Longrightarrow> \<forall>l\<in>set tr. snd l \<noteq> Cleared \<Longrightarrow> c @ all_put tr = all_taken tr @ c'"
proof (induction tr arbitrary: c)
  case (Cons l tr)
  then obtain c1 where c1: "queue_step (snd l) c = Some c1" "queue_run tr c1 = Some c'"
    by (auto split: bind_splits)
  then have "c1 @ all_put tr = all_taken tr @ c'" using Cons by auto
  moreover have "c @ bytes_put (snd l) = bytes_taken (snd l) @ c1"
    using c1(1) Cons.prems(2)
    by (cases "snd l") (auto split: if_splits, metis append_take_drop_id)
  ultimately show ?case by (simp add: all_put_def all_taken_def flip: append_assoc) (metis append_assoc)
qed (simp add: all_put_def all_taken_def)

section \<open>A concrete buffer, and runs on it\<close>

lemmas section_defs =
  Read_start_def Read_resume_def read_try_def read_end_def ReadByte_section_def Write_start_def
  write_round_def write_end_def Flush_start_def Flush_lock_def finish_def wait_read_def wait_write_def
  broadcast_read_def broadcast_write_def CloseWriter_def

lemmas data_defs =
  rb_read_def rb_copy_out_def rb_write_def rb_copy_in_def rb_wrap_def rb_takeByte_def rb_IsEmpty_def
  readErr_def writeErr_def setErr_def transient_def go_slice_def go_copy_def copy_into_def go_mod_def
  index_at_def rb_contents_def rb_Length_def ring_def

definition demo :: "rb_system" where
  "demo = rb_system_init (SetBlocking True
     \<lparr>buf = [0], size_of = 1, rpos = 0, wpos = 0, isFull = False, err = None, block = False,
      wg = 0, readCond = {}, writeCond = {}, orphaned = {}\<rparr>)"

lemma demo_start: "rb_start 1 True = Some demo"
  by (simp add: rb_start_def rb_New_def demo_def)

definition demo_at :: "byte list \<Rightarrow> bool \<Rightarrow> nat \<Rightarrow> nat set \<Rightarrow> nat set \<Rightarrow> (nat \<rightharpoonup> rb_pc) \<Rightarrow> rb_system" where
  "demo_at b f g R W T =
     \<lparr>rb = \<lparr>buf = b, size_of = 1, rpos = 0, wpos = 0, isFull = f, err = None, block = True,
            wg = g, readCond = R, writeCond = W, orphaned = {}\<rparr>,
      threads = T\<rparr>"

lemmas run_defs = demo_def demo_at_def rb_system_init_def SetBlocking_def Let_def section_defs data_defs

lemma write_call_run:
  "rb_replay [Call 1 (CWrite [1, 2])] demo =
    Some ([(1, Quiet)], demo_at [0] False 0 {} {} [1 \<mapsto> Start (CWrite [1, 2])])"
  by (simp add: run_defs)

lemma write_wait_run:
  "rb_replay [Call 1 (CWrite [1, 2]), Section 1] demo =
    Some ([(1, Quiet), (1, Put [1])], demo_at [1] True 0 {1} {} [1 \<mapsto> WriteWait [2] 1])"
  by (simp add: run_defs)

lemma write_done_run:
  "rb_replay [Section 1, Call 2 (CRead [0]), Section 2, Section 1]
      (demo_at [0] False 0 {} {} [1 \<mapsto> Start (CWrite [1, 2])]) =
    Some ([(1, Put [1]), (2, Quiet), (2, Took [1]), (1, Put [2])],
      demo_at [2] True 0 {} {} [2 \<mapsto> Done (RRead [1] 1 None), 1 \<mapsto> Done (RWrite 2 None)])"
  by (simp add: run_defs)

lemma read_call_run:
  "rb_replay [Call 1 (CRead [0, 0])] demo =
    Some ([(1, Quiet)], demo_at [0] False 0 {} {} [1 \<mapsto> Start (CRead [0, 0])])"
  by (simp add: run_defs)

lemma read_wait_run:
  "rb_replay [Call 1 (CRead [0, 0]), Section 1] demo =
    Some ([(1, Quiet), (1, Quiet)], demo_at [0] False 1 {} {1} [1 \<mapsto> ReadWait [0, 0]])"
  by (simp add: run_defs)

lemma read_done_run:
  "rb_replay [Section 1, Call 2 (CWrite [5]), Section 2, Section 1]
      (demo_at [0] False 0 {} {} [1 \<mapsto> Start (CRead [0, 0])]) =
    Some ([(1, Quiet), (2, Quiet), (2, Put [5]), (1, Took [5])],
      demo_at [5] False 0 {} {} [2 \<mapsto> Done (RWrite 1 None), 1 \<mapsto> Done (RRead [5, 0] 1 None)])"
  by (simp add: run_defs)

section \<open>Statements about every reachable state\<close>



text \<open>C35. Refinement: every run of the machine, resets included, is a run of a plain queue of bytes
  that starts empty: its labels, replayed on the queue, are all accepted and lead to the
  contents of the buffer.\<close>
theorem rb_runs_are_queue_runs:
  assumes "rb_start sz b = Some \<sigma>0" "0 < sz" "rb_run A \<sigma>0 tr \<sigma>"
  shows "queue_run tr [] = Some (rb_contents (rb \<sigma>))"
  by (rule start_run(4) [OF assms])

theorem rb_runs_are_queue_runs_witness:
  "queue_run [(1, Quiet), (1, Put [1])] [] = Some (rb_contents (rb (demo_at [1] True 0 {1} {} [1 \<mapsto> WriteWait [2] 1])))"
  by (rule rb_runs_are_queue_runs [OF demo_start _ replay_run [OF write_wait_run, of "\<lambda>_. True"]]) simp_all

text \<open>C10. As long as nobody resets the buffer, all bytes written so far, in the order of the
  writing sections, are all bytes read so far followed by what the buffer holds; it never
  holds more than its size.\<close>
theorem rb_fifo:
  assumes "rb_start sz b = Some \<sigma>0" "0 < sz" "rb_run A \<sigma>0 tr \<sigma>" "\<forall>l\<in>set tr. snd l \<noteq> Cleared"
  shows "all_put tr = all_taken tr @ rb_contents (rb \<sigma>) \<and> int (length (rb_contents (rb \<sigma>))) \<le> sz"
proof -
  note run = start_run [OF assms(1-3)]
  have "rb_wf (rb \<sigma>)" using run(1) by (simp add: sys_inv_def rb_inv_def)
  with queue_run_fifo [OF run(4) assms(4)] contents_le_size run(3) show ?thesis by fastforce
qed

theorem rb_fifo_witness:
  "all_put [(1, Quiet), (1, Put [1])] =
    all_taken [(1, Quiet), (1, Put [1])] @ rb_contents (rb (demo_at [1] True 0 {1} {} [1 \<mapsto> WriteWait [2] 1]))"
  using rb_fifo [OF demo_start _ replay_run [OF write_wait_run, of "\<lambda>_. True"]] by simp

text \<open>C36. The wait group counts exactly the goroutines that sleep inside \<open>Read\<close>, so \<open>Reset\<close> goes
  past \<open>wg.Wait\<close> exactly when no reader is inside.\<close>
theorem Reset_waits_for_readers:
  assumes "rb_start sz b = Some \<sigma>0" "0 < sz" "rb_run A \<sigma>0 tr \<sigma>"
  shows "wg (rb \<sigma>) = card {t. \<exists>p. threads \<sigma> t = Some (ReadWait p)} \<and>
    rb_enabled t ResetWait (rb \<sigma>) = (\<forall>u p. threads \<sigma> u \<noteq> Some (ReadWait p))"
proof -
  note inv = start_run(1) [OF assms]
  then have "finite (readers \<sigma>)" "wg (rb \<sigma>) = card (readers \<sigma>)"
    by (simp_all add: sys_inv_def finite_readers)
  then show ?thesis by (auto simp: readers_def)
qed

theorem Reset_waits_for_readers_witness:
  "rb_enabled 2 ResetWait (rb (demo_at [0] False 1 {} {1} [1 \<mapsto> ReadWait [0, 0]])) =
    (\<forall>u p. [1 \<mapsto> ReadWait [0, 0]] u \<noteq> Some (ReadWait p))"
  using Reset_waits_for_readers [OF demo_start _ replay_run [OF read_wait_run, of "\<lambda>_. True"], of 2]
  by (simp add: demo_at_def)

text \<open>C20. No lost wake-up for readers: a goroutine sleeps in \<open>Read\<close> or \<open>ReadByte\<close> only in a blocking
  buffer that is empty and carries no error.\<close>
theorem sleeping_reader_has_nothing_to_read:
  assumes "rb_start sz b = Some \<sigma>0" "0 < sz" "rb_run A \<sigma>0 tr \<sigma>" "t \<in> writeCond (rb \<sigma>)"
  shows "b \<and> rb_contents (rb \<sigma>) = [] \<and> err (rb \<sigma>) = None"
  using start_run [OF assms(1-3)] assms(4) by (auto simp: sys_inv_def rb_inv_def)

theorem sleeping_reader_has_nothing_to_read_witness:
  "rb_contents (rb (demo_at [0] False 1 {} {1} [1 \<mapsto> ReadWait [0, 0]])) = []"
  using sleeping_reader_has_nothing_to_read
    [OF demo_start _ replay_run [OF read_wait_run, of "\<lambda>_. True"], of 1]
  by (simp add: demo_at_def)

section \<open>Without \<open>ReadByte\<close> and \<open>Reset\<close>\<close>

fun wakes_writers :: "rb_call \<Rightarrow> bool" where
  "wakes_writers CReadByte = False"
| "wakes_writers CReset = False"
| "wakes_writers _ = True"

definition writers_inv :: "rb_system \<Rightarrow> bool" where
  "writers_inv \<sigma> \<longleftrightarrow>
     (\<forall>t pc. threads \<sigma> t = Some pc \<longrightarrow> \<not> frees_silently pc) \<and>
     (\<forall>t\<in>readCond (rb \<sigma>). threads \<sigma> t \<noteq> Some FlushWait \<longrightarrow> isFull (rb \<sigma>))"

lemma frees_silently_Start: "frees_silently (Start c) = (\<not> wakes_writers c)"
  by (cases c) auto

lemma writers_inv_step:
  assumes inv: "sys_inv \<sigma>" "writers_inv \<sigma>" and step: "rb_step wakes_writers \<sigma> (t, ev) \<sigma>'"
  shows "writers_inv \<sigma>'"
  using step
proof cases
  case (call c)
  have "t \<notin> readCond (rb \<sigma>)" using inv(1) call(3) by (auto simp: sys_inv_def)
  then show ?thesis using inv(2) call by (auto simp: writers_inv_def frees_silently_Start)
next
  case (refused c r)
  have "t \<notin> readCond (rb \<sigma>)" using inv(1) refused(3) by (auto simp: sys_inv_def)
  then show ?thesis using inv(2) refused by (auto simp: writers_inv_def)
next
  case (section_step pc pc' s')
  have ok: "section_ok t pc (rb \<sigma>) pc' s' ev"
    using sys_section [OF inv(1) section_step(2,3)] section_step(4) by auto
  have pc: "\<not> frees_silently pc" using inv(2) section_step(2) by (auto simp: writers_inv_def)
  have "isFull s'" if u: "u \<in> readCond s'" "threads \<sigma>' u \<noteq> Some FlushWait" for u
  proof (cases "u = t")
    case True
    then show ?thesis using ok u section_step(1) by (auto simp: section_ok_def)
  next
    case False
    then have old: "u \<in> readCond (rb \<sigma>)" using ok u(1) by (auto simp: section_ok_def)
    then have "isFull (rb \<sigma>)" using inv(2) u(2) False section_step(1) by (auto simp: writers_inv_def)
    with ok pc old u(1) show ?thesis by (auto simp: section_ok_def)
  qed
  then show ?thesis
    using inv(2) ok pc section_step(1) by (auto simp: writers_inv_def section_ok_def)
qed

lemma run_writers_inv:
  assumes "rb_run A \<sigma>0 tr \<sigma>" "A = wakes_writers" "sys_inv \<sigma>0" "writers_inv \<sigma>0"
  shows "writers_inv \<sigma>"
  using assms
proof (induction rule: rb_run.induct)
  case (run_step \<sigma>0 tr \<sigma> l \<sigma>')
  then show ?case
    using run_inv [OF run_step(1)] writers_inv_step [of \<sigma> "fst l" "snd l" \<sigma>'] by simp
qed simp

text \<open>C21. When nobody uses \<open>ReadByte\<close> or \<open>Reset\<close>, a goroutine sleeps in \<open>Write\<close> or \<open>WriteByte\<close>
  only while the buffer is full, so a reader and a writer never sleep at the same time.\<close>
theorem sleeping_writer_has_no_room:
  assumes "rb_start sz b = Some \<sigma>0" "0 < sz" "rb_run wakes_writers \<sigma>0 tr \<sigma>"
    and "t \<in> readCond (rb \<sigma>)" "threads \<sigma> t \<noteq> Some FlushWait"
  shows "isFull (rb \<sigma>) \<and> int (length (rb_contents (rb \<sigma>))) = sz \<and> writeCond (rb \<sigma>) = {}"
proof -
  note start = rb_start_inv [OF assms(1,2)] and run = start_run [OF assms(1-3)]
  have "writers_inv \<sigma>0" using start by (simp add: writers_inv_def)
  then have full: "isFull (rb \<sigma>)"
    using run_writers_inv [OF assms(3) refl start(1)] assms(4,5) by (auto simp: writers_inv_def)
  have inv: "rb_inv (rb \<sigma>)" using run(1) by (simp add: sys_inv_def)
  then obtain R n where v: "rb_view (rb \<sigma>) R n" using wf_view [OF inv_wf] by blast
  then have "int (length (rb_contents (rb \<sigma>))) = sz"
    using full view_length_contents [OF v] run(3) by (simp add: rb_view_def)
  with full inv assms(2) show ?thesis by (auto simp: rb_inv_def)
qed

theorem sleeping_writer_has_no_room_witness:
  "isFull (rb (demo_at [1] True 0 {1} {} [1 \<mapsto> WriteWait [2] 1]))"
  using sleeping_writer_has_no_room
    [OF demo_start _ replay_run [OF write_wait_run, of wakes_writers], of 1]
  by (auto simp: demo_at_def)

section \<open>What \<open>Write\<close> and \<open>Read\<close> return\<close>

definition put_by :: "nat \<Rightarrow> rb_label list \<Rightarrow> byte list" where
  "put_by t tr = concat (map (bytes_put \<circ> snd) (filter (\<lambda>l. fst l = t) tr))"

text \<open>
  A \<open>Write\<close> of \<open>p\<close> that has put \<open>H\<close> into the buffer so far: the rest and the count it carries
  over a wait fit \<open>H\<close>, and so does the result.
\<close>

fun write_promise :: "byte list \<Rightarrow> byte list \<Rightarrow> rb_pc \<Rightarrow> bool" where
  "write_promise p H (Start c) = (c = CWrite p \<and> H = [])"
| "write_promise p H (WriteWait rest w) = (p = H @ rest \<and> w = int (length H))"
| "write_promise p H (Done (RWrite n e)) =
     (take (length H) p = H \<and> n = int (length H) \<and> (e = None \<longrightarrow> H = p))"
| "write_promise p H _ = False"

lemma setErr_None: "setErr e s = (None, s') \<Longrightarrow> e = None"
  by (auto simp: setErr_def split: if_splits)

lemma write_end_promise:
  assumes "p = H @ new @ rest" "e = None \<Longrightarrow> rest = []" "w = int (length (H @ new))"
    and "write_end w e new s = Some (pc', s', ev)"
  shows "write_promise p (H @ bytes_put ev) pc'"
proof -
  obtain s1 e' where e': "setErr e s1 = (e', s')" "pc' = Done (RWrite w e')" "ev = Put new"
    using assms(4) unfolding write_end_def Let_def by (auto split: prod.splits)
  then have "rest = []" if "e' = None" using that assms(2) setErr_None by blast
  with e'(2,3) assms(1,3) show ?thesis by simp
qed

lemma write_round_promise:
  assumes "rb_wf s" "p = H @ rest" "w = int (length H)"
    and res: "write_round t rest w s = Some (pc', s', ev)"
  shows "write_promise p (H @ bytes_put ev) pc'"
proof (cases "rest = []")
  case True
  with res assms(2,3) show ?thesis
    by (intro write_end_promise [of p H "[]" "[]" None w]) (auto simp: write_round_def)
next
  case ne: False
  show ?thesis
  proof (cases rule: write_cases [OF assms(1) ne])
    case 1
    have sl: "go_slice rest 0 (int (length rest)) = Some rest" by (simp add: go_slice_def)
    have fin: "write_promise p (H @ bytes_put ev) pc'"
      if "write_end w e [] s1 = Some (pc', s', ev)" "e \<noteq> None" for e s1
      using that assms(2,3) by (intro write_end_promise [of p H "[]" rest e w]) auto
    have "fst (setErr (Some ErrIsFull) s) \<noteq> None" using setErr_None by (metis option.distinct(1) prod.collapse)
    with res 1(2) ne sl fin assms(2,3) show ?thesis
      by (auto simp: write_round_def Let_def split: if_splits prod.splits)
  next
    case (2 q e)
    have q: "take (length q) rest = q" "length q \<le> length rest"
      using 2(1,2) by (cases "length rest \<le> room s"; auto simp: min_def)+
    have sl: "go_slice rest (int (length q)) (int (length rest)) = Some (drop (length q) rest)"
      using q(2) by (simp add: go_slice_def)
    have rest: "rest = q @ drop (length q) rest" using q(1) by (metis append_take_drop_id)
    have all: "drop (length q) rest = []" if "e = None" using 2(2,5) that by (auto split: if_splits)
    have fin: "write_promise p (H @ bytes_put ev) pc'"
      if "write_end (w + int (length q)) e' q s1 = Some (pc', s', ev)" "e' = None \<Longrightarrow> e = None" for e' s1
      using that assms(2,3) rest all by (intro write_end_promise [of p H q "drop (length q) rest" e']) auto
    show ?thesis
      using res 2(4) ne sl fin assms(2,3) rest q(1) setErr_None [of e "append_data q s"]
      by (auto simp: write_round_def Let_def split: if_splits prod.splits)
  qed
qed

lemma write_step_promise:
  assumes inv: "sys_inv \<sigma>" and t: "threads \<sigma> t = Some pc" "write_promise p H pc"
    and step: "rb_step A \<sigma> (t, ev) \<sigma>'"
  shows "\<exists>pc'. threads \<sigma>' t = Some pc' \<and> write_promise p (H @ bytes_put ev) pc'"
  using step
proof cases
  case (section_step pc1 pc' s')
  have pc: "pc1 = pc" using section_step(2) t(1) by simp
  have wf: "rb_wf (rb \<sigma>)" using inv by (simp add: sys_inv_def rb_inv_def)
  have "write_promise p (H @ bytes_put ev) pc'"
  proof (cases pc)
    case (Start c)
    then have c: "c = CWrite p" "H = []" using t(2) by auto
    show ?thesis
      using section_step(4) write_round_promise [OF wf, of p "[]" p 0 t pc' s' ev]
      by (auto simp: pc Start c Write_start_def finish_def Let_def split: prod.splits if_splits option.splits)
  next
    case (WriteWait rest w)
    with section_step(4) t(2) write_round_promise [OF wf, of p H rest w] show ?thesis
      by (auto simp: pc)
  qed (use t(2) section_step(3) in \<open>auto simp: pc\<close>)
  with section_step(1) show ?thesis by simp
next
  case (refused c r)
  with t show ?thesis by auto
qed (use t in simp)

lemma other_step: "rb_step A \<sigma> (u, ev) \<sigma>' \<Longrightarrow> u \<noteq> t \<Longrightarrow> threads \<sigma>' t = threads \<sigma> t"
  by (erule rb_step.cases) auto

text \<open>A promise about the bytes one goroutine moved, kept by its own steps, holds along a run.\<close>

lemma run_promise:
  assumes "rb_run A \<sigma>0 tr \<sigma>" "sys_inv \<sigma>0" "threads \<sigma>0 t = Some pc0" "Q [] pc0"
    and step: "\<And>\<sigma> \<sigma>' ev H pc. sys_inv \<sigma> \<Longrightarrow> threads \<sigma> t = Some pc \<Longrightarrow> Q H pc \<Longrightarrow>
      rb_step A \<sigma> (t, ev) \<sigma>' \<Longrightarrow> \<exists>pc'. threads \<sigma>' t = Some pc' \<and> Q (H @ f ev) pc'"
  shows "\<exists>pc. threads \<sigma> t = Some pc \<and> Q (concat (map (f \<circ> snd) (filter (\<lambda>l. fst l = t) tr))) pc"
  using assms(1-4)
proof (induction rule: rb_run.induct)
  case (run_step \<sigma>0 tr \<sigma> l \<sigma>')
  let ?H = "concat (map (f \<circ> snd) (filter (\<lambda>l. fst l = t) tr))"
  from run_step.IH [OF run_step.prems] obtain pc where pc: "threads \<sigma> t = Some pc" "Q ?H pc"
    by (elim exE conjE)
  obtain u ev where l: "l = (u, ev)" by (cases l)
  have inv: "sys_inv \<sigma>" using run_inv [OF run_step(1,4)] by simp
  show ?case
  proof (cases "u = t")
    case True
    with step [OF inv pc] run_step(2) show ?thesis by (simp add: l o_def)
  next
    case False
    with other_step [of A \<sigma> u ev \<sigma>' t] run_step(2) pc show ?thesis by (simp add: l o_def)
  qed
qed simp

text \<open>C22. The contract of \<open>Write\<close>, however its waits interleave with other goroutines: the count
  it returns is the number of bytes it put into the buffer, these are the first bytes of \<open>p\<close>,
  and whenever it returns fewer than all it returns an error.\<close>
theorem Write_returns_what_it_put:
  assumes "rb_start sz b = Some \<sigma>0" "0 < sz" "rb_run A \<sigma>0 tr0 \<sigma>1"
    and "threads \<sigma>1 t = Some (Start (CWrite p))" "rb_run A \<sigma>1 tr \<sigma>2"
    and "threads \<sigma>2 t = Some (Done r)"
  shows "\<exists>n e. r = RWrite n e \<and> 0 \<le> n \<and> n \<le> int (length p) \<and>
    put_by t tr = take (nat n) p \<and> (n < int (length p) \<longrightarrow> e \<noteq> None)"
proof -
  have "\<exists>pc. threads \<sigma>2 t = Some pc \<and> write_promise p (put_by t tr) pc"
    unfolding put_by_def
    by (rule run_promise [OF assms(5) start_run(1) [OF assms(1-3)] assms(4)])
      (auto intro: write_step_promise)
  with assms(6) have prom: "write_promise p (put_by t tr) (Done r)" by simp
  then obtain n e where r: "r = RWrite n e" by (cases r) auto
  then have n: "take (nat n) p = put_by t tr" "n = int (length (put_by t tr))"
    "e = None \<Longrightarrow> put_by t tr = p"
    using prom by simp_all
  then have "length (put_by t tr) \<le> length p" by (metis length_take min.cobounded1)
  with n r show ?thesis by auto
qed

theorem Write_returns_what_it_put_witness:
  "put_by 1 [(1, Put [1]), (2, Quiet), (2, Took [1]), (1, Put [2])] = take (nat 2) [1, 2]"
  using Write_returns_what_it_put
    [OF demo_start _ replay_run [OF write_call_run, of "\<lambda>_. True"] _
      replay_run [OF write_done_run, of "\<lambda>_. True"], of 1 "[1, 2]" "RWrite 2 None"]
  by (simp add: demo_at_def)

text \<open>The same for \<open>Read\<close>: what is taken out is what it returns.\<close>

definition took_by :: "nat \<Rightarrow> rb_label list \<Rightarrow> byte list" where
  "took_by t tr = concat (map (bytes_taken \<circ> snd) (filter (\<lambda>l. fst l = t) tr))"

fun read_promise :: "byte list \<Rightarrow> byte list \<Rightarrow> rb_pc \<Rightarrow> bool" where
  "read_promise p H (Start c) = (c = CRead p \<and> H = [])"
| "read_promise p H (ReadWait q) = (q = p \<and> p \<noteq> [] \<and> H = [])"
| "read_promise p H (Done (RRead q n e)) =
     (n = int (length H) \<and> length H \<le> length p \<and> q = H @ drop (length H) p \<and>
      (p \<noteq> [] \<longrightarrow> H = [] \<longrightarrow> e \<noteq> None))"
| "read_promise p H _ = False"

lemma read_try_promise:
  assumes "rb_inv s" "p \<noteq> []" "read_try t p s = Some (pc', s', ev)"
  shows "read_promise p (bytes_taken ev) pc'"
proof (cases rule: read_cases [OF inv_wf [OF assms(1)] assms(2)])
  case 1
  with assms(2,3) show ?thesis by (auto simp: read_try_def read_end_def Let_def split: if_splits)
next
  case (2 k e)
  have "e \<noteq> Some ErrIsEmpty"
    using 2(4) assms(1) by (auto simp: rb_inv_def transient_def readErr_def split: option.splits if_splits)
  moreover have "k \<le> length (rb_contents s)" "k \<le> length p" using 2(2) by auto
  ultimately show ?thesis
    using assms(2,3) 2(1,3)
    by (auto simp: read_try_def read_end_def Let_def split: if_splits)
qed

lemma read_end_nothing_promise:
  "read_end p 0 (Some e) s = Some (pc', s', ev) \<Longrightarrow> read_promise p (bytes_taken ev) pc'"
  by (auto simp: read_end_def)

lemma read_step_promise:
  assumes inv: "sys_inv \<sigma>" and t: "threads \<sigma> t = Some pc" "read_promise p H pc"
    and step: "rb_step A \<sigma> (t, ev) \<sigma>'"
  shows "\<exists>pc'. threads \<sigma>' t = Some pc' \<and> read_promise p (H @ bytes_taken ev) pc'"
  using step
proof cases
  case (section_step pc1 pc' s')
  have pc: "pc1 = pc" using section_step(2) t(1) by simp
  have s: "rb_inv (rb \<sigma>)" using inv by (simp add: sys_inv_def)
  have s': "rb_inv ((rb \<sigma>)\<lparr>wg := g\<rparr>)" for g using s by (simp add: rb_inv_def)
  have "read_promise p (H @ bytes_taken ev) pc'"
  proof (cases pc)
    case (Start c)
    then have c: "c = CRead p" "H = []" using t(2) by auto
    show ?thesis
      using section_step(4) read_try_promise [OF s', of p t "wg (rb \<sigma>) + 1" pc' s' ev]
      by (auto simp: pc Start c Read_start_def finish_def split: if_splits option.splits)
  next
    case (ReadWait q)
    with section_step(4) t(2) read_try_promise [OF s, of p t pc' s' ev]
      read_end_nothing_promise [of p _ "rb \<sigma>" pc' s' ev] show ?thesis
      by (auto simp: pc Read_resume_def split: option.splits)
  qed (use t(2) section_step(3) in \<open>auto simp: pc\<close>)
  with section_step(1) show ?thesis by simp
next
  case (refused c r)
  with t show ?thesis by auto
qed (use t in simp)

text \<open>C23. The contract of \<open>Read\<close>, however it waits: the bytes it took out of the buffer are the
  first \<open>n\<close> bytes of the caller's slice, the rest of the slice is untouched, and a read into a
  non-empty slice never returns 0 bytes without an error.\<close>
theorem Read_returns_what_it_took:
  assumes "rb_start sz b = Some \<sigma>0" "0 < sz" "rb_run A \<sigma>0 tr0 \<sigma>1"
    and "threads \<sigma>1 t = Some (Start (CRead p))" "rb_run A \<sigma>1 tr \<sigma>2"
    and "threads \<sigma>2 t = Some (Done r)"
  shows "\<exists>q n e. r = RRead q n e \<and> 0 \<le> n \<and> n \<le> int (length p) \<and>
    took_by t tr = take (nat n) q \<and> drop (nat n) q = drop (nat n) p \<and>
    (p \<noteq> [] \<longrightarrow> n = 0 \<longrightarrow> e \<noteq> None)"
proof -
  have "\<exists>pc. threads \<sigma>2 t = Some pc \<and> read_promise p (took_by t tr) pc"
    unfolding took_by_def
    by (rule run_promise [OF assms(5) start_run(1) [OF assms(1-3)] assms(4)])
      (auto intro: read_step_promise)
  with assms(6) have "read_promise p (took_by t tr) (Done r)" by simp
  then show ?thesis by (cases r) auto
qed

theorem Read_returns_what_it_took_witness:
  "took_by 1 [(1, Quiet), (2, Quiet), (2, Put [5]), (1, Took [5])] = take (nat 1) [5, 0]"
  using Read_returns_what_it_took
    [OF demo_start _ replay_run [OF read_call_run, of "\<lambda>_. True"] _
      replay_run [OF read_done_run, of "\<lambda>_. True"], of 1 "[0, 0]" "RRead [5, 0] 1 None"]
  by (simp add: demo_at_def)

section \<open>Runs that leave a goroutine asleep\<close>

definition no_one_runs :: "rb_system \<Rightarrow> bool" where
  "no_one_runs \<sigma> \<longleftrightarrow> {t. \<exists>pc. threads \<sigma> t = Some pc \<and> rb_enabled t pc (rb \<sigma>)} = {}"

lemma ReadByte_run:
  "rb_replay [Call 1 (CWrite [1, 2]), Section 1, Call 2 CReadByte, Section 2] demo =
    Some ([(1, Quiet), (1, Put [1]), (2, Quiet), (2, Took [1])],
      \<lparr>rb = \<lparr>buf = [1], size_of = 1, rpos = 0, wpos = 0, isFull = False, err = None, block = True,
             wg = 0, readCond = {1}, writeCond = {}, orphaned = {}\<rparr>,
       threads = [1 \<mapsto> WriteWait [2] 1, 2 \<mapsto> Done (RByte 1 None)]\<rparr>)"
  by (simp add: demo_def rb_system_init_def SetBlocking_def Let_def section_defs data_defs)

lemma Flush_run:
  "rb_replay [Call 1 (CWrite [1]), Section 1, Call 2 CFlush, Section 2, Call 3 (CRead [0]), Section 3,
      Section 2] demo =
    Some ([(1, Quiet), (1, Put [1]), (2, Quiet), (2, Quiet), (3, Quiet), (3, Took [1]), (2, Quiet)],
      \<lparr>rb = \<lparr>buf = [1], size_of = 1, rpos = 0, wpos = 0, isFull = False, err = None, block = True,
             wg = 0, readCond = {2}, writeCond = {}, orphaned = {}\<rparr>,
       threads = [1 \<mapsto> Done (RWrite 1 None), 3 \<mapsto> Done (RRead [1] 1 None), 2 \<mapsto> FlushWait]\<rparr>)"
  by (simp add: demo_def rb_system_init_def SetBlocking_def Let_def section_defs data_defs)

lemma Close_run:
  "rb_replay [Call 1 (CWrite [1, 2]), Section 1, Call 2 CCloseWriter, Section 2, Section 1,
      Call 3 (CRead [0]), Section 3, Call 4 (CRead [0]), Section 4, Section 1] demo =
    Some ([(1, Quiet), (1, Put [1]), (2, Quiet), (2, Quiet), (1, Put []), (3, Quiet), (3, Took [1]),
        (4, Quiet), (4, Quiet), (1, Put [2])],
      \<lparr>rb = \<lparr>buf = [2], size_of = 1, rpos = 0, wpos = 0, isFull = True, err = Some EOF, block = True,
             wg = 0, readCond = {}, writeCond = {}, orphaned = {}\<rparr>,
       threads = [2 \<mapsto> Done RUnit, 3 \<mapsto> Done (RRead [1] 1 (Some EOF)),
         4 \<mapsto> Done (RRead [0] 0 (Some EOF)), 1 \<mapsto> Done (RWrite 2 None)]\<rparr>)"
  by (simp add: demo_def rb_system_init_def SetBlocking_def Let_def section_defs data_defs)

text \<open>\<open>ReadByte\<close> makes room without a broadcast: in a blocking buffer of size 1, a \<open>Write\<close> of two
  bytes waits for room, a \<open>ReadByte\<close> empties the buffer, and the writer sleeps on although the
  buffer is empty, carries no error, and nobody is left to wake it.\<close>
theorem ReadByte_leaves_the_writer_asleep:
  "\<exists>\<sigma>0 tr \<sigma>. rb_start 1 True = Some \<sigma>0 \<and> rb_run (\<lambda>_. True) \<sigma>0 tr \<sigma> \<and>
     threads \<sigma> 1 = Some (WriteWait [2] 1) \<and> 1 \<in> readCond (rb \<sigma>) \<and>
     rb_contents (rb \<sigma>) = [] \<and> err (rb \<sigma>) = None \<and> no_one_runs \<sigma>"
  using demo_start replay_run [OF ReadByte_run, where A = "\<lambda>_. True"]
  by (intro exI conjI) (assumption | simp add: no_one_runs_def data_defs split: if_splits)+

text \<open>\<open>Flush\<close> drops the mutex between its emptiness test and its wait: a reader that drains the
  buffer in between broadcasts to nobody, and the flush sleeps on an empty buffer.\<close>
theorem Flush_misses_the_last_read:
  "\<exists>\<sigma>0 tr \<sigma>. rb_start 1 True = Some \<sigma>0 \<and> rb_run (\<lambda>_. True) \<sigma>0 tr \<sigma> \<and>
     threads \<sigma> 2 = Some FlushWait \<and> 2 \<in> readCond (rb \<sigma>) \<and>
     rb_contents (rb \<sigma>) = [] \<and> err (rb \<sigma>) = None \<and> no_one_runs \<sigma>"
  using demo_start replay_run [OF Flush_run, where A = "\<lambda>_. True"]
  by (intro exI conjI) (assumption | simp add: no_one_runs_def data_defs split: if_splits)+

text \<open>A \<open>Write\<close> that waits while the writer is closed goes on afterwards: readers have been
  told the end of the stream, and then a byte more is in the buffer, with no error for the
  writer.\<close>
theorem Write_continues_after_close:
  "\<exists>\<sigma>0 tr \<sigma>. rb_start 1 True = Some \<sigma>0 \<and> rb_run (\<lambda>_. True) \<sigma>0 tr \<sigma> \<and>
     threads \<sigma> 4 = Some (Done (RRead [0] 0 (Some EOF))) \<and>
     threads \<sigma> 1 = Some (Done (RWrite 2 None)) \<and> rb_contents (rb \<sigma>) = [2]"
  using demo_start replay_run [OF Close_run, where A = "\<lambda>_. True"]
  by (intro exI conjI) (assumption | simp add: data_defs)+

end
