(* ===== verification/GoList.thy ===== *)
theory GoList
  imports NH_Prelude
begin

text \<open>
  \<open>pkgs/list/list.go\<close>: the doubly linked list with a sentinel, on an explicit heap. A node is
  the root of a list or an element; the fields of the nodes are functions on nodes, a nil
  pointer is \<open>None\<close>, and following one is a panic. Several lists share the heap, so that what an
  operation does to the elements of another list is visible.
\<close>

section \<open>The heap\<close>

datatype node = Root nat | Elem nat

type_synonym ptr = "node option"

record 'v lheap =
  nxt :: "node \<Rightarrow> ptr"
  prv :: "node \<Rightarrow> ptr"
  owner :: "node \<Rightarrow> nat option"
  val :: "node \<Rightarrow> 'v"
  len :: "nat \<Rightarrow> int"
  unused :: nat

definition set_nxt :: "ptr \<Rightarrow> ptr \<Rightarrow> 'v lheap \<Rightarrow> 'v lheap option" where
  "set_nxt p q h = (case p of None \<Rightarrow> None | Some a \<Rightarrow> Some (h\<lparr>nxt := (nxt h)(a := q)\<rparr>))"

definition set_prv :: "ptr \<Rightarrow> ptr \<Rightarrow> 'v lheap \<Rightarrow> 'v lheap option" where
  "set_prv p q h = (case p of None \<Rightarrow> None | Some a \<Rightarrow> Some (h\<lparr>prv := (prv h)(a := q)\<rparr>))"

definition add_len :: "nat \<Rightarrow> int \<Rightarrow> 'v lheap \<Rightarrow> 'v lheap" where
  "add_len l d h = h\<lparr>len := (len h)(l := len h l + d)\<rparr>"

definition set_owner :: "node \<Rightarrow> nat option \<Rightarrow> 'v lheap \<Rightarrow> 'v lheap" where
  "set_owner e l h = h\<lparr>owner := (owner h)(e := l)\<rparr>"

text \<open>A heap of zero \<open>List\<close> values and no elements.\<close>

definition zero_heap :: "(node \<Rightarrow> 'v) \<Rightarrow> 'v lheap" where
  "zero_heap v = \<lparr>nxt = (\<lambda>_. None), prv = (\<lambda>_. None), owner = (\<lambda>_. None), val = v,
                  len = (\<lambda>_. 0), unused = 0\<rparr>"

section \<open>Elements and observers\<close>

definition eNext :: "node \<Rightarrow> 'v lheap \<Rightarrow> ptr" where
  "eNext e h = (case owner h e of
       None \<Rightarrow> None
     | Some l \<Rightarrow> (if nxt h e \<noteq> Some (Root l) then nxt h e else None))"

definition ePrev :: "node \<Rightarrow> 'v lheap \<Rightarrow> ptr" where
  "ePrev e h = (case owner h e of
       None \<Rightarrow> None
     | Some l \<Rightarrow> (if prv h e \<noteq> Some (Root l) then prv h e else None))"

definition lInit :: "nat \<Rightarrow> 'v lheap \<Rightarrow> 'v lheap" where
  "lInit l h = h\<lparr>nxt := (nxt h)(Root l := Some (Root l)), prv := (prv h)(Root l := Some (Root l)),
                 len := (len h)(l := 0)\<rparr>"

text \<open>\<open>New\<close> initializes the zero list at the address that the allocator gives.\<close>

definition list_New :: "nat \<Rightarrow> 'v lheap \<Rightarrow> nat \<times> 'v lheap" where
  "list_New l h = (l, lInit l h)"

definition Len :: "nat \<Rightarrow> 'v lheap \<Rightarrow> int" where
  "Len l h = len h l"

definition Front :: "nat \<Rightarrow> 'v lheap \<Rightarrow> ptr" where
  "Front l h = (if len h l = 0 then None else nxt h (Root l))"

definition Back :: "nat \<Rightarrow> 'v lheap \<Rightarrow> ptr" where
  "Back l h = (if len h l = 0 then None else prv h (Root l))"

definition lazyInit :: "nat \<Rightarrow> 'v lheap \<Rightarrow> 'v lheap" where
  "lazyInit l h = (if nxt h (Root l) = None then lInit l h else h)"

section \<open>The three primitives\<close>

definition list_insert :: "nat \<Rightarrow> node \<Rightarrow> ptr \<Rightarrow> 'v lheap \<Rightarrow> (node \<times> 'v lheap) option" where
  "list_insert l e at h = do {
     h \<leftarrow> set_prv (Some e) at h;
     a \<leftarrow> at;
     h \<leftarrow> set_nxt (Some e) (nxt h a) h;
     h \<leftarrow> set_nxt (prv h e) (Some e) h;
     h \<leftarrow> set_prv (nxt h e) (Some e) h;
     let h = set_owner e (Some l) h;
     Some (e, add_len l 1 h)
   }"

definition insertValue :: "nat \<Rightarrow> 'v \<Rightarrow> ptr \<Rightarrow> 'v lheap \<Rightarrow> (node \<times> 'v lheap) option" where
  "insertValue l v at h =
     (let e = Elem (unused h);
          h = h\<lparr>val := (val h)(e := v), unused := unused h + 1\<rparr>
      in list_insert l e at h)"

definition list_remove :: "nat \<Rightarrow> node \<Rightarrow> 'v lheap \<Rightarrow> 'v lheap option" where
  "list_remove l e h = do {
     h \<leftarrow> set_nxt (prv h e) (nxt h e) h;
     h \<leftarrow> set_prv (nxt h e) (prv h e) h;
     h \<leftarrow> set_nxt (Some e) None h;
     h \<leftarrow> set_prv (Some e) None h;
     let h = set_owner e None h;
     Some (add_len l (- 1) h)
   }"

definition list_move :: "node \<Rightarrow> ptr \<Rightarrow> 'v lheap \<Rightarrow> 'v lheap option" where
  "list_move e at h =
     (if Some e = at then Some h
      else do {
        h \<leftarrow> set_nxt (prv h e) (nxt h e) h;
        h \<leftarrow> set_prv (nxt h e) (prv h e) h;
        h \<leftarrow> set_prv (Some e) at h;
        a \<leftarrow> at;
        h \<leftarrow> set_nxt (Some e) (nxt h a) h;
        h \<leftarrow> set_nxt (prv h e) (Some e) h;
        set_prv (nxt h e) (Some e) h
      })"

section \<open>The methods\<close>

definition Remove :: "nat \<Rightarrow> node \<Rightarrow> 'v lheap \<Rightarrow> ('v \<times> 'v lheap) option" where
  "Remove l e h = do {
     h \<leftarrow> (if owner h e = Some l then list_remove l e h else Some h);
     Some (val h e, h)
   }"

definition PushFront :: "nat \<Rightarrow> 'v \<Rightarrow> 'v lheap \<Rightarrow> (node \<times> 'v lheap) option" where
  "PushFront l v h = (let h = lazyInit l h in insertValue l v (Some (Root l)) h)"

definition PushBack :: "nat \<Rightarrow> 'v \<Rightarrow> 'v lheap \<Rightarrow> (node \<times> 'v lheap) option" where
  "PushBack l v h = (let h = lazyInit l h in insertValue l v (prv h (Root l)) h)"

definition InsertBefore :: "nat \<Rightarrow> 'v \<Rightarrow> node \<Rightarrow> 'v lheap \<Rightarrow> (ptr \<times> 'v lheap) option" where
  "InsertBefore l v mark h =
     (if owner h mark \<noteq> Some l then Some (None, h)
      else do { (e, h) \<leftarrow> insertValue l v (prv h mark) h; Some (Some e, h) })"

definition InsertAfter :: "nat \<Rightarrow> 'v \<Rightarrow> node \<Rightarrow> 'v lheap \<Rightarrow> (ptr \<times> 'v lheap) option" where
  "InsertAfter l v mark h =
     (if owner h mark \<noteq> Some l then Some (None, h)
      else do { (e, h) \<leftarrow> insertValue l v (Some mark) h; Some (Some e, h) })"

definition MoveToFront :: "nat \<Rightarrow> node \<Rightarrow> 'v lheap \<Rightarrow> 'v lheap option" where
  "MoveToFront l e h =
     (if owner h e \<noteq> Some l \<or> nxt h (Root l) = Some e then Some h
      else list_move e (Some (Root l)) h)"

definition MoveToBack :: "nat \<Rightarrow> node \<Rightarrow> 'v lheap \<Rightarrow> 'v lheap option" where
  "MoveToBack l e h =
     (if owner h e \<noteq> Some l \<or> prv h (Root l) = Some e then Some h
      else list_move e (prv h (Root l)) h)"

definition MoveBefore :: "nat \<Rightarrow> node \<Rightarrow> node \<Rightarrow> 'v lheap \<Rightarrow> 'v lheap option" where
  "MoveBefore l e mark h =
     (if owner h e \<noteq> Some l \<or> e = mark \<or> owner h mark \<noteq> Some l then Some h
      else list_move e (prv h mark) h)"

definition MoveAfter :: "nat \<Rightarrow> node \<Rightarrow> node \<Rightarrow> 'v lheap \<Rightarrow> 'v lheap option" where
  "MoveAfter l e mark h =
     (if owner h e \<noteq> Some l \<or> e = mark \<or> owner h mark \<noteq> Some l then Some h
      else list_move e (Some mark) h)"

text \<open>The copy loops: \<open>i\<close> elements to go, \<open>e\<close> the next one; \<open>e.Value\<close> of a nil \<open>e\<close> panics.\<close>

fun back_loop :: "nat \<Rightarrow> ptr \<Rightarrow> nat \<Rightarrow> 'v lheap \<Rightarrow> 'v lheap option" where
  "back_loop 0 p l h = Some h"
| "back_loop (Suc i) p l h = do {
     e \<leftarrow> p;
     (_, h) \<leftarrow> insertValue l (val h e) (prv h (Root l)) h;
     back_loop i (eNext e h) l h
   }"

definition PushBackList :: "nat \<Rightarrow> nat \<Rightarrow> 'v lheap \<Rightarrow> 'v lheap option" where
  "PushBackList l other h =
     (let h = lazyInit l h in back_loop (nat (Len other h)) (Front other h) l h)"

fun front_loop :: "nat \<Rightarrow> ptr \<Rightarrow> nat \<Rightarrow> 'v lheap \<Rightarrow> 'v lheap option" where
  "front_loop 0 p l h = Some h"
| "front_loop (Suc i) p l h = do {
     e \<leftarrow> p;
     (_, h) \<leftarrow> insertValue l (val h e) (Some (Root l)) h;
     front_loop i (ePrev e h) l h
   }"

definition PushFrontList :: "nat \<Rightarrow> nat \<Rightarrow> 'v lheap \<Rightarrow> 'v lheap option" where
  "PushFrontList l other h =
     (let h = lazyInit l h in front_loop (nat (Len other h)) (Back other h) l h)"

end
