(* ===== verification/GoListCorrect.thy ===== *)
theory GoListCorrect
  imports GoList
begin

text \<open>
  Correctness of the linked list: the pointer structure is a ring over a plain list of nodes
  (\<open>list_ok\<close>), every element belongs to exactly the list its \<open>list\<close> field names (\<open>heap_ok\<close>), and
  every method implements the corresponding operation on plain lists (\<open>spec_lop\<close>), whatever
  sequence of methods runs on however many lists.
\<close>

section \<open>Walks\<close>

text \<open>Consecutive nodes of \<open>ys\<close> point at each other.\<close>

fun walk :: "(node \<Rightarrow> ptr) \<Rightarrow> (node \<Rightarrow> ptr) \<Rightarrow> node list \<Rightarrow> bool" where
  "walk n p (a # b # ys) = (n a = Some b \<and> p b = Some a \<and> walk n p (b # ys))"
| "walk n p ys = True"

lemma walk_append: "walk n p (us @ vs) \<longleftrightarrow>
    walk n p us \<and> walk n p vs \<and>
    (us \<noteq> [] \<and> vs \<noteq> [] \<longrightarrow> n (last us) = Some (hd vs) \<and> p (hd vs) = Some (last us))"
  by (induction n p us rule: walk.induct) (cases vs; auto)+

lemma walk_tl: "walk n p (a # ys) \<Longrightarrow> walk n p ys"
  by (cases ys) auto

lemma walk_upd_nxt: "x \<notin> set (butlast ys) \<Longrightarrow> walk (n(x := q)) p ys = walk n p ys"
  by (induction n p ys rule: walk.induct) auto

lemma walk_upd_prv: "x \<notin> set (tl ys) \<Longrightarrow> walk n (p(x := q)) ys = walk n p ys"
  by (induction n p ys rule: walk.induct) auto

lemma walk_cong:
  "\<forall>y\<in>set ys. n y = n' y \<and> p y = p' y \<Longrightarrow> walk n p ys = walk n' p' ys"
  by (induction n p ys rule: walk.induct) auto

text \<open>
  Two walks that may be joined: the end of the first is no source in the second, the start of
  the second no target in the first, and \<open>e\<close> is in neither.
\<close>

definition joinable :: "node list \<Rightarrow> node \<Rightarrow> node list \<Rightarrow> bool" where
  "joinable us e vs \<longleftrightarrow> us \<noteq> [] \<and> vs \<noteq> [] \<and>
     e \<notin> set us \<and> e \<notin> set vs \<and> last us \<notin> set (butlast us) \<and> last us \<notin> set (butlast vs) \<and>
     hd vs \<notin> set (tl us) \<and> hd vs \<notin> set (tl vs)"

lemma joinable_walks:
  assumes "joinable us e vs" "walk n p us" "walk n p vs"
  shows "walk (n(e := x, last us := y)) (p(e := z, hd vs := w)) us"
    "walk (n(e := x, last us := y)) (p(e := z, hd vs := w)) vs"
proof -
  have "e \<notin> set (butlast us)" "e \<notin> set (butlast vs)" "e \<notin> set (tl us)" "e \<notin> set (tl vs)"
    using assms(1) by (auto simp: joinable_def dest: in_set_butlastD list.set_sel(2))
  then show "walk (n(e := x, last us := y)) (p(e := z, hd vs := w)) us"
    "walk (n(e := x, last us := y)) (p(e := z, hd vs := w)) vs"
    using assms by (simp_all add: joinable_def walk_upd_nxt walk_upd_prv)
qed

lemma joinable_neq: "joinable us e vs \<Longrightarrow> e \<noteq> last us \<and> e \<noteq> hd vs"
  by (auto simp: joinable_def)

lemma walk_insert:
  assumes w: "walk n p (us @ vs)" and j: "joinable us e vs"
  shows "walk (n(e := Some (hd vs), last us := Some e)) (p(e := Some (last us), hd vs := Some e)) (us @ e # vs)"
  using joinable_walks [OF j, of n p] joinable_neq [OF j] w j
  unfolding walk_append [of _ _ us "e # vs"] walk_append [of _ _ us vs]
  by (cases vs) (auto simp: joinable_def)

lemma walk_delete:
  assumes w: "walk n p (us @ e # vs)" and j: "joinable us e vs"
  shows "walk (n(e := None, last us := Some (hd vs))) (p(e := None, hd vs := Some (last us))) (us @ vs)"
proof -
  have "walk n p us" "walk n p vs"
    using w walk_tl [of n p e vs] by (auto simp: walk_append)
  then show ?thesis
    using joinable_walks [OF j, of n p] joinable_neq [OF j] j
    unfolding walk_append by (auto simp: joinable_def)
qed

section \<open>Well-formed heaps\<close>

definition is_elem :: "node \<Rightarrow> bool" where
  "is_elem e = (case e of Elem n \<Rightarrow> True | Root l \<Rightarrow> False)"

lemma is_elem_simps [simp]: "is_elem (Elem n)" "\<not> is_elem (Root l)"
  by (simp_all add: is_elem_def)

definition list_ok :: "'v lheap \<Rightarrow> nat \<Rightarrow> node list \<Rightarrow> bool" where
  "list_ok h l xs \<longleftrightarrow> distinct xs \<and> len h l = int (length xs) \<and> (\<forall>e\<in>set xs. is_elem e) \<and>
     (walk (nxt h) (prv h) (Root l # xs @ [Root l]) \<or> xs = [] \<and> nxt h (Root l) = None)"

definition heap_ok :: "'v lheap \<Rightarrow> (nat \<Rightarrow> node list) \<Rightarrow> bool" where
  "heap_ok h A \<longleftrightarrow> (\<forall>l. list_ok h l (A l)) \<and> (\<forall>e l. owner h e = Some l \<longleftrightarrow> e \<in> set (A l)) \<and>
     (\<forall>l n. Elem n \<in> set (A l) \<longrightarrow> n < unused h)"

lemma heap_okD:
  assumes "heap_ok h A"
  shows "list_ok h l (A l)" "owner h e = Some l \<longleftrightarrow> e \<in> set (A l)"
    "Elem n \<in> set (A l) \<Longrightarrow> n < unused h" "distinct (A l)" "len h l = int (length (A l))"
    "e \<in> set (A l) \<Longrightarrow> is_elem e"
  using assms by (auto simp: heap_ok_def list_ok_def dest: spec [of _ l])

text \<open>A list that is initialised is a ring.\<close>

lemma ring:
  assumes "heap_ok h A" "nxt h (Root l) \<noteq> None"
  shows "walk (nxt h) (prv h) (Root l # A l @ [Root l])"
  using assms by (auto simp: heap_ok_def list_ok_def)

lemma nonempty_init:
  assumes "heap_ok h A" "e \<in> set (A l)"
  shows "nxt h (Root l) \<noteq> None"
proof -
  have "walk (nxt h) (prv h) (Root l # A l @ [Root l])"
    using assms by (auto simp: heap_ok_def list_ok_def)
  then show ?thesis using assms(2) by (cases "A l") auto
qed

text \<open>The pointers at a split of the list: from the node before to the node after and back.\<close>

lemma split_ptrs:
  assumes "heap_ok h A" "nxt h (Root l) \<noteq> None" "A l = us @ vs"
  shows "nxt h (last (Root l # us)) = Some (hd (vs @ [Root l]))"
    and "prv h (hd (vs @ [Root l])) = Some (last (Root l # us))"
proof -
  have "walk (nxt h) (prv h) ((Root l # us) @ (vs @ [Root l]))"
    using ring [OF assms(1,2)] assms(3) by simp
  then show "nxt h (last (Root l # us)) = Some (hd (vs @ [Root l]))"
    "prv h (hd (vs @ [Root l])) = Some (last (Root l # us))"
    unfolding walk_append by auto
qed

lemma split_joinable:
  assumes "heap_ok h A" "A l = us @ vs" "e \<notin> set us" "e \<notin> set vs" "is_elem e"
  shows "joinable (Root l # us) e (vs @ [Root l])"
proof -
  have d: "distinct us" "distinct vs" "set us \<inter> set vs = {}" "Root l \<notin> set us" "Root l \<notin> set vs"
    using heap_okD(4) [OF assms(1), of l] heap_okD(6) [OF assms(1), of "Root l" l] assms(2) by auto
  have "last (Root l # us) \<notin> set (butlast (Root l # us))" "last (Root l # us) \<notin> set vs"
    using d by (cases us rule: rev_cases; auto)+
  moreover have "hd (vs @ [Root l]) \<notin> set (tl (vs @ [Root l]))" "hd (vs @ [Root l]) \<notin> set us"
    using d by (cases vs; auto)+
  ultimately show ?thesis using d assms(3-5) by (auto simp: joinable_def)
qed

text \<open>Changing the pointers of one list leaves the others as they are.\<close>

lemma list_ok_frame:
  assumes "list_ok h m xs" "\<forall>y\<in>set (Root m # xs). nxt h' y = nxt h y \<and> prv h' y = prv h y"
    "len h' m = len h m"
  shows "list_ok h' m xs"
proof -
  have "walk (nxt h') (prv h') (Root m # xs @ [Root m]) = walk (nxt h) (prv h) (Root m # xs @ [Root m])"
    by (rule walk_cong) (use assms(2) in auto)
  then show ?thesis using assms by (simp add: list_ok_def)
qed

lemma end_nodes:
  "last (Root l # us) = Root l \<or> last (Root l # us) \<in> set us"
  "hd (vs @ [Root l]) = Root l \<or> hd (vs @ [Root l]) \<in> set vs"
  by (cases us rule: rev_cases; simp) (cases vs; simp)

lemma heap_update:
  assumes ok: "heap_ok h A" and l: "list_ok h' l xs"
    and ptrs: "\<And>y. nxt h' y \<noteq> nxt h y \<or> prv h' y \<noteq> prv h y \<Longrightarrow> y = Root l \<or> y \<in> set (A l) \<or> is_elem y \<and> owner h y = None"
    and len: "\<And>m. m \<noteq> l \<Longrightarrow> len h' m = len h m"
    and owner: "owner h' = (\<lambda>y. if y \<in> set xs then Some l else if y \<in> set (A l) then None else owner h y)"
    and new: "\<And>n. Elem n \<in> set xs \<Longrightarrow> n < unused h'" "unused h \<le> unused h'"
    and free: "\<And>y. y \<in> set xs \<Longrightarrow> y \<in> set (A l) \<or> owner h y = None"
  shows "heap_ok h' (A(l := xs))"
proof -
  note own = heap_okD(2) [OF ok]
  have "list_ok h' m (A m)" if m: "m \<noteq> l" for m
  proof (rule list_ok_frame [OF heap_okD(1) [OF ok]])
    have "nxt h' y = nxt h y \<and> prv h' y = prv h y" if y: "y = Root m \<or> y \<in> set (A m)" for y
    proof (rule ccontr)
      assume "\<not> (nxt h' y = nxt h y \<and> prv h' y = prv h y)"
      then have c: "y = Root l \<or> y \<in> set (A l) \<or> is_elem y \<and> owner h y = None" using ptrs by blast
      show False
      proof (cases "y = Root m")
        case True
        with c m heap_okD(6) [OF ok, of y l] show False by auto
      next
        case False
        with y have "owner h y = Some m" using own by auto
        with c m own [of y l] heap_okD(6) [OF ok, of y m] False y show False by auto
      qed
    qed
    then show "\<forall>y\<in>set (Root m # A m). nxt h' y = nxt h y \<and> prv h' y = prv h y" by simp
  qed (rule len [OF m])
  moreover have "owner h' e = Some m \<longleftrightarrow> e \<in> set ((A(l := xs)) m)" for e m
    using own [of e m] own [of e l] free [of e] unfolding owner by auto
  moreover have "Elem n \<in> set ((A(l := xs)) m) \<Longrightarrow> n < unused h'" for n m
    using new heap_okD(3) [OF ok, of n m] by (cases "m = l") auto
  ultimately show ?thesis using l unfolding heap_ok_def by auto
qed

section \<open>The primitives on well-formed heaps\<close>

lemma insert_ok:
  assumes ok: "heap_ok h A" and l: "A l = us @ vs" and init: "nxt h (Root l) \<noteq> None"
    and e: "is_elem e" "owner h e = None" "\<And>n. e = Elem n \<Longrightarrow> n < unused h"
    and at: "at = Some (last (Root l # us))"
  obtains h' where "list_insert l e at h = Some (e, h')" "heap_ok h' (A(l := us @ e # vs))"
    "val h' = val h" "unused h' = unused h" "nxt h' (Root l) \<noteq> None"
proof -
  let ?a = "last (Root l # us)" and ?b = "hd (vs @ [Root l])"
  note ptr = split_ptrs [OF ok init l]
  have notin: "e \<notin> set (A l)" using heap_okD(2) [OF ok, of e l] e(2) by simp
  then have j: "joinable (Root l # us) e (vs @ [Root l])"
    using split_joinable [OF ok l _ _ e(1)] l by simp
  note neq = joinable_neq [OF j]
  define h' where "h' = h\<lparr>nxt := (nxt h)(e := Some ?b, ?a := Some e), prv := (prv h)(e := Some ?a, ?b := Some e),
    owner := (owner h)(e := Some l), len := (len h)(l := len h l + 1)\<rparr>"
  have run: "list_insert l e at h = Some (e, h')"
    using ptr neq by (simp add: list_insert_def at set_prv_def set_nxt_def set_owner_def add_len_def h'_def)
  have w: "walk (nxt h') (prv h') (Root l # (us @ e # vs) @ [Root l])"
    using walk_insert [OF _ j] ring [OF ok init] l by (simp add: h'_def)
  have "heap_ok h' (A(l := us @ e # vs))"
  proof (rule heap_update [OF ok])
    show "list_ok h' l (us @ e # vs)"
      using w heap_okD(1) [OF ok, of l] l notin e(1) by (auto simp: list_ok_def h'_def)
    show "owner h' = (\<lambda>y. if y \<in> set (us @ e # vs) then Some l
        else if y \<in> set (A l) then None else owner h y)"
      using heap_okD(2) [OF ok, of _ l] l by (auto simp: h'_def fun_eq_iff)
    show "y = Root l \<or> y \<in> set (A l) \<or> is_elem y \<and> owner h y = None"
      if "nxt h' y \<noteq> nxt h y \<or> prv h' y \<noteq> prv h y" for y
      using that e(1,2) end_nodes(1) [of l us] end_nodes(2) [of vs l] l
      by (auto simp: h'_def split: if_splits)
    show "n < unused h'" if "Elem n \<in> set (us @ e # vs)" for n
      using that e(3) heap_okD(3) [OF ok, of n l] l by (auto simp: h'_def)
  qed (use e l in \<open>auto simp: h'_def\<close>)
  moreover have "nxt h' (Root l) \<noteq> None" using w by (cases us) auto
  ultimately show thesis using that run by (simp add: h'_def)
qed

lemma remove_ok:
  assumes ok: "heap_ok h A" and l: "A l = us @ e # vs"
  obtains h' where "list_remove l e h = Some h'" "heap_ok h' (A(l := us @ vs))"
    "val h' = val h" "unused h' = unused h" "nxt h' (Root l) \<noteq> None" "owner h' e = None"
proof -
  let ?a = "last (Root l # us)" and ?b = "hd (vs @ [Root l])"
  have init: "nxt h (Root l) \<noteq> None" using nonempty_init [OF ok, of e l] l by simp
  have el: "is_elem e" using heap_okD(6) [OF ok, of e l] l by simp
  have d: "e \<notin> set us" "e \<notin> set vs" "distinct us" "distinct vs" "set us \<inter> set vs = {}"
    using heap_okD(4) [OF ok, of l] l by auto
  have j: "joinable (Root l # us) e (vs @ [Root l])"
    using d heap_okD(6) [OF ok, of "Root l" l] l el end_nodes(1) [of l us] end_nodes(2) [of vs l]
    by (cases us rule: rev_cases; cases vs) (auto simp: joinable_def)
  note neq = joinable_neq [OF j]
  have w: "walk (nxt h) (prv h) ((Root l # us) @ e # (vs @ [Root l]))"
    using ring [OF ok init] l by simp
  then have ptr: "prv h e = Some ?a" "nxt h e = Some ?b"
    unfolding walk_append [of _ _ "Root l # us" "e # vs @ [Root l]"] by (cases vs; simp)+
  define h' where "h' = h\<lparr>nxt := (nxt h)(?a := Some ?b, e := None), prv := (prv h)(?b := Some ?a, e := None),
    owner := (owner h)(e := None), len := (len h)(l := len h l - 1)\<rparr>"
  have run: "list_remove l e h = Some h'"
    using ptr neq
    by (simp add: list_remove_def set_prv_def set_nxt_def set_owner_def add_len_def h'_def)
  have twist: "nxt h' = (nxt h)(e := None, ?a := Some ?b)" "prv h' = (prv h)(e := None, ?b := Some ?a)"
    using neq by (auto simp: h'_def intro!: fun_upd_twist split: if_splits)
  have w': "walk (nxt h') (prv h') (Root l # (us @ vs) @ [Root l])"
    unfolding twist using walk_delete [OF w j] by simp
  have "heap_ok h' (A(l := us @ vs))"
  proof (rule heap_update [OF ok])
    show "list_ok h' l (us @ vs)"
      using w' heap_okD(1) [OF ok, of l] l by (auto simp: list_ok_def h'_def)
    show "owner h' = (\<lambda>y. if y \<in> set (us @ vs) then Some l
        else if y \<in> set (A l) then None else owner h y)"
      using heap_okD(2) [OF ok, of _ l] l d by (auto simp: h'_def fun_eq_iff)
    show "y = Root l \<or> y \<in> set (A l) \<or> is_elem y \<and> owner h y = None"
      if "nxt h' y \<noteq> nxt h y \<or> prv h' y \<noteq> prv h y" for y
      using that end_nodes(1) [of l us] end_nodes(2) [of vs l] l
      by (auto simp: h'_def split: if_splits)
    show "n < unused h'" if "Elem n \<in> set (us @ vs)" for n
      using that heap_okD(3) [OF ok, of n l] l by (auto simp: h'_def)
  qed (use l in \<open>auto simp: h'_def\<close>)
  moreover have "nxt h' (Root l) \<noteq> None" using w' by (cases us; cases vs) auto
  ultimately show thesis using that run by (simp add: h'_def)
qed

text \<open>\<open>move\<close> is a removal followed by an insertion of the same element.\<close>

lemma move_remove_insert:
  assumes "list_remove l e h = Some h1" "list_insert l e (Some a) h1 = Some (e, h2)"
    "owner h e = Some l" "a \<noteq> e"
  shows "list_move e (Some a) h = Some h2"
proof -
  obtain p n where p: "prv h e = Some p" using assms(1)
    by (cases "prv h e") (auto simp: list_remove_def set_nxt_def)
  show ?thesis
    using assms p
    by (auto simp: list_remove_def list_insert_def list_move_def set_nxt_def set_prv_def set_owner_def
        add_len_def fun_upd_idem fun_upd_twist split: option.splits if_splits)
qed

section \<open>The specification: plain lists\<close>

record 'v lspec =
  lists :: "nat \<Rightarrow> node list"
  vals :: "node \<Rightarrow> 'v"
  fresh :: nat

definition put_before :: "node \<Rightarrow> node \<Rightarrow> node list \<Rightarrow> node list" where
  "put_before mark e xs = takeWhile (\<lambda>x. x \<noteq> mark) xs @ e # dropWhile (\<lambda>x. x \<noteq> mark) xs"

definition put_after :: "node \<Rightarrow> node \<Rightarrow> node list \<Rightarrow> node list" where
  "put_after mark e xs = takeWhile (\<lambda>x. x \<noteq> mark) xs @ mark # e # tl (dropWhile (\<lambda>x. x \<noteq> mark) xs)"

lemma put_at [simp]:
  assumes "mark \<notin> set us"
  shows "put_before mark e (us @ mark # vs) = us @ e # mark # vs"
    "put_after mark e (us @ mark # vs) = us @ mark # e # vs"
proof -
  have "takeWhile (\<lambda>x. x \<noteq> mark) (us @ mark # vs) = us" "dropWhile (\<lambda>x. x \<noteq> mark) (us @ mark # vs) = mark # vs"
    using assms by (induction us) auto
  then show "put_before mark e (us @ mark # vs) = us @ e # mark # vs"
    "put_after mark e (us @ mark # vs) = us @ mark # e # vs"
    by (simp_all add: put_before_def put_after_def)
qed

text \<open>A new element with value \<open>v\<close>, placed in list \<open>l\<close> by \<open>f\<close>.\<close>

definition add_value ::
  "nat \<Rightarrow> 'v \<Rightarrow> (node \<Rightarrow> node list \<Rightarrow> node list) \<Rightarrow> 'v lspec \<Rightarrow> 'v lspec" where
  "add_value l v f \<sigma> =
     (let e = Elem (fresh \<sigma>)
      in \<sigma>\<lparr>lists := (lists \<sigma>)(l := f e (lists \<sigma> l)), vals := (vals \<sigma>)(e := v), fresh := fresh \<sigma> + 1\<rparr>)"

definition set_list :: "nat \<Rightarrow> node list \<Rightarrow> 'v lspec \<Rightarrow> 'v lspec" where
  "set_list l xs \<sigma> = \<sigma>\<lparr>lists := (lists \<sigma>)(l := xs)\<rparr>"

datatype 'v lop =
    LPushFront nat 'v | LPushBack nat 'v | LInsertBefore nat 'v node | LInsertAfter nat 'v node
  | LRemove nat node | LMoveToFront nat node | LMoveToBack nat node
  | LMoveBefore nat node node | LMoveAfter nat node node
  | LPushBackList nat nat | LPushFrontList nat nat

datatype 'v lret = LVoid | LPtr ptr | LVal 'v

fun spec_lop :: "'v lop \<Rightarrow> 'v lspec \<Rightarrow> 'v lret \<times> 'v lspec" where
  "spec_lop (LPushFront l v) \<sigma> = (LPtr (Some (Elem (fresh \<sigma>))), add_value l v (#) \<sigma>)"
| "spec_lop (LPushBack l v) \<sigma> =
     (LPtr (Some (Elem (fresh \<sigma>))), add_value l v (\<lambda>e xs. xs @ [e]) \<sigma>)"
| "spec_lop (LInsertBefore l v mark) \<sigma> =
     (if mark \<in> set (lists \<sigma> l)
      then (LPtr (Some (Elem (fresh \<sigma>))), add_value l v (put_before mark) \<sigma>) else (LPtr None, \<sigma>))"
| "spec_lop (LInsertAfter l v mark) \<sigma> =
     (if mark \<in> set (lists \<sigma> l)
      then (LPtr (Some (Elem (fresh \<sigma>))), add_value l v (put_after mark) \<sigma>) else (LPtr None, \<sigma>))"
| "spec_lop (LRemove l e) \<sigma> = (LVal (vals \<sigma> e), set_list l (remove1 e (lists \<sigma> l)) \<sigma>)"
| "spec_lop (LMoveToFront l e) \<sigma> =
     (LVoid, if e \<in> set (lists \<sigma> l) then set_list l (e # remove1 e (lists \<sigma> l)) \<sigma> else \<sigma>)"
| "spec_lop (LMoveToBack l e) \<sigma> =
     (LVoid, if e \<in> set (lists \<sigma> l) then set_list l (remove1 e (lists \<sigma> l) @ [e]) \<sigma> else \<sigma>)"
| "spec_lop (LMoveBefore l e mark) \<sigma> =
     (LVoid, if e \<in> set (lists \<sigma> l) \<and> mark \<in> set (lists \<sigma> l) \<and> e \<noteq> mark
             then set_list l (put_before mark e (remove1 e (lists \<sigma> l))) \<sigma> else \<sigma>)"
| "spec_lop (LMoveAfter l e mark) \<sigma> =
     (LVoid, if e \<in> set (lists \<sigma> l) \<and> mark \<in> set (lists \<sigma> l) \<and> e \<noteq> mark
             then set_list l (put_after mark e (remove1 e (lists \<sigma> l))) \<sigma> else \<sigma>)"
| "spec_lop (LPushBackList l other) \<sigma> =
     (LVoid, fold (\<lambda>v. add_value l v (\<lambda>e xs. xs @ [e])) (map (vals \<sigma>) (lists \<sigma> other)) \<sigma>)"
| "spec_lop (LPushFrontList l other) \<sigma> =
     (LVoid, fold (\<lambda>v. add_value l v (#)) (map (vals \<sigma>) (rev (lists \<sigma> other))) \<sigma>)"

definition rel :: "'v lheap \<Rightarrow> 'v lspec \<Rightarrow> bool" where
  "rel h \<sigma> \<longleftrightarrow> heap_ok h (lists \<sigma>) \<and> val h = vals \<sigma> \<and> unused h = fresh \<sigma>"

definition inited :: "nat \<Rightarrow> 'v lheap \<Rightarrow> bool" where
  "inited l h \<longleftrightarrow> nxt h (Root l) \<noteq> None"

lemma rel_heap: "rel h \<sigma> \<Longrightarrow> heap_ok h (lists \<sigma>)"
  by (simp add: rel_def)

lemma rel_owner: "rel h \<sigma> \<Longrightarrow> owner h e = Some l \<longleftrightarrow> e \<in> set (lists \<sigma> l)"
  using heap_okD(2) [OF rel_heap] by blast

lemma rel_distinct: "rel h \<sigma> \<Longrightarrow> distinct (lists \<sigma> l)"
  using heap_okD(4) [OF rel_heap] by blast

section \<open>Each method implements its specification\<close>

lemma lazyInit_ok:
  assumes "rel h \<sigma>"
  shows "rel (lazyInit l h) \<sigma>" "inited l (lazyInit l h)"
proof -
  show "rel (lazyInit l h) \<sigma>"
  proof (cases "nxt h (Root l)")
    case None
    then have empty: "lists \<sigma> l = []"
      using heap_okD(1) [OF rel_heap [OF assms], of l] by (cases "lists \<sigma> l") (auto simp: list_ok_def)
    have "heap_ok (lInit l h) ((lists \<sigma>)(l := []))"
      by (rule heap_update [OF rel_heap [OF assms]])
        (auto simp: lInit_def list_ok_def empty split: if_splits)
    moreover have "(lists \<sigma>)(l := []) = lists \<sigma>" using empty by auto
    ultimately show ?thesis using assms None by (simp add: lazyInit_def rel_def) (simp add: lInit_def)
  qed (use assms in \<open>simp add: lazyInit_def\<close>)
  show "inited l (lazyInit l h)" by (auto simp: lazyInit_def lInit_def inited_def)
qed

lemma root_ptrs:
  assumes "rel h \<sigma>" "inited l h"
  shows "nxt h (Root l) = Some (hd (lists \<sigma> l @ [Root l]))"
    "prv h (Root l) = Some (last (Root l # lists \<sigma> l))"
  using split_ptrs(1) [of h "lists \<sigma>" l "[]" "lists \<sigma> l"] split_ptrs(2) [of h "lists \<sigma>" l "lists \<sigma> l" "[]"] assms
  by (simp_all add: rel_def inited_def)

lemma mem_inited: "rel h \<sigma> \<Longrightarrow> e \<in> set (lists \<sigma> l) \<Longrightarrow> inited l h"
  using nonempty_init [OF rel_heap] by (simp add: inited_def)

lemma insertValue_ok:
  assumes r: "rel h \<sigma>" "inited l h" and l: "lists \<sigma> l = us @ vs" and at: "at = Some (last (Root l # us))"
    and f: "f (Elem (fresh \<sigma>)) (us @ vs) = us @ Elem (fresh \<sigma>) # vs"
  shows "\<exists>h'. insertValue l v at h = Some (Elem (fresh \<sigma>), h') \<and> rel h' (add_value l v f \<sigma>) \<and> inited l h'"
proof -
  let ?e = "Elem (fresh \<sigma>)"
  define h1 where "h1 = h\<lparr>val := (val h)(?e := v), unused := unused h + 1\<rparr>"
  have ok1: "heap_ok h1 (lists \<sigma>)"
    using rel_heap [OF r(1)] r(1) by (force simp: h1_def heap_ok_def list_ok_def rel_def)
  have new: "owner h1 ?e = None"
  proof (cases "owner h1 ?e")
    case (Some m)
    then have "?e \<in> set (lists \<sigma> m)" using rel_owner [OF r(1)] by (simp add: h1_def)
    then show ?thesis using heap_okD(3) [OF rel_heap [OF r(1)], of "fresh \<sigma>" m] r(1) by (simp add: rel_def)
  qed
  have init: "nxt h1 (Root l) \<noteq> None" using r(2) by (simp add: h1_def inited_def)
  obtain h2 where h2: "list_insert l ?e at h1 = Some (?e, h2)" "heap_ok h2 ((lists \<sigma>)(l := us @ ?e # vs))"
    "val h2 = val h1" "unused h2 = unused h1" "nxt h2 (Root l) \<noteq> None"
    using insert_ok [OF ok1 l init _ new _ at] r(1) by (auto simp: h1_def rel_def)
  have "insertValue l v at h = Some (?e, h2)"
    using h2(1) r(1) by (simp add: insertValue_def h1_def rel_def Let_def)
  moreover have "rel h2 (add_value l v f \<sigma>)"
    using h2 r(1) by (simp add: rel_def add_value_def Let_def l f h1_def)
  ultimately show ?thesis using h2(5) by (auto simp: inited_def)
qed

lemma PushFront_ok:
  assumes r: "rel h \<sigma>"
  shows "\<exists>h'. PushFront l v h = Some (Elem (fresh \<sigma>), h') \<and> rel h' (add_value l v (#) \<sigma>)"
  using insertValue_ok [OF lazyInit_ok [OF r, of l], of "[]" "lists \<sigma> l" "Some (Root l)" "(#)" v]
  by (auto simp: PushFront_def Let_def)

lemma push_back_step:
  assumes r: "rel h \<sigma>" "inited l h"
  shows "\<exists>h'. insertValue l v (prv h (Root l)) h = Some (Elem (fresh \<sigma>), h') \<and>
    rel h' (add_value l v (\<lambda>e xs. xs @ [e]) \<sigma>) \<and> inited l h'"
  using insertValue_ok [OF r, of "lists \<sigma> l" "[]" "prv h (Root l)" "\<lambda>e xs. xs @ [e]" v] root_ptrs(2) [OF r]
  by simp

lemma PushBack_ok:
  assumes r: "rel h \<sigma>"
  shows "\<exists>h'. PushBack l v h = Some (Elem (fresh \<sigma>), h') \<and> rel h' (add_value l v (\<lambda>e xs. xs @ [e]) \<sigma>)"
  using push_back_step [OF lazyInit_ok [OF r, of l], of v] by (auto simp: PushBack_def Let_def)

text \<open>A member splits its list.\<close>

lemma split_member:
  assumes "rel h \<sigma>" "e \<in> set (lists \<sigma> l)"
  obtains us vs where "lists \<sigma> l = us @ e # vs" "e \<notin> set us" "e \<notin> set vs"
  using split_list_first [OF assms(2)] rel_distinct [OF assms(1), of l] by auto

lemma prv_of:
  assumes "rel h \<sigma>" "lists \<sigma> l = us @ e # vs"
  shows "prv h e = Some (last (Root l # us))"
  using split_ptrs(2) [OF rel_heap [OF assms(1)], of l us "e # vs"] mem_inited [OF assms(1), of e l] assms(2)
  by (simp add: inited_def)

lemma nxt_of:
  assumes "rel h \<sigma>" "lists \<sigma> l = us @ e # vs"
  shows "nxt h e = Some (hd (vs @ [Root l]))"
  using split_ptrs(1) [OF rel_heap [OF assms(1)], of l "us @ [e]" vs] mem_inited [OF assms(1), of e l] assms(2)
  by (simp add: inited_def)

lemma InsertBefore_ok:
  assumes r: "rel h \<sigma>" and mark: "mark \<in> set (lists \<sigma> l)"
  shows "\<exists>h'. InsertBefore l v mark h = Some (Some (Elem (fresh \<sigma>)), h') \<and>
    rel h' (add_value l v (put_before mark) \<sigma>)"
proof -
  obtain us vs where l: "lists \<sigma> l = us @ mark # vs" "mark \<notin> set us" using split_member [OF r mark] .
  show ?thesis
    using insertValue_ok [OF r mem_inited [OF r mark] l(1) prv_of [OF r l(1)], of "put_before mark" v]
      rel_owner [OF r, of mark l] mark l(2)
    by (auto simp: InsertBefore_def)
qed

lemma InsertAfter_ok:
  assumes r: "rel h \<sigma>" and mark: "mark \<in> set (lists \<sigma> l)"
  shows "\<exists>h'. InsertAfter l v mark h = Some (Some (Elem (fresh \<sigma>)), h') \<and>
    rel h' (add_value l v (put_after mark) \<sigma>)"
proof -
  obtain us vs where l: "lists \<sigma> l = us @ mark # vs" "mark \<notin> set us" using split_member [OF r mark] .
  then show ?thesis
    using insertValue_ok [OF r mem_inited [OF r mark], of "us @ [mark]" vs "Some mark" "put_after mark" v]
      rel_owner [OF r, of mark l] mark
    by (auto simp: InsertAfter_def)
qed

lemma Remove_ok:
  assumes r: "rel h \<sigma>"
  shows "\<exists>h'. Remove l e h = Some (vals \<sigma> e, h') \<and> rel h' (set_list l (remove1 e (lists \<sigma> l)) \<sigma>)"
proof (cases "e \<in> set (lists \<sigma> l)")
  case True
  obtain us vs where l: "lists \<sigma> l = us @ e # vs" "e \<notin> set us" using split_member [OF r True] .
  obtain h' where "list_remove l e h = Some h'" "heap_ok h' ((lists \<sigma>)(l := us @ vs))"
    "val h' = val h" "unused h' = unused h"
    using remove_ok [OF rel_heap [OF r] l(1)] .
  then show ?thesis
    using r rel_owner [OF r, of e l] True l
    by (auto simp: Remove_def rel_def set_list_def remove1_append)
next
  case False
  then have "set_list l (remove1 e (lists \<sigma> l)) \<sigma> = \<sigma>" by (simp add: set_list_def remove1_idem)
  with False r rel_owner [OF r, of e l] show ?thesis by (simp add: Remove_def) (simp add: rel_def)
qed

text \<open>Moving \<open>e\<close> behind \<open>at\<close>, a node of the list without \<open>e\<close>.\<close>

lemma move_ok:
  assumes r: "rel h \<sigma>" and e: "e \<in> set (lists \<sigma> l)" and rest: "remove1 e (lists \<sigma> l) = us @ vs"
    and at: "at = Some (last (Root l # us))"
  shows "\<exists>h'. list_move e at h = Some h' \<and> rel h' (set_list l (us @ e # vs) \<sigma>)"
proof -
  note ok = rel_heap [OF r]
  obtain ps qs where l: "lists \<sigma> l = ps @ e # qs" "e \<notin> set ps" "e \<notin> set qs" using split_member [OF r e] .
  obtain h1 where h1: "list_remove l e h = Some h1" "heap_ok h1 ((lists \<sigma>)(l := ps @ qs))"
    "val h1 = val h" "unused h1 = unused h" "nxt h1 (Root l) \<noteq> None" "owner h1 e = None"
    using remove_ok [OF ok l(1)] .
  have ps: "((lists \<sigma>)(l := ps @ qs)) l = us @ vs" using rest l by (simp add: remove1_append)
  have el: "is_elem e" using heap_okD(6) [OF ok e] .
  have low: "n < unused h1" if "e = Elem n" for n
    using heap_okD(3) [OF ok, of n l] that e h1(4) by simp
  obtain h2 where h2: "list_insert l e at h1 = Some (e, h2)"
    "heap_ok h2 ((lists \<sigma>)(l := ps @ qs, l := us @ e # vs))" "val h2 = val h1" "unused h2 = unused h1"
    by (rule insert_ok [OF h1(2) ps h1(5) el h1(6) low at])
  have "e \<notin> set us" using arg_cong [OF ps, of set] l by auto
  then have "last (Root l # us) \<noteq> e" using end_nodes(1) [of l us] el by auto
  then have "list_move e at h = Some h2"
    using move_remove_insert [OF h1(1)] h2(1) at rel_owner [OF r, of e l] e by simp
  with h2 h1 r show ?thesis by (simp add: rel_def set_list_def)
qed

lemma move_same:
  assumes "rel h \<sigma>" "lists \<sigma> l = xs"
  shows "\<exists>h'. Some h = Some h' \<and> rel h' (set_list l xs \<sigma>)"
proof -
  have "set_list l xs \<sigma> = \<sigma>" using assms(2) by (auto simp: set_list_def)
  with assms(1) show ?thesis by simp
qed

lemma MoveToFront_ok:
  assumes r: "rel h \<sigma>" and e: "e \<in> set (lists \<sigma> l)"
  shows "\<exists>h'. MoveToFront l e h = Some h' \<and> rel h' (set_list l (e # remove1 e (lists \<sigma> l)) \<sigma>)"
proof (cases "nxt h (Root l) = Some e")
  case True
  have "e \<noteq> Root l" using heap_okD(6) [OF rel_heap [OF r] e] by auto
  then have "lists \<sigma> l = e # remove1 e (lists \<sigma> l)"
    using True root_ptrs(1) [OF r mem_inited [OF r e]] e by (cases "lists \<sigma> l") auto
  from move_same [OF r this] True show ?thesis by (simp add: MoveToFront_def)
next
  case False
  with move_ok [OF r e, of "[]" "remove1 e (lists \<sigma> l)" "Some (Root l)"] rel_owner [OF r, of e l] e
  show ?thesis by (simp add: MoveToFront_def)
qed

lemma MoveToBack_ok:
  assumes r: "rel h \<sigma>" and e: "e \<in> set (lists \<sigma> l)"
  shows "\<exists>h'. MoveToBack l e h = Some h' \<and> rel h' (set_list l (remove1 e (lists \<sigma> l) @ [e]) \<sigma>)"
proof -
  obtain us vs where l: "lists \<sigma> l = us @ e # vs" "e \<notin> set us" "e \<notin> set vs" using split_member [OF r e] .
  have rest: "remove1 e (lists \<sigma> l) = us @ vs" using l by (simp add: remove1_append)
  have end_ptr: "prv h (Root l) = Some (last (e # vs))"
    using root_ptrs(2) [OF r mem_inited [OF r e]] l by simp
  show ?thesis
  proof (cases "vs = []")
    case True
    with move_same [OF r, of l "us @ [e]"] end_ptr l rest show ?thesis by (simp add: MoveToBack_def)
  next
    case False
    then have "last vs \<noteq> e" using l(3) by auto
    moreover have "\<exists>h'. list_move e (prv h (Root l)) h = Some h' \<and> rel h' (set_list l ((us @ vs) @ [e]) \<sigma>)"
      using move_ok [OF r e, of "us @ vs" "[]" "prv h (Root l)"] rest end_ptr False by simp
    ultimately show ?thesis
      using end_ptr False rest rel_owner [OF r, of e l] e by (simp add: MoveToBack_def)
  qed
qed

text \<open>The list without \<open>e\<close>, split at another member.\<close>

lemma split_without:
  assumes r: "rel h \<sigma>" and l: "lists \<sigma> l = us @ mark # vs" and ne: "e \<noteq> mark"
  shows "remove1 e (lists \<sigma> l) = remove1 e us @ mark # remove1 e vs"
proof (cases "e \<in> set us")
  case True
  then have "e \<notin> set vs" using rel_distinct [OF r, of l] l by auto
  with True l show ?thesis by (simp add: remove1_append remove1_idem)
next
  case False
  with l ne show ?thesis by (simp add: remove1_append remove1_idem)
qed

lemma MoveBefore_ok:
  assumes r: "rel h \<sigma>" and e: "e \<in> set (lists \<sigma> l)" and mark: "mark \<in> set (lists \<sigma> l)" and ne: "e \<noteq> mark"
  shows "\<exists>h'. MoveBefore l e mark h = Some h' \<and>
    rel h' (set_list l (put_before mark e (remove1 e (lists \<sigma> l))) \<sigma>)"
proof -
  obtain us vs where l: "lists \<sigma> l = us @ mark # vs" "mark \<notin> set us" using split_member [OF r mark] .
  note rest = split_without [OF r l(1) ne]
  have put: "put_before mark e (remove1 e (lists \<sigma> l)) = remove1 e us @ e # mark # remove1 e vs"
    using l(2) by (simp add: rest)
  have prv: "prv h mark = Some (last (Root l # us))" using prv_of [OF r l(1)] .
  have el: "is_elem e" using heap_okD(6) [OF rel_heap [OF r] e] .
  have d: "distinct us" "e \<in> set us \<longrightarrow> e \<notin> set vs" using rel_distinct [OF r, of l] l(1) by auto
  have "\<exists>h'. list_move e (prv h mark) h = Some h' \<and>
    rel h' (set_list l (remove1 e us @ e # mark # remove1 e vs) \<sigma>)"
  proof (cases "last (Root l # us) = e")
    case True
    then obtain us' where us: "us = us' @ [e]" using el by (cases us rule: rev_cases) (auto split: if_splits)
    then have "lists \<sigma> l = remove1 e us @ e # mark # remove1 e vs"
      using l(1) d by (simp add: remove1_append remove1_idem)
    from move_same [OF r this] True prv show ?thesis by (simp add: list_move_def)
  next
    case False
    then have "last (Root l # remove1 e us) = last (Root l # us)"
      using d(1) by (cases us rule: rev_cases) (auto simp: remove1_append split: if_splits)
    with move_ok [OF r e rest] prv show ?thesis by simp
  qed
  then show ?thesis using e mark ne rel_owner [OF r] put by (simp add: MoveBefore_def)
qed

lemma MoveAfter_ok:
  assumes r: "rel h \<sigma>" and e: "e \<in> set (lists \<sigma> l)" and mark: "mark \<in> set (lists \<sigma> l)" and ne: "e \<noteq> mark"
  shows "\<exists>h'. MoveAfter l e mark h = Some h' \<and>
    rel h' (set_list l (put_after mark e (remove1 e (lists \<sigma> l))) \<sigma>)"
proof -
  obtain us vs where l: "lists \<sigma> l = us @ mark # vs" "mark \<notin> set us" using split_member [OF r mark] .
  have rest: "remove1 e (lists \<sigma> l) = (remove1 e us @ [mark]) @ remove1 e vs"
    using split_without [OF r l(1) ne] by simp
  have put: "put_after mark e (remove1 e (lists \<sigma> l)) = (remove1 e us @ [mark]) @ e # remove1 e vs"
    using l(2) by (simp add: rest)
  show ?thesis
    using move_ok [OF r e rest, of "Some mark"] e mark ne rel_owner [OF r] put by (simp add: MoveAfter_def)
qed

section \<open>Copying one list onto another\<close>

lemma eNext_ok:
  assumes "rel h \<sigma>" "lists \<sigma> l = us @ e # vs"
  shows "eNext e h = (if vs = [] then None else Some (hd vs))"
proof -
  have "owner h e = Some l" using rel_owner [OF assms(1), of e l] assms(2) by simp
  moreover have "hd vs \<noteq> Root l" if "vs \<noteq> []"
    using that heap_okD(6) [OF rel_heap [OF assms(1)], of "hd vs" l] assms(2) by auto
  ultimately show ?thesis using nxt_of [OF assms] by (auto simp: eNext_def hd_append)
qed

lemma ePrev_ok:
  assumes "rel h \<sigma>" "lists \<sigma> l = us @ e # vs"
  shows "ePrev e h = (if us = [] then None else Some (last us))"
proof -
  have "owner h e = Some l" using rel_owner [OF assms(1), of e l] assms(2) by simp
  moreover have "last us \<noteq> Root l" if "us \<noteq> []"
    using that heap_okD(6) [OF rel_heap [OF assms(1)], of "last us" l] assms(2) by auto
  ultimately show ?thesis using prv_of [OF assms] by (auto simp: ePrev_def)
qed

lemma Front_ok: "rel h \<sigma> \<Longrightarrow> Front l h = (if lists \<sigma> l = [] then None else Some (hd (lists \<sigma> l)))"
  using root_ptrs(1) [of h \<sigma> l] mem_inited [of h \<sigma> "hd (lists \<sigma> l)" l] heap_okD(5) [OF rel_heap, of h \<sigma> l]
  by (auto simp: Front_def)

lemma Back_ok: "rel h \<sigma> \<Longrightarrow> Back l h = (if lists \<sigma> l = [] then None else Some (last (lists \<sigma> l)))"
  using root_ptrs(2) [of h \<sigma> l] mem_inited [of h \<sigma> "hd (lists \<sigma> l)" l] heap_okD(5) [OF rel_heap, of h \<sigma> l]
  by (auto simp: Back_def)

lemma Len_ok: "rel h \<sigma> \<Longrightarrow> Len l h = int (length (lists \<sigma> l))"
  using heap_okD(5) [OF rel_heap] by (simp add: Len_def)

lemma old_vals:
  assumes "rel h \<sigma>" "set xs \<subseteq> set (lists \<sigma> m)"
  shows "map (vals (add_value l v f \<sigma>)) xs = map (vals \<sigma>) xs"
proof (rule map_cong [OF refl])
  fix x assume "x \<in> set xs"
  then have "x \<noteq> Elem (fresh \<sigma>)"
    using heap_okD(3) [OF rel_heap [OF assms(1)], of "fresh \<sigma>" m] assms by (auto simp: rel_def)
  then show "vals (add_value l v f \<sigma>) x = vals \<sigma> x" by (simp add: add_value_def Let_def)
qed

lemma back_loop_ok:
  assumes "rel h \<sigma>" "inited l h" "lists \<sigma> other = ds @ rs" "i \<le> length rs" "i \<noteq> 0 \<Longrightarrow> p = Some (hd rs)"
  shows "\<exists>h'. back_loop i p l h = Some h' \<and>
    rel h' (fold (\<lambda>v. add_value l v (\<lambda>e xs. xs @ [e])) (map (vals \<sigma>) (take i rs)) \<sigma>)"
  using assms
proof (induction i arbitrary: h \<sigma> p ds rs)
  case (Suc i)
  then obtain e rs' where rs: "rs = e # rs'" by (cases rs) auto
  let ?f = "\<lambda>e xs. xs @ [e]" and ?\<sigma> = "add_value l (vals \<sigma> e) (\<lambda>e xs. xs @ [e]) \<sigma>"
  obtain h1 where h1: "insertValue l (val h e) (prv h (Root l)) h = Some (Elem (fresh \<sigma>), h1)"
    "rel h1 ?\<sigma>" "inited l h1"
    using push_back_step [OF Suc.prems(1,2), of "val h e"] Suc.prems(1) by (auto simp: rel_def)
  obtain tail where tail: "lists ?\<sigma> other = ds @ e # rs' @ tail"
    using Suc.prems(3) rs by (cases "l = other") (auto simp: add_value_def Let_def)
  have i: "i \<le> length (rs' @ tail)" "i \<noteq> 0 \<Longrightarrow> eNext e h1 = Some (hd (rs' @ tail))"
    using Suc.prems(4) rs eNext_ok [OF h1(2) tail] by auto
  have "lists ?\<sigma> other = (ds @ [e]) @ (rs' @ tail)" using tail by simp
  from Suc.IH [OF h1(2,3) this i] obtain h' where h': "back_loop i (eNext e h1) l h1 = Some h'"
    "rel h' (fold (\<lambda>v. add_value l v ?f) (map (vals ?\<sigma>) (take i (rs' @ tail))) ?\<sigma>)" by blast
  have t: "take i (rs' @ tail) = take i rs'" using Suc.prems(4) rs by simp
  have sub: "set (take i rs') \<subseteq> set (lists \<sigma> other)"
    using Suc.prems(3) rs set_take_subset [of i rs'] by auto
  have eqv: "map (vals ?\<sigma>) (take i (rs' @ tail)) = map (vals \<sigma>) (take i rs')"
    by (simp only: t old_vals [OF Suc.prems(1) sub])
  with h1(1) h'(1) h'(2) [unfolded eqv] Suc.prems(5) rs show ?case by simp
qed (auto)

lemma PushBackList_ok:
  assumes r: "rel h \<sigma>"
  shows "\<exists>h'. PushBackList l other h = Some h' \<and>
    rel h' (fold (\<lambda>v. add_value l v (\<lambda>e xs. xs @ [e])) (map (vals \<sigma>) (lists \<sigma> other)) \<sigma>)"
  using back_loop_ok [OF lazyInit_ok [OF r], where other = other and ds = "[]" and rs = "lists \<sigma> other"
      and i = "length (lists \<sigma> other)" and p = "Front other (lazyInit l h)"]
    Front_ok [OF lazyInit_ok(1) [OF r], of other l] Len_ok [OF lazyInit_ok(1) [OF r], of other l]
  by (auto simp: PushBackList_def Let_def)

lemma front_loop_ok:
  assumes "rel h \<sigma>" "inited l h" "lists \<sigma> other = rs @ ds" "i \<le> length rs" "i \<noteq> 0 \<Longrightarrow> p = Some (last rs)"
  shows "\<exists>h'. front_loop i p l h = Some h' \<and>
    rel h' (fold (\<lambda>v. add_value l v (#)) (map (vals \<sigma>) (take i (rev rs))) \<sigma>)"
  using assms
proof (induction i arbitrary: h \<sigma> p ds rs)
  case (Suc i)
  then obtain e rs' where rs: "rs = rs' @ [e]" by (cases rs rule: rev_cases) auto
  let ?\<sigma> = "add_value l (vals \<sigma> e) (#) \<sigma>"
  obtain h1 where h1: "insertValue l (val h e) (Some (Root l)) h = Some (Elem (fresh \<sigma>), h1)"
    "rel h1 ?\<sigma>" "inited l h1"
    using insertValue_ok [OF Suc.prems(1,2), of "[]" "lists \<sigma> l" "Some (Root l)" "(#)" "val h e"] Suc.prems(1)
    by (auto simp: rel_def)
  obtain head where head: "lists ?\<sigma> other = (head @ rs') @ e # ds"
    using Suc.prems(3) rs by (cases "l = other") (auto simp: add_value_def Let_def intro: that [of "[Elem (fresh \<sigma>)]"] that [of "[]"])
  have i: "i \<le> length (head @ rs')" "i \<noteq> 0 \<Longrightarrow> ePrev e h1 = Some (last (head @ rs'))"
    using Suc.prems(4) rs ePrev_ok [OF h1(2) head] by auto
  from Suc.IH [OF h1(2,3) head i] obtain h' where h': "front_loop i (ePrev e h1) l h1 = Some h'"
    "rel h' (fold (\<lambda>v. add_value l v (#)) (map (vals ?\<sigma>) (take i (rev (head @ rs')))) ?\<sigma>)" by blast
  have t: "take i (rev (head @ rs')) = take i (rev rs')" using Suc.prems(4) rs by simp
  have sub: "set (take i (rev rs')) \<subseteq> set (lists \<sigma> other)"
    using Suc.prems(3) rs set_take_subset [of i "rev rs'"] by auto
  have eqv: "map (vals ?\<sigma>) (take i (rev (head @ rs'))) = map (vals \<sigma>) (take i (rev rs'))"
    by (simp only: t old_vals [OF Suc.prems(1) sub])
  with h1(1) h'(1) h'(2) [unfolded eqv] Suc.prems(5) rs show ?case by simp
qed (auto)

lemma PushFrontList_ok:
  assumes r: "rel h \<sigma>"
  shows "\<exists>h'. PushFrontList l other h = Some h' \<and>
    rel h' (fold (\<lambda>v. add_value l v (#)) (map (vals \<sigma>) (rev (lists \<sigma> other))) \<sigma>)"
  using front_loop_ok [OF lazyInit_ok [OF r], where other = other and ds = "[]" and rs = "lists \<sigma> other"
      and i = "length (lists \<sigma> other)" and p = "Back other (lazyInit l h)"]
    Back_ok [OF lazyInit_ok(1) [OF r], of other l] Len_ok [OF lazyInit_ok(1) [OF r], of other l]
  by (auto simp: PushFrontList_def Let_def)

section \<open>Sequences of operations\<close>

definition lift_ptr :: "(node \<times> 'v lheap) option \<Rightarrow> ('v lret \<times> 'v lheap) option" where
  "lift_ptr r = map_option (\<lambda>(e, h). (LPtr (Some e), h)) r"

fun exec_lop :: "'v lop \<Rightarrow> 'v lheap \<Rightarrow> ('v lret \<times> 'v lheap) option" where
  "exec_lop (LPushFront l v) h = lift_ptr (PushFront l v h)"
| "exec_lop (LPushBack l v) h = lift_ptr (PushBack l v h)"
| "exec_lop (LInsertBefore l v mark) h = map_option (\<lambda>(p, h). (LPtr p, h)) (InsertBefore l v mark h)"
| "exec_lop (LInsertAfter l v mark) h = map_option (\<lambda>(p, h). (LPtr p, h)) (InsertAfter l v mark h)"
| "exec_lop (LRemove l e) h = map_option (\<lambda>(v, h). (LVal v, h)) (Remove l e h)"
| "exec_lop (LMoveToFront l e) h = map_option (Pair LVoid) (MoveToFront l e h)"
| "exec_lop (LMoveToBack l e) h = map_option (Pair LVoid) (MoveToBack l e h)"
| "exec_lop (LMoveBefore l e mark) h = map_option (Pair LVoid) (MoveBefore l e mark h)"
| "exec_lop (LMoveAfter l e mark) h = map_option (Pair LVoid) (MoveAfter l e mark h)"
| "exec_lop (LPushBackList l other) h = map_option (Pair LVoid) (PushBackList l other h)"
| "exec_lop (LPushFrontList l other) h = map_option (Pair LVoid) (PushFrontList l other h)"

fun exec_lops :: "'v lop list \<Rightarrow> 'v lheap \<Rightarrow> ('v lret list \<times> 'v lheap) option" where
  "exec_lops [] h = Some ([], h)"
| "exec_lops (x # xs) h = do {
     (r, h) \<leftarrow> exec_lop x h;
     (rs, h) \<leftarrow> exec_lops xs h;
     Some (r # rs, h)
   }"

fun spec_lops :: "'v lop list \<Rightarrow> 'v lspec \<Rightarrow> 'v lret list \<times> 'v lspec" where
  "spec_lops [] \<sigma> = ([], \<sigma>)"
| "spec_lops (x # xs) \<sigma> = (let (r, \<sigma>) = spec_lop x \<sigma>; (rs, \<sigma>) = spec_lops xs \<sigma> in (r # rs, \<sigma>))"

definition no_lists :: "(node \<Rightarrow> 'v) \<Rightarrow> 'v lspec" where
  "no_lists v = \<lparr>lists = (\<lambda>_. []), vals = v, fresh = 0\<rparr>"

lemma rel_zero: "rel (zero_heap v) (no_lists v)"
  by (simp add: rel_def zero_heap_def no_lists_def heap_ok_def list_ok_def)

lemma foreign_ops:
  assumes r: "rel h \<sigma>" and e: "e \<notin> set (lists \<sigma> l)"
  shows "InsertBefore l v e h = Some (None, h)" "InsertAfter l v e h = Some (None, h)"
    "MoveToFront l e h = Some h" "MoveToBack l e h = Some h" "MoveBefore l e mark h = Some h"
    "MoveAfter l e mark h = Some h" "MoveBefore l mark e h = Some h" "MoveAfter l mark e h = Some h"
  using rel_owner [OF r, of e l] e
  by (simp_all add: InsertBefore_def InsertAfter_def MoveToFront_def MoveToBack_def MoveBefore_def MoveAfter_def)

lemma exec_lop_ok:
  assumes r: "rel h \<sigma>"
  shows "\<exists>h'. exec_lop x h = Some (fst (spec_lop x \<sigma>), h') \<and> rel h' (snd (spec_lop x \<sigma>))"
proof (cases x)
  case (LPushFront l v)
  with PushFront_ok [OF r, of l v] show ?thesis by (auto simp: lift_ptr_def)
next
  case (LPushBack l v)
  with PushBack_ok [OF r, of l v] show ?thesis by (auto simp: lift_ptr_def)
next
  case (LInsertBefore l v mark)
  with InsertBefore_ok [OF r, of mark l v] foreign_ops(1) [OF r, of mark l v] r show ?thesis by auto
next
  case (LInsertAfter l v mark)
  with InsertAfter_ok [OF r, of mark l v] foreign_ops(2) [OF r, of mark l v] r show ?thesis by auto
next
  case (LRemove l e)
  with Remove_ok [OF r, of l e] show ?thesis by auto
next
  case (LMoveToFront l e)
  with MoveToFront_ok [OF r, of e l] foreign_ops(3) [OF r, of e l] r show ?thesis by auto
next
  case (LMoveToBack l e)
  with MoveToBack_ok [OF r, of e l] foreign_ops(4) [OF r, of e l] r show ?thesis by auto
next
  case (LMoveBefore l e mark)
  with MoveBefore_ok [OF r, of e l mark] foreign_ops(5) [OF r, of e l mark] foreign_ops(7) [OF r, of mark l e] r
  show ?thesis by (cases "e = mark") (auto simp: MoveBefore_def)
next
  case (LMoveAfter l e mark)
  with MoveAfter_ok [OF r, of e l mark] foreign_ops(6) [OF r, of e l mark] foreign_ops(8) [OF r, of mark l e] r
  show ?thesis by (cases "e = mark") (auto simp: MoveAfter_def)
next
  case (LPushBackList l other)
  with PushBackList_ok [OF r, of l other] show ?thesis by auto
next
  case (LPushFrontList l other)
  with PushFrontList_ok [OF r, of l other] show ?thesis by auto
qed

lemma exec_lops_ok:
  "rel h \<sigma> \<Longrightarrow> \<exists>h'. exec_lops xs h = Some (fst (spec_lops xs \<sigma>), h') \<and> rel h' (snd (spec_lops xs \<sigma>))"
proof (induction xs arbitrary: h \<sigma>)
  case (Cons x xs)
  obtain h1 where h1: "exec_lop x h = Some (fst (spec_lop x \<sigma>), h1)" "rel h1 (snd (spec_lop x \<sigma>))"
    using exec_lop_ok [OF Cons.prems] by blast
  from Cons.IH [OF h1(2)] obtain h2 where
    "exec_lops xs h1 = Some (fst (spec_lops xs (snd (spec_lop x \<sigma>))), h2)"
    "rel h2 (snd (spec_lops xs (snd (spec_lop x \<sigma>))))" by blast
  with h1(1) show ?case by (simp add: split_beta Let_def)
qed simp

section \<open>Iterating over a list\<close>

text \<open>The loops \<open>for e := l.Front(); e != nil; e = e.Next()\<close> and back, for at most \<open>n\<close> rounds.\<close>

fun forward :: "nat \<Rightarrow> ptr \<Rightarrow> 'v lheap \<Rightarrow> node list" where
  "forward (Suc n) (Some e) h = e # forward n (eNext e h) h"
| "forward n p h = []"

fun backward :: "nat \<Rightarrow> ptr \<Rightarrow> 'v lheap \<Rightarrow> node list" where
  "backward (Suc n) (Some e) h = e # backward n (ePrev e h) h"
| "backward n p h = []"

lemma forward_from:
  assumes "rel h \<sigma>" "lists \<sigma> l = us @ vs" "length vs \<le> n"
  shows "forward n (if vs = [] then None else Some (hd vs)) h = vs"
  using assms(2,3)
proof (induction vs arbitrary: us n)
  case (Cons e vs)
  then obtain m where m: "n = Suc m" by (cases n) auto
  have "lists \<sigma> l = (us @ [e]) @ vs" using Cons.prems(1) by simp
  with Cons.IH [of "us @ [e]" m] Cons.prems(2) eNext_ok [OF assms(1) Cons.prems(1)] show ?case
    by (simp add: m)
qed (cases n; simp)

lemma backward_from:
  assumes "rel h \<sigma>" "lists \<sigma> l = us @ vs" "length us \<le> n"
  shows "backward n (if us = [] then None else Some (last us)) h = rev us"
  using assms(2,3)
proof (induction us arbitrary: vs n rule: rev_induct)
  case (snoc e us)
  then obtain m where m: "n = Suc m" by (cases n) auto
  have l: "lists \<sigma> l = us @ e # vs" using snoc.prems(1) by simp
  with snoc.IH [of "e # vs" m] snoc.prems(2) ePrev_ok [OF assms(1) l] show ?case
    by (simp add: m)
qed (cases n; simp)

definition elements :: "nat \<Rightarrow> 'v lheap \<Rightarrow> node list" where
  "elements l h = forward (nat (Len l h)) (Front l h) h"

lemma elements_ok: "rel h \<sigma> \<Longrightarrow> elements l h = lists \<sigma> l"
  using forward_from [of h \<sigma> l "[]" "lists \<sigma> l" "nat (Len l h)"] Front_ok [of h \<sigma> l] Len_ok [of h \<sigma> l]
  by (simp add: elements_def)

section \<open>Properties\<close>


text \<open>Iteration: after any sequence of methods, going forward from \<open>Front\<close> visits exactly the
  elements of the plain list in order and then stops, going back from \<open>Back\<close> visits them in
  reverse, and \<open>Len\<close> is their number.\<close>
theorem iteration_visits_the_list:
  assumes "exec_lops xs (zero_heap v) = Some (rs, h)" "Len l h \<le> int n"
  shows "forward n (Front l h) h = lists (snd (spec_lops xs (no_lists v))) l \<and>
    backward n (Back l h) h = rev (forward n (Front l h) h) \<and>
    Len l h = int (length (forward n (Front l h) h))"
proof -
  let ?\<sigma> = "snd (spec_lops xs (no_lists v))"
  have r: "rel h ?\<sigma>" using exec_lops_ok [OF rel_zero, of xs v] assms(1) by auto
  have n: "length (lists ?\<sigma> l) \<le> n" using assms(2) Len_ok [OF r, of l] by simp
  have "forward n (Front l h) h = lists ?\<sigma> l"
    using forward_from [OF r, of l "[]" "lists ?\<sigma> l" n] Front_ok [OF r, of l] n by simp
  moreover have "backward n (Back l h) h = rev (lists ?\<sigma> l)"
    using backward_from [OF r, of l "lists ?\<sigma> l" "[]" n] Back_ok [OF r, of l] n by simp
  ultimately show ?thesis using Len_ok [OF r, of l] by simp
qed

lemmas method_defs =
  PushBack_def PushFront_def lazyInit_def lInit_def insertValue_def list_insert_def set_nxt_def set_prv_def
  set_owner_def add_len_def lift_ptr_def zero_heap_def

definition sample_ops :: "nat lop list" where
  "sample_ops = [LPushBack 0 7, LPushFront 0 5]"

definition sample_heap :: "nat lheap" where
  "sample_heap = snd (the (exec_lops sample_ops (zero_heap (\<lambda>_. 0))))"

lemma sample_run:
  "\<exists>rs. exec_lops sample_ops (zero_heap (\<lambda>_. 0)) = Some (rs, sample_heap)"
  using exec_lops_ok [OF rel_zero, of sample_ops "\<lambda>_. 0"]
  by (auto simp: sample_heap_def)

theorem iteration_visits_the_list_witness:
  "forward 2 (Front 0 sample_heap) sample_heap = [Elem 1, Elem 0]"
proof -
  obtain rs where run: "exec_lops sample_ops (zero_heap (\<lambda>_. 0)) = Some (rs, sample_heap)"
    using sample_run by blast
  have "Len 0 sample_heap \<le> int 2" by (simp add: sample_heap_def sample_ops_def method_defs Len_def Let_def)
  from iteration_visits_the_list [OF run this] show ?thesis
    by (simp add: sample_ops_def no_lists_def add_value_def Let_def)
qed

lemma fold_add_values:
  assumes f: "\<And>g :: node \<Rightarrow> 'v. \<And>e xs. map g (f e xs) = comb (g e) (map g xs)"
    and fset: "\<And>e xs. set (f e xs) = insert e (set xs)"
  shows "(\<And>m n. Elem n \<in> set (lists \<sigma> m) \<Longrightarrow> n < fresh \<sigma>) \<Longrightarrow>
    map (vals (fold (\<lambda>v. add_value l v f) vs \<sigma>)) (lists (fold (\<lambda>v. add_value l v f) vs \<sigma>) l) =
      fold comb vs (map (vals \<sigma>) (lists \<sigma> l)) \<and>
    (\<forall>m. m \<noteq> l \<longrightarrow> lists (fold (\<lambda>v. add_value l v f) vs \<sigma>) m = lists \<sigma> m)"
proof (induction vs arbitrary: \<sigma>)
  case (Cons v vs)
  let ?\<sigma> = "add_value l v f \<sigma>"
  have "n < fresh ?\<sigma>" if "Elem n \<in> set (lists ?\<sigma> m)" for m n
    using that Cons.prems [of n m] Cons.prems [of n l]
    by (auto simp: add_value_def Let_def fset split: if_splits)
  from Cons.IH [OF this]
  have "map (vals (fold (\<lambda>v. add_value l v f) (v # vs) \<sigma>)) (lists (fold (\<lambda>v. add_value l v f) (v # vs) \<sigma>) l) =
      fold comb vs (map (vals ?\<sigma>) (lists ?\<sigma> l)) \<and>
    (\<forall>m. m \<noteq> l \<longrightarrow> lists (fold (\<lambda>v. add_value l v f) (v # vs) \<sigma>) m = lists ?\<sigma> m)"
    by simp
  moreover have "x \<noteq> Elem (fresh \<sigma>)" if "x \<in> set (lists \<sigma> l)" for x
    using Cons.prems [of "fresh \<sigma>" l] that by auto
  then have eqv: "map ((vals \<sigma>)(Elem (fresh \<sigma>) := v)) (lists \<sigma> l) = map (vals \<sigma>) (lists \<sigma> l)" by auto
  have "map (vals ?\<sigma>) (lists ?\<sigma> l) = comb v (map (vals \<sigma>) (lists \<sigma> l))"
    by (simp add: add_value_def Let_def f del: map_eq_conv) (simp only: eqv)
  moreover have "lists ?\<sigma> m = lists \<sigma> m" if "m \<noteq> l" for m using that by (simp add: add_value_def Let_def)
  ultimately show ?case by simp
qed simp

lemma fold_snoc: "fold (\<lambda>v xs. xs @ [v]) vs xs = xs @ vs"
  by (induction vs arbitrary: xs) auto

text \<open>The values of a list, in order.\<close>

definition list_values :: "nat \<Rightarrow> 'v lheap \<Rightarrow> 'v list" where
  "list_values l h = map (val h) (elements l h)"

lemma list_values_ok: "rel h \<sigma> \<Longrightarrow> list_values l h = map (vals \<sigma>) (lists \<sigma> l)"
  by (simp add: list_values_def elements_ok) (simp add: rel_def)

lemma spec_low: "rel h \<sigma> \<Longrightarrow> Elem n \<in> set (lists \<sigma> m) \<Longrightarrow> n < fresh \<sigma>"
  using heap_okD(3) [OF rel_heap, of h \<sigma> n m] by (simp add: rel_def)

text \<open>\<open>PushBackList\<close> appends a copy of the other list's values and \<open>PushFrontList\<close> prepends it,
  in order, also when a list is copied onto itself; all other lists keep their elements.\<close>
theorem PushList_copies_the_values:
  assumes "rel h \<sigma>"
  shows "\<exists>h1 h2. PushBackList l other h = Some h1 \<and> PushFrontList l other h = Some h2 \<and>
    list_values l h1 = list_values l h @ list_values other h \<and>
    list_values l h2 = list_values other h @ list_values l h \<and>
    (\<forall>m. m \<noteq> l \<longrightarrow> elements m h1 = elements m h \<and> elements m h2 = elements m h)"
proof -
  let ?b = "fold (\<lambda>v. add_value l v (\<lambda>e xs. xs @ [e])) (map (vals \<sigma>) (lists \<sigma> other)) \<sigma>"
  let ?f = "fold (\<lambda>v. add_value l v (#)) (map (vals \<sigma>) (rev (lists \<sigma> other))) \<sigma>"
  note low = spec_low [OF assms]
  have b: "map (vals ?b) (lists ?b l) = map (vals \<sigma>) (lists \<sigma> l) @ map (vals \<sigma>) (lists \<sigma> other)"
    "\<forall>m. m \<noteq> l \<longrightarrow> lists ?b m = lists \<sigma> m"
    using fold_add_values [where f = "\<lambda>e xs. xs @ [e]" and comb = "\<lambda>v xs. xs @ [v]" and \<sigma> = \<sigma> and l = l
      and vs = "map (vals \<sigma>) (lists \<sigma> other)", OF _ _ low]
    by (simp_all add: fold_snoc)
  have f: "map (vals ?f) (lists ?f l) = map (vals \<sigma>) (lists \<sigma> other) @ map (vals \<sigma>) (lists \<sigma> l)"
    "\<forall>m. m \<noteq> l \<longrightarrow> lists ?f m = lists \<sigma> m"
    using fold_add_values [where f = "(#)" and comb = "(#)" and \<sigma> = \<sigma> and l = l
      and vs = "map (vals \<sigma>) (rev (lists \<sigma> other))", OF _ _ low]
    by (simp_all add: fold_Cons_rev rev_map)
  obtain h1 where h1: "PushBackList l other h = Some h1" "rel h1 ?b"
    using PushBackList_ok [OF assms] by blast
  obtain h2 where h2: "PushFrontList l other h = Some h2" "rel h2 ?f"
    using PushFrontList_ok [OF assms] by blast
  show ?thesis
    using h1 h2 b f
    by (simp add: list_values_ok [OF h1(2)] list_values_ok [OF h2(2)] list_values_ok [OF assms]
        elements_ok [OF h1(2)] elements_ok [OF h2(2)] elements_ok [OF assms])
qed

lemma list_methods_sample: "\<exists>\<sigma>. rel sample_heap \<sigma> \<and> list_values 0 sample_heap = [5, 7]"
proof -
  obtain rs where run: "exec_lops sample_ops (zero_heap (\<lambda>_. 0)) = Some (rs, sample_heap)"
    using sample_run by blast
  let ?\<sigma> = "snd (spec_lops sample_ops (no_lists (\<lambda>_. 0)))"
  have r: "rel sample_heap ?\<sigma>"
    using exec_lops_ok [OF rel_zero, of sample_ops "\<lambda>_. 0"] run by auto
  then have "list_values 0 sample_heap = map (vals ?\<sigma>) (lists ?\<sigma> 0)" by (rule list_values_ok)
  also have "\<dots> = [5, 7]" by (simp add: sample_ops_def no_lists_def add_value_def Let_def)
  finally show ?thesis using r by blast
qed

theorem PushList_copies_the_values_witness:
  "\<exists>h1 h2. PushBackList 0 0 sample_heap = Some h1 \<and> PushFrontList 0 0 sample_heap = Some h2 \<and>
    list_values 0 h1 = [5, 7, 5, 7] \<and> list_values 0 h2 = [5, 7, 5, 7]"
proof -
  obtain \<sigma> where r: "rel sample_heap \<sigma>" "list_values 0 sample_heap = [5, 7]"
    using list_methods_sample by blast
  from PushList_copies_the_values [OF r(1), of 0 0] show ?thesis by (auto simp: r(2))
qed

text \<open>\<open>Init\<close> does not detach the elements it drops: an element of the old list still names the
  list as its own, so removing it afterwards drives \<open>Len\<close> to -1, and \<open>Front\<close> then hands out the
  sentinel.\<close>
theorem Init_leaves_stale_elements:
  "\<exists>h1 h2. PushBack 0 v (zero_heap u) = Some (Elem 0, h1) \<and> Remove 0 (Elem 0) (lInit 0 h1) = Some (v, h2) \<and>
    Len 0 (lInit 0 h1) = 0 \<and> Len 0 h2 = - 1 \<and> Front 0 h2 = Some (Root 0)"
  by (simp add: method_defs Remove_def list_remove_def Len_def Front_def Let_def)

end
