(* ===== verification/XsyncMap.thy ===== *)
theory XsyncMap
  imports NH_Prelude
begin

text \<open>
  \<open>pkgs/xsync/map.go\<close>: the generic concurrent map with a read-only part, a dirty part and
  entries shared between them. An entry is an address of the store \<open>heap\<close>, so that the
  aliasing of an entry between \<open>read.m\<close> and \<open>dirty\<close> is explicit. Every method is modelled
  as a whole, as it runs when no other call interferes (each compare-and-swap then succeeds
  at its first attempt, and the second look at \<open>read\<close> under the lock sees what the first
  one saw; both looks are kept in the definitions). A write to a nil \<open>dirty\<close> map is the
  panic \<open>None\<close>.

  The lookup pair \<open>(value, ok)\<close> of Go is an option value.
\<close>

section \<open>State\<close>

text \<open>The pointer in an entry: nil, the marker \<open>expunged\<close>, or a pointer to a value.\<close>

datatype 'v slot = PNil | PExpunged | PVal 'v

record ('k, 'v) xmap =
  read_m :: "('k \<times> nat) list"
  amended :: bool
  dirty :: "('k \<times> nat) list option"
  misses :: nat
  heap :: "nat \<Rightarrow> 'v slot"
  next_entry :: nat

definition empty_xmap :: "('k, 'v) xmap" where
  "empty_xmap = \<lparr>read_m = [], amended = False, dirty = None, misses = 0,
                 heap = (\<lambda>_. PNil), next_entry = 0\<rparr>"

text \<open>A lookup in the dirty map; reading a nil map finds nothing.\<close>

definition dirty_lookup :: "('k, 'v) xmap \<Rightarrow> 'k \<Rightarrow> nat option" where
  "dirty_lookup m key = (case dirty m of None \<Rightarrow> None | Some d \<Rightarrow> map_of d key)"

definition dirty_len :: "('k, 'v) xmap \<Rightarrow> nat" where
  "dirty_len m = (case dirty m of None \<Rightarrow> 0 | Some d \<Rightarrow> length d)"

definition dirty_put :: "'k \<Rightarrow> nat \<Rightarrow> ('k, 'v) xmap \<Rightarrow> ('k, 'v) xmap option" where
  "dirty_put key e m =
     (case dirty m of None \<Rightarrow> None | Some d \<Rightarrow> Some (m\<lparr>dirty := Some (AList.update key e d)\<rparr>))"

definition write_slot :: "nat \<Rightarrow> 'v slot \<Rightarrow> ('k, 'v) xmap \<Rightarrow> ('k, 'v) xmap" where
  "write_slot e p m = m\<lparr>heap := (heap m)(e := p)\<rparr>"

section \<open>Operations on entries\<close>

definition newEntry :: "'v \<Rightarrow> ('k, 'v) xmap \<Rightarrow> nat \<times> ('k, 'v) xmap" where
  "newEntry i m =
     (next_entry m, write_slot (next_entry m) (PVal i) m\<lparr>next_entry := Suc (next_entry m)\<rparr>)"

definition entry_load :: "nat \<Rightarrow> ('k, 'v) xmap \<Rightarrow> 'v option" where
  "entry_load e m = (case heap m e of PNil \<Rightarrow> None | PExpunged \<Rightarrow> None | PVal v \<Rightarrow> Some v)"

text \<open>The argument \<open>old\<close> is not used, in the code as here.\<close>

definition tryCompareAndSwap ::
  "nat \<Rightarrow> 'v \<Rightarrow> 'v \<Rightarrow> ('k, 'v) xmap \<Rightarrow> bool \<times> ('k, 'v) xmap" where
  "tryCompareAndSwap e old new m = (case heap m e of
       PNil \<Rightarrow> (False, m)
     | PExpunged \<Rightarrow> (False, m)
     | PVal v \<Rightarrow> (True, write_slot e (PVal new) m))"

definition unexpungeLocked :: "nat \<Rightarrow> ('k, 'v) xmap \<Rightarrow> bool \<times> ('k, 'v) xmap" where
  "unexpungeLocked e m = (case heap m e of
       PExpunged \<Rightarrow> (True, write_slot e PNil m)
     | _ \<Rightarrow> (False, m))"

text \<open>\<open>swapLocked\<close> returns the previous pointer; the entry is known not to be expunged.\<close>

definition swapLocked :: "nat \<Rightarrow> 'v \<Rightarrow> ('k, 'v) xmap \<Rightarrow> 'v slot \<times> ('k, 'v) xmap" where
  "swapLocked e i m = (heap m e, write_slot e (PVal i) m)"

text \<open>The triple is \<open>(actual, loaded, ok)\<close>; the zero value of the value type is \<open>None\<close>.\<close>

definition tryLoadOrStore ::
  "nat \<Rightarrow> 'v \<Rightarrow> ('k, 'v) xmap \<Rightarrow> ('v option \<times> bool \<times> bool) \<times> ('k, 'v) xmap" where
  "tryLoadOrStore e i m = (case heap m e of
       PExpunged \<Rightarrow> ((None, False, False), m)
     | PVal v \<Rightarrow> ((Some v, True, True), m)
     | PNil \<Rightarrow> ((Some i, False, True), write_slot e (PVal i) m))"

definition entry_delete :: "nat \<Rightarrow> ('k, 'v) xmap \<Rightarrow> 'v option \<times> ('k, 'v) xmap" where
  "entry_delete e m = (case heap m e of
       PNil \<Rightarrow> (None, m)
     | PExpunged \<Rightarrow> (None, m)
     | PVal v \<Rightarrow> (Some v, write_slot e PNil m))"

text \<open>\<open>None\<close> is \<open>ok == false\<close>, otherwise the previous pointer.\<close>

definition trySwap :: "nat \<Rightarrow> 'v \<Rightarrow> ('k, 'v) xmap \<Rightarrow> 'v slot option \<times> ('k, 'v) xmap" where
  "trySwap e i m = (case heap m e of
       PExpunged \<Rightarrow> (None, m)
     | p \<Rightarrow> (Some p, write_slot e (PVal i) m))"

definition tryExpungeLocked :: "nat \<Rightarrow> ('k, 'v) xmap \<Rightarrow> bool \<times> ('k, 'v) xmap" where
  "tryExpungeLocked e m = (case heap m e of
       PNil \<Rightarrow> (True, write_slot e PExpunged m)
     | PExpunged \<Rightarrow> (True, m)
     | PVal v \<Rightarrow> (False, m))"

text \<open>
  The value behind a swapped-out pointer, as \<open>Swap\<close> reports it. Reading the marker as if it
  pointed to a value has no defined result; the invariant excludes it.
\<close>

fun slot_value :: "'v slot \<Rightarrow> 'v option option" where
  "slot_value PNil = Some None"
| "slot_value PExpunged = None"
| "slot_value (PVal v) = Some (Some v)"

section \<open>Locked helpers\<close>

text \<open>Promotion of the dirty map to the read map; a nil dirty map gives an empty read map.\<close>

definition promote :: "('k, 'v) xmap \<Rightarrow> ('k, 'v) xmap" where
  "promote m = m\<lparr>read_m := (case dirty m of None \<Rightarrow> [] | Some d \<Rightarrow> d), amended := False,
                 dirty := None, misses := 0\<rparr>"

definition missLocked :: "('k, 'v) xmap \<Rightarrow> ('k, 'v) xmap" where
  "missLocked m =
     (let m = m\<lparr>misses := misses m + 1\<rparr>
      in if misses m < dirty_len m then m else promote m)"

fun dirty_loop :: "('k \<times> nat) list \<Rightarrow> ('k, 'v) xmap \<Rightarrow> ('k, 'v) xmap" where
  "dirty_loop [] m = m"
| "dirty_loop ((k, e) # xs) m =
     (let (isExpunged, m) = tryExpungeLocked e m in
      dirty_loop xs
        (if isExpunged then m
         else m\<lparr>dirty := map_option (AList.update k e) (dirty m)\<rparr>))"

definition dirtyLocked :: "('k, 'v) xmap \<Rightarrow> ('k, 'v) xmap" where
  "dirtyLocked m =
     (if dirty m \<noteq> None then m
      else dirty_loop (read_m m) (m\<lparr>dirty := Some []\<rparr>))"

section \<open>The methods\<close>

definition Load :: "'k \<Rightarrow> ('k, 'v) xmap \<Rightarrow> 'v option \<times> ('k, 'v) xmap" where
  "Load key m =
     (let e = map_of (read_m m) key;
          (e, m) = (if e = None \<and> amended m then
                      let e = map_of (read_m m) key in
                      if e = None \<and> amended m
                      then (dirty_lookup m key, missLocked m)
                      else (e, m)
                    else (e, m))
      in case e of None \<Rightarrow> (None, m) | Some a \<Rightarrow> (entry_load a m, m))"

text \<open>The part of \<open>Swap\<close> and \<open>LoadOrStore\<close> that adds a key that neither map has.\<close>

definition add_new :: "'k \<Rightarrow> 'v \<Rightarrow> ('k, 'v) xmap \<Rightarrow> ('k, 'v) xmap option" where
  "add_new key value m =
     (let m = (if \<not> amended m then (dirtyLocked m)\<lparr>amended := True\<rparr> else m);
          (e, m) = newEntry value m
      in dirty_put key e m)"

definition LoadOrStore ::
  "'k \<Rightarrow> 'v \<Rightarrow> ('k, 'v) xmap \<Rightarrow> (('v option \<times> bool) \<times> ('k, 'v) xmap) option" where
  "LoadOrStore key value m =
     (let ((actual, loaded, ok), m) = (case map_of (read_m m) key of
                Some e \<Rightarrow> tryLoadOrStore e value m | None \<Rightarrow> ((None, False, False), m))
      in if ok then Some ((actual, loaded), m)
         else
         (case map_of (read_m m) key of
            Some e \<Rightarrow> do {
              let (was, m) = unexpungeLocked e m;
              m \<leftarrow> (if was then dirty_put key e m else Some m);
              let ((actual, loaded, _), m) = tryLoadOrStore e value m;
              Some ((actual, loaded), m)
            }
          | None \<Rightarrow>
            (case dirty_lookup m key of
               Some e \<Rightarrow>
                 (let ((actual, loaded, _), m) = tryLoadOrStore e value m
                  in Some ((actual, loaded), missLocked m))
             | None \<Rightarrow> do { m \<leftarrow> add_new key value m; Some ((Some value, False), m) })))"

definition LoadAndDelete :: "'k \<Rightarrow> ('k, 'v) xmap \<Rightarrow> 'v option \<times> ('k, 'v) xmap" where
  "LoadAndDelete key m =
     (let e = map_of (read_m m) key;
          (e, m) = (if e = None \<and> amended m then
                      let e = map_of (read_m m) key in
                      if e = None \<and> amended m
                      then (dirty_lookup m key,
                            missLocked (m\<lparr>dirty := map_option (AList.delete key) (dirty m)\<rparr>))
                      else (e, m)
                    else (e, m))
      in case e of Some a \<Rightarrow> entry_delete a m | None \<Rightarrow> (None, m))"

definition Delete :: "'k \<Rightarrow> ('k, 'v) xmap \<Rightarrow> ('k, 'v) xmap" where
  "Delete key m = snd (LoadAndDelete key m)"

definition Swap :: "'k \<Rightarrow> 'v \<Rightarrow> ('k, 'v) xmap \<Rightarrow> ('v option \<times> ('k, 'v) xmap) option" where
  "Swap key value m =
     (let (r, m) = (case map_of (read_m m) key of
                      Some e \<Rightarrow> trySwap e value m | None \<Rightarrow> (None, m))
      in case r of Some p \<Rightarrow> do { v \<leftarrow> slot_value p; Some (v, m) }
       | None \<Rightarrow>
         (case map_of (read_m m) key of
            Some e \<Rightarrow> do {
              let (was, m) = unexpungeLocked e m;
              m \<leftarrow> (if was then dirty_put key e m else Some m);
              let (p, m) = swapLocked e value m;
              v \<leftarrow> slot_value p;
              Some (v, m)
            }
          | None \<Rightarrow>
            (case dirty_lookup m key of
               Some e \<Rightarrow> do {
                 let (p, m) = swapLocked e value m;
                 v \<leftarrow> slot_value p;
                 Some (v, m)
               }
             | None \<Rightarrow> do { m \<leftarrow> add_new key value m; Some (None, m) })))"

definition Store :: "'k \<Rightarrow> 'v \<Rightarrow> ('k, 'v) xmap \<Rightarrow> ('k, 'v) xmap option" where
  "Store key value m = map_option snd (Swap key value m)"

definition CompareAndSwap ::
  "'k \<Rightarrow> 'v \<Rightarrow> 'v \<Rightarrow> ('k, 'v) xmap \<Rightarrow> bool \<times> ('k, 'v) xmap" where
  "CompareAndSwap key old new m =
     (case map_of (read_m m) key of
        Some e \<Rightarrow> tryCompareAndSwap e old new m
      | None \<Rightarrow>
        if \<not> amended m then (False, m)
        else (case map_of (read_m m) key of
            Some e \<Rightarrow> tryCompareAndSwap e old new m
          | None \<Rightarrow>
            (case dirty_lookup m key of
               Some e \<Rightarrow> (let (swapped, m) = tryCompareAndSwap e old new m in (swapped, missLocked m))
             | None \<Rightarrow> (False, m))))"

definition CompareAndDelete :: "'k \<Rightarrow> 'v \<Rightarrow> ('k, 'v) xmap \<Rightarrow> bool \<times> ('k, 'v) xmap" where
  "CompareAndDelete key old m =
     (let e = map_of (read_m m) key;
          (e, m) = (if e = None \<and> amended m then
                      let e = map_of (read_m m) key in
                      if e = None \<and> amended m
                      then (dirty_lookup m key, missLocked m)
                      else (e, m)
                    else (e, m))
      in case e of
           None \<Rightarrow> (False, m)
         | Some a \<Rightarrow> (case heap m a of
               PNil \<Rightarrow> (False, m)
             | PExpunged \<Rightarrow> (False, m)
             | PVal v \<Rightarrow> (True, write_slot a PNil m)))"

text \<open>
  \<open>Range\<close>: the callback works on the map itself and on the caller's state, and returns
  whether to go on. \<open>ord\<close> is the order in which the run time enumerates the map.
\<close>

fun range_loop ::
  "('k \<Rightarrow> 'v \<Rightarrow> ('k, 'v) xmap \<times> 's \<Rightarrow> bool \<times> ('k, 'v) xmap \<times> 's) \<Rightarrow> ('k \<times> nat) list \<Rightarrow>
   ('k, 'v) xmap \<times> 's \<Rightarrow> ('k, 'v) xmap \<times> 's" where
  "range_loop f [] ms = ms"
| "range_loop f ((k, e) # xs) ms =
     (case entry_load e (fst ms) of
        None \<Rightarrow> range_loop f xs ms
      | Some v \<Rightarrow> (let (go, ms) = f k v ms in if go then range_loop f xs ms else ms))"

definition Range ::
  "(('k \<times> nat) list \<Rightarrow> ('k \<times> nat) list) \<Rightarrow>
   ('k \<Rightarrow> 'v \<Rightarrow> ('k, 'v) xmap \<times> 's \<Rightarrow> bool \<times> ('k, 'v) xmap \<times> 's) \<Rightarrow>
   ('k, 'v) xmap \<Rightarrow> 's \<Rightarrow> ('k, 'v) xmap \<times> 's" where
  "Range ord f m s =
     (let m = (if amended m then (if amended m then promote m else m) else m)
      in range_loop f (ord (read_m m)) (m, s))"

end
