(* ===== verification/XsyncConc.thy ===== *)
theory XsyncConc
  imports XsyncMap
begin

text \<open>
  \<open>pkgs/xsync/map.go\<close> under concurrent use: the methods as a machine of goroutines that
  interleave between their accesses to shared memory.

  A step is the code from one program point to the next and makes at most one access that
  a goroutine without the mutex can interfere with: a load of \<open>read\<close>, an atomic operation on
  the pointer of one entry, or a store to \<open>read\<close>. Accesses to \<open>dirty\<close> and \<open>misses\<close>, and the
  second load of \<open>read\<close>, are made with the mutex held and belong to the step they are in: only
  a holder of the mutex writes those fields. Each call has its own number; it is the
  address of the value that the call stores (\<open>&value\<close>, \<open>&nc\<close>, \<open>&ic\<close>: a call publishes at most
  one of them), so a compare-and-swap compares addresses, as in the code, not values.

  \<open>Store\<close> is \<open>Swap\<close> and \<open>Delete\<close> is \<open>LoadAndDelete\<close> with the results dropped. The callback of
  \<open>Range\<close> runs without the mutex; a call of the map that it makes is a call of another number.
\<close>

section \<open>Calls, results and program points\<close>

datatype ('k, 'v) xop =
    XLoad 'k | XSwap 'k 'v | XLoadOrStore 'k 'v | XLoadAndDelete 'k
  | XCompareAndSwap 'k 'v 'v | XCompareAndDelete 'k 'v

text \<open>\<open>XRange ord f\<close>: the order in which the run time enumerates the map, and the callback's answer.\<close>

datatype ('k, 'v) xcall =
    Op "('k, 'v) xop"
  | XRange "('k \<times> nat) list \<Rightarrow> ('k \<times> nat) list" "'k \<Rightarrow> 'v \<Rightarrow> bool"

datatype ('k, 'v) xret =
    GotValue "'v option" | GotLoaded "'v option" bool | GotBool bool | GotPairs "('k \<times> 'v) list"

fun key_of :: "('k, 'v) xop \<Rightarrow> 'k" where
  "key_of (XLoad k) = k"
| "key_of (XSwap k v) = k"
| "key_of (XLoadOrStore k v) = k"
| "key_of (XLoadAndDelete k) = k"
| "key_of (XCompareAndSwap k old new) = k"
| "key_of (XCompareAndDelete k old) = k"

text \<open>The value that a call may store.\<close>

fun new_value :: "('k, 'v) xop \<Rightarrow> 'v option" where
  "new_value (XSwap k v) = Some v"
| "new_value (XLoadOrStore k v) = Some v"
| "new_value (XCompareAndSwap k old new) = Some new"
| "new_value _ = None"

type_synonym 'v cell = "nat \<times> 'v"
type_synonym ('k, 'v) shared = "('k, 'v cell) xmap"

text \<open>How an entry operation ends: without the mutex, unlocking it, or recording a miss first.\<close>

datatype hold = NoLock | Locked | LockedMiss

text \<open>
  The points are between two accesses. The flag of \<open>XDelLoad\<close> and \<open>XDelCas\<close> tells whether the
  call took the entry out of the dirty map itself; no step reads it.
\<close>

datatype ('k, 'v) xpc =
    XStart
  | XLock
  | XEntryLoad nat
  | XDelLoad bool nat
  | XDelCas bool nat "'v cell slot"
  | XTrySwap nat
  | XTrySwapCas nat "'v cell slot"
  | XCasLoad hold nat
  | XCasCas hold nat "'v cell slot"
  | XLosLoad hold nat
  | XLosCas hold nat
  | XUnexpunge nat
  | XSwapEntry nat
  | XExpunge "('k \<times> nat) list"
  | XExpungeCas "('k \<times> nat) list"
  | XUnlock bool "('k, 'v) xret"
  | XRangeLoop "('k \<times> nat) list" "('k \<times> 'v) list"
  | XReturn "('k, 'v) xret"
  | XDone "('k, 'v) xret"

text \<open>A step gives the next point, the map, and the holder of the mutex; a panic is \<open>None\<close>.\<close>

type_synonym ('k, 'v) xnext = "('k, 'v) xpc \<times> ('k, 'v) shared \<times> nat option"

definition cas_slot ::
  "nat \<Rightarrow> 'v slot \<Rightarrow> 'v slot \<Rightarrow> ('k, 'v) xmap \<Rightarrow> bool \<times> ('k, 'v) xmap" where
  "cas_slot e old new m = (if heap m e = old then (True, write_slot e new m) else (False, m))"

text \<open>The value behind a pointer that was swapped out or loaded.\<close>

fun cell_value :: "'v cell slot \<Rightarrow> 'v option" where
  "cell_value PNil = None"
| "cell_value PExpunged = None"
| "cell_value (PVal (a, v)) = Some v"

fun entry_done :: "hold \<Rightarrow> ('k, 'v) xret \<Rightarrow> ('k, 'v) xpc" where
  "entry_done NoLock r = XReturn r"
| "entry_done Locked r = XUnlock False r"
| "entry_done LockedMiss r = XUnlock True r"

section \<open>First looks: the load of \<open>read\<close> without the mutex\<close>

definition Load_first :: "'k \<Rightarrow> ('k, 'v) shared \<Rightarrow> ('k, 'v) xpc" where
  "Load_first key m =
     (case map_of (read_m m) key of
        Some e \<Rightarrow> XEntryLoad e
      | None \<Rightarrow> if amended m then XLock else XReturn (GotValue None))"

definition Swap_first :: "'k \<Rightarrow> ('k, 'v) shared \<Rightarrow> ('k, 'v) xpc" where
  "Swap_first key m = (case map_of (read_m m) key of Some e \<Rightarrow> XTrySwap e | None \<Rightarrow> XLock)"

definition LoadOrStore_first :: "'k \<Rightarrow> ('k, 'v) shared \<Rightarrow> ('k, 'v) xpc" where
  "LoadOrStore_first key m =
     (case map_of (read_m m) key of Some e \<Rightarrow> XLosLoad NoLock e | None \<Rightarrow> XLock)"

definition LoadAndDelete_first :: "'k \<Rightarrow> ('k, 'v) shared \<Rightarrow> ('k, 'v) xpc" where
  "LoadAndDelete_first key m =
     (case map_of (read_m m) key of
        Some e \<Rightarrow> XDelLoad False e
      | None \<Rightarrow> if amended m then XLock else XReturn (GotValue None))"

definition CompareAndSwap_first :: "'k \<Rightarrow> ('k, 'v) shared \<Rightarrow> ('k, 'v) xpc" where
  "CompareAndSwap_first key m =
     (case map_of (read_m m) key of
        Some e \<Rightarrow> XCasLoad NoLock e
      | None \<Rightarrow> if \<not> amended m then XReturn (GotBool False) else XLock)"

definition CompareAndDelete_first :: "'k \<Rightarrow> ('k, 'v) shared \<Rightarrow> ('k, 'v) xpc" where
  "CompareAndDelete_first key m =
     (case map_of (read_m m) key of
        Some e \<Rightarrow> XDelLoad False e
      | None \<Rightarrow> if amended m then XLock else XReturn (GotBool False))"

fun op_first :: "('k, 'v) xop \<Rightarrow> ('k, 'v) shared \<Rightarrow> ('k, 'v) xpc" where
  "op_first (XLoad k) m = Load_first k m"
| "op_first (XSwap k v) m = Swap_first k m"
| "op_first (XLoadOrStore k v) m = LoadOrStore_first k m"
| "op_first (XLoadAndDelete k) m = LoadAndDelete_first k m"
| "op_first (XCompareAndSwap k old new) m = CompareAndSwap_first k m"
| "op_first (XCompareAndDelete k old) m = CompareAndDelete_first k m"

section \<open>Taking the mutex\<close>

text \<open>
  From \<open>mu.Lock\<close> to the next access to an entry, or to the unlock when there is none. The map
  is the one the goroutine finds when it gets the mutex.
\<close>

definition Load_locked :: "'k \<Rightarrow> ('k, 'v) shared \<Rightarrow> ('k, 'v) xnext" where
  "Load_locked key m =
     (case map_of (read_m m) key of
        Some e \<Rightarrow> (XEntryLoad e, m, None)
      | None \<Rightarrow>
        if amended m then
          (case dirty_lookup m key of
             Some e \<Rightarrow> (XEntryLoad e, missLocked m, None)
           | None \<Rightarrow> (XReturn (GotValue None), missLocked m, None))
        else (XReturn (GotValue None), m, None))"

definition LoadAndDelete_locked :: "'k \<Rightarrow> ('k, 'v) shared \<Rightarrow> ('k, 'v) xnext" where
  "LoadAndDelete_locked key m =
     (case map_of (read_m m) key of
        Some e \<Rightarrow> (XDelLoad False e, m, None)
      | None \<Rightarrow>
        if amended m then
          (let m' = missLocked (m\<lparr>dirty := map_option (AList.delete key) (dirty m)\<rparr>)
           in case dirty_lookup m key of
                Some e \<Rightarrow> (XDelLoad True e, m', None)
              | None \<Rightarrow> (XReturn (GotValue None), m', None))
        else (XReturn (GotValue None), m, None))"

definition CompareAndDelete_locked :: "'k \<Rightarrow> ('k, 'v) shared \<Rightarrow> ('k, 'v) xnext" where
  "CompareAndDelete_locked key m =
     (case map_of (read_m m) key of
        Some e \<Rightarrow> (XDelLoad False e, m, None)
      | None \<Rightarrow>
        if amended m then
          (case dirty_lookup m key of
             Some e \<Rightarrow> (XDelLoad False e, missLocked m, None)
           | None \<Rightarrow> (XReturn (GotBool False), missLocked m, None))
        else (XReturn (GotBool False), m, None))"

definition CompareAndSwap_locked :: "nat \<Rightarrow> 'k \<Rightarrow> ('k, 'v) shared \<Rightarrow> ('k, 'v) xnext" where
  "CompareAndSwap_locked t key m =
     (case map_of (read_m m) key of
        Some e \<Rightarrow> (XCasLoad Locked e, m, Some t)
      | None \<Rightarrow>
        (case dirty_lookup m key of
           Some e \<Rightarrow> (XCasLoad LockedMiss e, m, Some t)
         | None \<Rightarrow> (XReturn (GotBool False), m, None)))"

text \<open>\<open>m.dirty[key] = newEntry(value)\<close> and the unlock.\<close>

definition insert_entry ::
  "nat \<Rightarrow> 'k \<Rightarrow> 'v \<Rightarrow> ('k, 'v) xret \<Rightarrow> ('k, 'v) shared \<Rightarrow> ('k, 'v) xnext option" where
  "insert_entry t key value r m =
     (let (e, m) = newEntry (t, value) m
      in do { m \<leftarrow> dirty_put key e m; Some (XReturn r, m, None) })"

text \<open>The key is in neither map: \<open>dirtyLocked\<close> up to its first access to an entry, or the insertion.\<close>

definition add_locked ::
  "nat \<Rightarrow> 'k \<Rightarrow> 'v \<Rightarrow> ('k, 'v) xret \<Rightarrow> ('k, 'v) shared \<Rightarrow> ('k, 'v) xnext option" where
  "add_locked t key value r m =
     (if \<not> amended m then
        (if dirty m \<noteq> None then Some (XExpunge [], m, Some t)
         else Some (XExpunge (read_m m), m\<lparr>dirty := Some []\<rparr>, Some t))
      else insert_entry t key value r m)"

definition Swap_locked :: "nat \<Rightarrow> 'k \<Rightarrow> 'v \<Rightarrow> ('k, 'v) shared \<Rightarrow> ('k, 'v) xnext option" where
  "Swap_locked t key value m =
     (case map_of (read_m m) key of
        Some e \<Rightarrow> Some (XUnexpunge e, m, Some t)
      | None \<Rightarrow>
        (case dirty_lookup m key of
           Some e \<Rightarrow> Some (XSwapEntry e, m, Some t)
         | None \<Rightarrow> add_locked t key value (GotValue None) m))"

definition LoadOrStore_locked ::
  "nat \<Rightarrow> 'k \<Rightarrow> 'v \<Rightarrow> ('k, 'v) shared \<Rightarrow> ('k, 'v) xnext option" where
  "LoadOrStore_locked t key value m =
     (case map_of (read_m m) key of
        Some e \<Rightarrow> Some (XUnexpunge e, m, Some t)
      | None \<Rightarrow>
        (case dirty_lookup m key of
           Some e \<Rightarrow> Some (XLosLoad LockedMiss e, m, Some t)
         | None \<Rightarrow> add_locked t key value (GotLoaded (Some value) False) m))"

fun op_locked :: "nat \<Rightarrow> ('k, 'v) xop \<Rightarrow> ('k, 'v) shared \<Rightarrow> ('k, 'v) xnext option" where
  "op_locked t (XLoad k) m = Some (Load_locked k m)"
| "op_locked t (XSwap k v) m = Swap_locked t k v m"
| "op_locked t (XLoadOrStore k v) m = LoadOrStore_locked t k v m"
| "op_locked t (XLoadAndDelete k) m = Some (LoadAndDelete_locked k m)"
| "op_locked t (XCompareAndSwap k old new) m = Some (CompareAndSwap_locked t k m)"
| "op_locked t (XCompareAndDelete k old) m = Some (CompareAndDelete_locked k m)"

section \<open>Accesses to an entry\<close>

definition load_entry :: "nat \<Rightarrow> ('k, 'v) shared \<Rightarrow> ('k, 'v) xpc" where
  "load_entry e m = XReturn (GotValue (cell_value (heap m e)))"

text \<open>\<open>entry.delete\<close>, and the loop at the end of \<open>CompareAndDelete\<close>.\<close>

fun deleted_ret :: "('k, 'v) xop \<Rightarrow> 'v option \<Rightarrow> ('k, 'v) xret" where
  "deleted_ret (XCompareAndDelete k old) v = GotBool (v \<noteq> None)"
| "deleted_ret _ v = GotValue v"

definition delete_load :: "('k, 'v) xop \<Rightarrow> bool \<Rightarrow> nat \<Rightarrow> ('k, 'v) shared \<Rightarrow> ('k, 'v) xpc" where
  "delete_load op own e m =
     (if heap m e = PNil \<or> heap m e = PExpunged then XReturn (deleted_ret op None)
      else XDelCas own e (heap m e))"

definition delete_cas ::
  "('k, 'v) xop \<Rightarrow> bool \<Rightarrow> nat \<Rightarrow> 'v cell slot \<Rightarrow> ('k, 'v) shared \<Rightarrow> ('k, 'v) xpc \<times> ('k, 'v) shared" where
  "delete_cas op own e p m =
     (case cas_slot e p PNil m of
        (True, m) \<Rightarrow> (XReturn (deleted_ret op (cell_value p)), m)
      | (False, m) \<Rightarrow> (XDelLoad own e, m))"

definition trySwap_load :: "nat \<Rightarrow> ('k, 'v) shared \<Rightarrow> ('k, 'v) xpc" where
  "trySwap_load e m = (if heap m e = PExpunged then XLock else XTrySwapCas e (heap m e))"

definition trySwap_cas ::
  "nat \<Rightarrow> 'v \<Rightarrow> nat \<Rightarrow> 'v cell slot \<Rightarrow> ('k, 'v) shared \<Rightarrow> ('k, 'v) xpc \<times> ('k, 'v) shared" where
  "trySwap_cas t value e p m =
     (case cas_slot e p (PVal (t, value)) m of
        (True, m) \<Rightarrow> (XReturn (GotValue (cell_value p)), m)
      | (False, m) \<Rightarrow> (XTrySwap e, m))"

definition tryCompareAndSwap_load :: "hold \<Rightarrow> nat \<Rightarrow> ('k, 'v) shared \<Rightarrow> ('k, 'v) xpc" where
  "tryCompareAndSwap_load h e m =
     (if heap m e = PNil \<or> heap m e = PExpunged then entry_done h (GotBool False)
      else XCasCas h e (heap m e))"

definition tryCompareAndSwap_cas ::
  "nat \<Rightarrow> 'v \<Rightarrow> hold \<Rightarrow> nat \<Rightarrow> 'v cell slot \<Rightarrow> ('k, 'v) shared \<Rightarrow> ('k, 'v) xpc \<times> ('k, 'v) shared" where
  "tryCompareAndSwap_cas t new h e p m =
     (case cas_slot e p (PVal (t, new)) m of
        (True, m) \<Rightarrow> (entry_done h (GotBool True), m)
      | (False, m) \<Rightarrow> (XCasLoad h e, m))"

text \<open>
  \<open>tryLoadOrStore\<close>: without the mutex an expunged entry leads to the locked part; with it the
  third result is dropped.
\<close>

definition tryLoadOrStore_load :: "hold \<Rightarrow> nat \<Rightarrow> ('k, 'v) shared \<Rightarrow> ('k, 'v) xpc" where
  "tryLoadOrStore_load h e m =
     (case heap m e of
        PExpunged \<Rightarrow> (if h = NoLock then XLock else entry_done h (GotLoaded None False))
      | PVal p \<Rightarrow> entry_done h (GotLoaded (Some (snd p)) True)
      | PNil \<Rightarrow> XLosCas h e)"

definition tryLoadOrStore_cas ::
  "nat \<Rightarrow> 'v \<Rightarrow> hold \<Rightarrow> nat \<Rightarrow> ('k, 'v) shared \<Rightarrow> ('k, 'v) xpc \<times> ('k, 'v) shared" where
  "tryLoadOrStore_cas t value h e m =
     (case cas_slot e PNil (PVal (t, value)) m of
        (True, m) \<Rightarrow> (entry_done h (GotLoaded (Some value) False), m)
      | (False, m) \<Rightarrow> (XLosLoad h e, m))"

text \<open>
  With the mutex: \<open>unexpungeLocked\<close> and the assignment to \<open>dirty\<close> that follows it, which
  panics if \<open>dirty\<close> is nil; then \<open>swapLocked\<close> or \<open>tryLoadOrStore\<close>.
\<close>

definition unexpunge_step ::
  "('k, 'v) xop \<Rightarrow> nat \<Rightarrow> ('k, 'v) shared \<Rightarrow> (('k, 'v) xpc \<times> ('k, 'v) shared) option" where
  "unexpunge_step op e m =
     (let (was, m) = cas_slot e PExpunged PNil m;
          pc = (case op of XSwap k v \<Rightarrow> XSwapEntry e | _ \<Rightarrow> XLosLoad Locked e)
      in do { m \<leftarrow> (if was then dirty_put (key_of op) e m else Some m); Some (pc, m) })"

definition swap_step :: "nat \<Rightarrow> 'v \<Rightarrow> nat \<Rightarrow> ('k, 'v) shared \<Rightarrow> ('k, 'v) xpc \<times> ('k, 'v) shared" where
  "swap_step t value e m =
     (XUnlock False (GotValue (cell_value (heap m e))), write_slot e (PVal (t, value)) m)"

text \<open>The loop of \<open>dirtyLocked\<close>; after it \<open>read\<close> is marked as amended and the key is added.\<close>

definition expunge_load :: "('k \<times> nat) list \<Rightarrow> ('k, 'v) shared \<Rightarrow> ('k, 'v) xpc \<times> ('k, 'v) shared" where
  "expunge_load xs m =
     (case xs of
        [] \<Rightarrow> (XExpunge [], m)
      | (k, e) # rest \<Rightarrow>
        (case heap m e of
           PNil \<Rightarrow> (XExpungeCas xs, m)
         | PExpunged \<Rightarrow> (XExpunge rest, m)
         | PVal p \<Rightarrow> (XExpunge rest, m\<lparr>dirty := map_option (AList.update k e) (dirty m)\<rparr>)))"

definition expunge_cas :: "('k \<times> nat) list \<Rightarrow> ('k, 'v) shared \<Rightarrow> ('k, 'v) xpc \<times> ('k, 'v) shared" where
  "expunge_cas xs m =
     (case cas_slot (snd (hd xs)) PNil PExpunged m of
        (True, m) \<Rightarrow> (XExpunge (tl xs), m)
      | (False, m) \<Rightarrow> (XExpunge xs, m))"

fun added_ret :: "('k, 'v) xop \<Rightarrow> ('k, 'v) xret" where
  "added_ret (XLoadOrStore k v) = GotLoaded (Some v) False"
| "added_ret _ = GotValue None"

definition amend_and_insert ::
  "nat \<Rightarrow> ('k, 'v) xop \<Rightarrow> 'v \<Rightarrow> ('k, 'v) shared \<Rightarrow> ('k, 'v) xnext option" where
  "amend_and_insert t op value m =
     insert_entry t (key_of op) value (added_ret op) (m\<lparr>amended := True\<rparr>)"

text \<open>The deferred end of a critical section: a miss, if there was one, and the unlock.\<close>

definition unlock_step :: "bool \<Rightarrow> ('k, 'v) xret \<Rightarrow> ('k, 'v) shared \<Rightarrow> ('k, 'v) xnext" where
  "unlock_step miss r m = (XReturn r, if miss then missLocked m else m, None)"

section \<open>One step of a goroutine\<close>

definition keeping ::
  "nat option \<Rightarrow> ('k, 'v) xpc \<times> ('k, 'v) shared \<Rightarrow> ('k, 'v) xnext option" where
  "keeping mu n = Some (fst n, snd n, mu)"

text \<open>A point that does not belong to the method of the call has no step (\<open>None\<close>).\<close>

fun op_step ::
  "nat \<Rightarrow> ('k, 'v) xop \<Rightarrow> ('k, 'v) xpc \<Rightarrow> ('k, 'v) shared \<Rightarrow> nat option \<Rightarrow> ('k, 'v) xnext option"
where
  "op_step t op XStart m mu = keeping mu (op_first op m, m)"
| "op_step t op XLock m mu = op_locked t op m"
| "op_step t op (XEntryLoad e) m mu = keeping mu (load_entry e m, m)"
| "op_step t op (XDelLoad own e) m mu = keeping mu (delete_load op own e m, m)"
| "op_step t op (XDelCas own e p) m mu = keeping mu (delete_cas op own e p m)"
| "op_step t op (XTrySwap e) m mu = keeping mu (trySwap_load e m, m)"
| "op_step t op (XTrySwapCas e p) m mu =
     Option.bind (new_value op) (\<lambda>v. keeping mu (trySwap_cas t v e p m))"
| "op_step t op (XCasLoad h e) m mu = keeping mu (tryCompareAndSwap_load h e m, m)"
| "op_step t op (XCasCas h e p) m mu =
     Option.bind (new_value op) (\<lambda>v. keeping mu (tryCompareAndSwap_cas t v h e p m))"
| "op_step t op (XLosLoad h e) m mu = keeping mu (tryLoadOrStore_load h e m, m)"
| "op_step t op (XLosCas h e) m mu =
     Option.bind (new_value op) (\<lambda>v. keeping mu (tryLoadOrStore_cas t v h e m))"
| "op_step t op (XUnexpunge e) m mu = Option.bind (unexpunge_step op e m) (keeping mu)"
| "op_step t op (XSwapEntry e) m mu =
     Option.bind (new_value op) (\<lambda>v. keeping mu (swap_step t v e m))"
| "op_step t op (XExpunge xs) m mu =
     (if xs = [] then Option.bind (new_value op) (\<lambda>v. amend_and_insert t op v m)
      else keeping mu (expunge_load xs m))"
| "op_step t op (XExpungeCas xs) m mu = keeping mu (expunge_cas xs m)"
| "op_step t op (XUnlock miss r) m mu = Some (unlock_step miss r m)"
| "op_step t op _ m mu = None"

text \<open>\<open>Range\<close>: the first look, the promotion under the mutex, and the loop over the read map.\<close>

definition Range_first ::
  "(('k \<times> nat) list \<Rightarrow> ('k \<times> nat) list) \<Rightarrow> ('k, 'v) shared \<Rightarrow> ('k, 'v) xpc" where
  "Range_first ord m = (if amended m then XLock else XRangeLoop (ord (read_m m)) [])"

definition Range_locked ::
  "(('k \<times> nat) list \<Rightarrow> ('k \<times> nat) list) \<Rightarrow> ('k, 'v) shared \<Rightarrow> ('k, 'v) xnext" where
  "Range_locked ord m =
     (let m = (if amended m then promote m else m)
      in (XRangeLoop (ord (read_m m)) [], m, None))"

definition Range_visit ::
  "('k \<Rightarrow> 'v \<Rightarrow> bool) \<Rightarrow> ('k \<times> nat) list \<Rightarrow> ('k \<times> 'v) list \<Rightarrow> ('k, 'v) shared \<Rightarrow> ('k, 'v) xpc" where
  "Range_visit f xs acc m =
     (case xs of
        [] \<Rightarrow> XReturn (GotPairs acc)
      | (k, e) # rest \<Rightarrow>
        (case cell_value (heap m e) of
           None \<Rightarrow> XRangeLoop rest acc
         | Some v \<Rightarrow>
           if f k v then XRangeLoop rest (acc @ [(k, v)])
           else XReturn (GotPairs (acc @ [(k, v)]))))"

fun range_step ::
  "(('k \<times> nat) list \<Rightarrow> ('k \<times> nat) list) \<Rightarrow> ('k \<Rightarrow> 'v \<Rightarrow> bool) \<Rightarrow>
   ('k, 'v) xpc \<Rightarrow> ('k, 'v) shared \<Rightarrow> nat option \<Rightarrow> ('k, 'v) xnext option"
where
  "range_step ord f XStart m mu = keeping mu (Range_first ord m, m)"
| "range_step ord f XLock m mu = Some (Range_locked ord m)"
| "range_step ord f (XRangeLoop xs acc) m mu = keeping mu (Range_visit f xs acc m, m)"
| "range_step ord f _ m mu = None"

fun call_step ::
  "nat \<Rightarrow> ('k, 'v) xcall \<Rightarrow> ('k, 'v) xpc \<Rightarrow> ('k, 'v) shared \<Rightarrow> nat option \<Rightarrow> ('k, 'v) xnext option"
where
  "call_step t (Op op) pc m mu = op_step t op pc m mu"
| "call_step t (XRange ord f) pc m mu = range_step ord f pc m mu"

section \<open>The system\<close>

record ('k, 'v) xsystem =
  xm :: "('k, 'v) shared"
  holder :: "nat option"
  calls :: "nat \<rightharpoonup> ('k, 'v) xcall \<times> ('k, 'v) xpc"

definition xsystem_init :: "('k, 'v) xsystem" where
  "xsystem_init = \<lparr>xm = empty_xmap, holder = None, calls = Map.empty\<rparr>"

definition set_pc :: "nat \<Rightarrow> ('k, 'v) xcall \<Rightarrow> ('k, 'v) xpc \<Rightarrow> ('k, 'v) xsystem \<Rightarrow> ('k, 'v) xsystem" where
  "set_pc t c pc \<sigma> = \<sigma>\<lparr>calls := (calls \<sigma>)(t \<mapsto> (c, pc))\<rparr>"

text \<open>Only a call that is about to lock waits, for the mutex to be free; a finished call has no step.\<close>

fun can_step :: "('k, 'v) xpc \<Rightarrow> nat option \<Rightarrow> bool" where
  "can_step XLock mu = (mu = None)"
| "can_step (XReturn r) mu = False"
| "can_step (XDone r) mu = False"
| "can_step pc mu = True"

text \<open>The external events of a run, and the event with which a log marks where a call takes effect.\<close>

datatype ('k, 'v) xevent =
    Invoke nat "('k, 'v) xcall" | Respond nat "('k, 'v) xret"
  | Effect nat "('k, 'v) xop" "('k, 'v) xret"

text \<open>The calls are numbered in any order; a number is used once. \<open>A\<close> limits the calls made.\<close>

inductive xm_step ::
  "(('k, 'v) xcall \<Rightarrow> bool) \<Rightarrow> ('k, 'v) xsystem \<Rightarrow> ('k, 'v) xevent list \<Rightarrow> ('k, 'v) xsystem \<Rightarrow> bool"
  for A :: "('k, 'v) xcall \<Rightarrow> bool" where
  invoke: "calls \<sigma> t = None \<Longrightarrow> A c \<Longrightarrow> xm_step A \<sigma> [Invoke t c] (set_pc t c XStart \<sigma>)"
| access: "calls \<sigma> t = Some (c, pc) \<Longrightarrow> can_step pc (holder \<sigma>) \<Longrightarrow>
     call_step t c pc (xm \<sigma>) (holder \<sigma>) = Some (pc', m', mu') \<Longrightarrow>
     xm_step A \<sigma> [] ((set_pc t c pc' \<sigma>)\<lparr>xm := m', holder := mu'\<rparr>)"
| respond: "calls \<sigma> t = Some (c, XReturn r) \<Longrightarrow>
     xm_step A \<sigma> [Respond t r] (set_pc t c (XDone r) \<sigma>)"

inductive xm_run ::
  "(('k, 'v) xcall \<Rightarrow> bool) \<Rightarrow> ('k, 'v) xevent list \<Rightarrow> ('k, 'v) xsystem \<Rightarrow> bool"
  for A :: "('k, 'v) xcall \<Rightarrow> bool" where
  run_init: "xm_run A [] xsystem_init"
| run_step: "xm_run A h \<sigma> \<Longrightarrow> xm_step A \<sigma> l \<sigma>' \<Longrightarrow> xm_run A (h @ l) \<sigma>'"

text \<open>A scheduler, to replay runs.\<close>

datatype ('k, 'v) xaction = XCall nat "('k, 'v) xcall" | XGo nat

fun xm_exec :: "('k, 'v) xaction \<Rightarrow> ('k, 'v) xsystem \<Rightarrow> (('k, 'v) xevent list \<times> ('k, 'v) xsystem) option"
where
  "xm_exec (XCall t c) \<sigma> =
     (if calls \<sigma> t = None then Some ([Invoke t c], set_pc t c XStart \<sigma>) else None)"
| "xm_exec (XGo t) \<sigma> =
     (case calls \<sigma> t of
        None \<Rightarrow> None
      | Some (c, pc) \<Rightarrow>
        (case pc of
           XReturn r \<Rightarrow> Some ([Respond t r], set_pc t c (XDone r) \<sigma>)
         | _ \<Rightarrow>
           if can_step pc (holder \<sigma>) then
             (case call_step t c pc (xm \<sigma>) (holder \<sigma>) of
                None \<Rightarrow> None
              | Some (pc', m', mu') \<Rightarrow> Some ([], (set_pc t c pc' \<sigma>)\<lparr>xm := m', holder := mu'\<rparr>))
           else None))"

fun xm_replay ::
  "('k, 'v) xaction list \<Rightarrow> ('k, 'v) xsystem \<Rightarrow> (('k, 'v) xevent list \<times> ('k, 'v) xsystem) option"
where
  "xm_replay [] \<sigma> = Some ([], \<sigma>)"
| "xm_replay (a # as) \<sigma> = do {
     (l, \<sigma>) \<leftarrow> xm_exec a \<sigma>;
     (h, \<sigma>) \<leftarrow> xm_replay as \<sigma>;
     Some (l @ h, \<sigma>)
   }"

end
