(* ===== verification/XsyncMapCorrect.thy ===== *)
theory XsyncMapCorrect
  imports XsyncMap "HOL-Library.Multiset"
begin

text \<open>
  Correctness of \<open>pkgs/xsync/map.go\<close>: the structural invariant that its comments describe
  (which entries are in which map, when an entry may be expunged, when the dirty map is nil),
  its preservation by every method, and the refinement of every method to the corresponding
  operation of a plain map.
\<close>

named_theorems xmap_simps \<open>unfolding of the small operations on the map's state\<close>

declare write_slot_def [xmap_simps] dirty_lookup_def [xmap_simps] dirty_len_def [xmap_simps]
  entry_load_def [xmap_simps]

section \<open>Abstraction and invariant\<close>

definition entry_of :: "('k, 'v) xmap \<Rightarrow> 'k \<Rightarrow> nat option" where
  "entry_of m k = (case map_of (read_m m) k of Some e \<Rightarrow> Some e | None \<Rightarrow> dirty_lookup m k)"

definition xabs :: "('k, 'v) xmap \<Rightarrow> 'k \<Rightarrow> 'v option" where
  "xabs m k = (case entry_of m k of None \<Rightarrow> None | Some e \<Rightarrow> entry_load e m)"

text \<open>Different keys have different entries, all of them allocated.\<close>

definition entries_ok :: "('k, 'v) xmap \<Rightarrow> bool" where
  "entries_ok m \<longleftrightarrow>
     (\<forall>k e. entry_of m k = Some e \<longrightarrow> e < next_entry m) \<and>
     (\<forall>k k' e. entry_of m k = Some e \<and> entry_of m k' = Some e \<longrightarrow> k = k')"

text \<open>With a dirty map: an entry of the read map is in it, under the same key, unless expunged.\<close>

definition dirty_ok :: "('k, 'v) xmap \<Rightarrow> ('k \<times> nat) list \<Rightarrow> bool" where
  "dirty_ok m d \<longleftrightarrow> wf_map d \<and>
     (\<forall>k e. map_of d k = Some e \<longrightarrow> heap m e \<noteq> PExpunged) \<and>
     (\<forall>k e. map_of (read_m m) k = Some e \<longrightarrow>
        map_of d k = (if heap m e = PExpunged then None else Some e))"

definition clean_ok :: "('k, 'v) xmap \<Rightarrow> bool" where
  "clean_ok m \<longleftrightarrow> (\<forall>k e. map_of (read_m m) k = Some e \<longrightarrow> heap m e \<noteq> PExpunged)"

text \<open>The part of the invariant that also holds between a deletion and the miss it records.\<close>

definition xinv0 :: "('k, 'v) xmap \<Rightarrow> bool" where
  "xinv0 m \<longleftrightarrow> wf_map (read_m m) \<and> entries_ok m \<and> (amended m \<longleftrightarrow> dirty m \<noteq> None) \<and>
     (case dirty m of None \<Rightarrow> clean_ok m | Some d \<Rightarrow> dirty_ok m d)"

definition xinv :: "('k, 'v) xmap \<Rightarrow> bool" where
  "xinv m \<longleftrightarrow> xinv0 m \<and> (case dirty m of None \<Rightarrow> misses m = 0 | Some d \<Rightarrow> misses m < length d)"

lemma xinvD [dest]: "xinv m \<Longrightarrow> xinv0 m"
  by (simp add: xinv_def)

lemma entry_load_Some: "entry_load e m = Some v \<longleftrightarrow> heap m e = PVal v"
  by (auto simp: entry_load_def split: slot.splits)

lemma xinv_empty [simp]: "xinv empty_xmap" and xabs_empty [simp]: "xabs empty_xmap = Map.empty"
  by (auto simp: xinv_def xinv0_def empty_xmap_def entries_ok_def clean_ok_def entry_of_def
      dirty_lookup_def xabs_def)

text \<open>What a lookup in each of the two maps means under the invariant.\<close>

lemma read_lookup_abs: "map_of (read_m m) k = Some e \<Longrightarrow> xabs m k = entry_load e m"
  by (simp add: xabs_def entry_of_def)

lemma dirty_lookup_abs:
  "map_of (read_m m) k = None \<Longrightarrow>
   xabs m k = (case dirty_lookup m k of None \<Rightarrow> None | Some e \<Rightarrow> entry_load e m)"
  by (simp add: xabs_def entry_of_def)

lemma not_amended_lookup: "xinv0 m \<Longrightarrow> \<not> amended m \<Longrightarrow> dirty_lookup m k = None"
  by (simp add: xinv0_def dirty_lookup_def)

lemma dirty_not_expunged:
  "xinv0 m \<Longrightarrow> dirty_lookup m k = Some e \<Longrightarrow> heap m e \<noteq> PExpunged"
  by (auto simp: xinv0_def dirty_ok_def dirty_lookup_def split: option.splits)

lemma dirty_lookup_entry:
  "xinv0 m \<Longrightarrow> dirty_lookup m k = Some e \<Longrightarrow> entry_of m k = Some e"
  by (fastforce simp: xinv0_def dirty_ok_def dirty_lookup_def entry_of_def
      split: option.splits if_splits)

section \<open>Writing an entry\<close>

text \<open>
  Overwriting the pointer of the entry of one key, neither from nor to the marker, changes
  that key's value and keeps the invariant.
\<close>

lemma write_slot_simps [simp]:
  "read_m (write_slot e p m) = read_m m" "amended (write_slot e p m) = amended m"
  "dirty (write_slot e p m) = dirty m" "misses (write_slot e p m) = misses m"
  "next_entry (write_slot e p m) = next_entry m"
  "entry_of (write_slot e p m) = entry_of m" "dirty_lookup (write_slot e p m) = dirty_lookup m"
  "dirty_len (write_slot e p m) = dirty_len m"
  "heap (write_slot e p m) = (heap m)(e := p)"
  by (auto simp: write_slot_def entry_of_def dirty_lookup_def dirty_len_def fun_eq_iff
      cong: option.case_cong)

lemma entry_load_write_slot [simp]:
  "entry_load e (write_slot e' p m) =
     (if e = e' then (case p of PVal v \<Rightarrow> Some v | _ \<Rightarrow> None) else entry_load e m)"
  by (auto simp: entry_load_def split: slot.splits)

lemma xinv0_write_slot:
  assumes "xinv0 m" "heap m e \<noteq> PExpunged" "p \<noteq> PExpunged"
  shows "xinv0 (write_slot e p m)"
proof -
  have "entries_ok (write_slot e p m)" using assms by (simp add: xinv0_def entries_ok_def)
  moreover have "dirty_ok (write_slot e p m) d" if "dirty m = Some d" for d
    using assms that by (auto simp: xinv0_def dirty_ok_def)
  moreover have "clean_ok (write_slot e p m)" if "dirty m = None"
    using assms that by (auto simp: xinv0_def clean_ok_def)
  ultimately show ?thesis using assms by (cases "dirty m") (auto simp: xinv0_def)
qed

lemma xinv_write_slot:
  assumes "xinv m" "heap m e \<noteq> PExpunged" "p \<noteq> PExpunged"
  shows "xinv (write_slot e p m)"
  using assms by (cases "dirty m") (auto simp: xinv_def xinv0_write_slot)

lemma xabs_write_slot:
  assumes "xinv0 m" "entry_of m k = Some e"
  shows "xabs (write_slot e p m) = (xabs m)(k := (case p of PVal v \<Rightarrow> Some v | _ \<Rightarrow> None))"
proof
  fix k'
  show "xabs (write_slot e p m) k' = ((xabs m)(k := (case p of PVal v \<Rightarrow> Some v | _ \<Rightarrow> None))) k'"
  proof (cases "k' = k")
    case False
    then have "entry_of m k' \<noteq> Some e" using assms by (auto simp: xinv0_def entries_ok_def)
    with False show ?thesis by (auto simp: xabs_def split: option.splits)
  qed (use assms in \<open>simp add: xabs_def\<close>)
qed

section \<open>Promotion of the dirty map\<close>

lemma entry_of_promote: "dirty m = Some d \<Longrightarrow> entry_of (promote m) k = map_of d k"
  by (simp add: promote_def entry_of_def dirty_lookup_def split: option.splits)

lemma promote_correct:
  assumes "xinv0 m" "dirty m = Some d"
  shows "xinv (promote m)" and "xabs (promote m) = xabs m"
proof -
  from assms have ok: "wf_map d" "entries_ok m" "dirty_ok m d"
    by (auto simp: xinv0_def dirty_ok_def)
  have e: "entry_of (promote m) k = map_of d k" for k
    by (rule entry_of_promote [OF assms(2)])
  have sub: "entry_of m k = Some e" if "map_of d k = Some e" for k e
    using assms that by (intro dirty_lookup_entry) (auto simp: dirty_lookup_def)
  show "xinv (promote m)"
  proof -
    have "entries_ok (promote m)"
      using ok(2) sub by (auto simp: entries_ok_def e) (auto simp: promote_def)
    moreover have "clean_ok (promote m)"
      using ok(3) assms(2) by (auto simp: clean_ok_def dirty_ok_def promote_def)
    ultimately show ?thesis
      using ok(1) assms(2) by (simp add: xinv_def xinv0_def) (simp add: promote_def)
  qed
  show "xabs (promote m) = xabs m"
  proof
    fix k
    have load: "entry_load x (promote m) = entry_load x m" for x
      by (simp add: entry_load_def promote_def)
    show "xabs (promote m) k = xabs m k"
    proof (cases "map_of (read_m m) k")
      case None
      then show ?thesis
        by (simp add: xabs_def [of "promote m"] e load dirty_lookup_abs [OF None] dirty_lookup_def assms(2)
            cong: option.case_cong)
    next
      case (Some x)
      then have d: "map_of d k = (if heap m x = PExpunged then None else Some x)"
        using ok(3) by (simp add: dirty_ok_def)
      show ?thesis
        using Some d
        by (simp add: xabs_def [of "promote m"] e load read_lookup_abs [OF Some] split: if_splits)
          (simp add: entry_load_def)
    qed
  qed
qed

text \<open>A miss may promote; it is recorded with a dirty map only.\<close>

lemma missLocked_correct:
  assumes "xinv0 m" "dirty m = Some d"
  shows "xinv (missLocked m)" and "xabs (missLocked m) = xabs m"
proof -
  let ?m = "m\<lparr>misses := misses m + 1\<rparr>"
  have inv: "xinv0 ?m"
    using assms(1) by (simp add: xinv0_def entries_ok_def entry_of_def dirty_lookup_def
        dirty_ok_def clean_ok_def cong: option.case_cong)
  have abs: "xabs ?m = xabs m"
    by (simp add: fun_eq_iff xabs_def entry_of_def dirty_lookup_def entry_load_def
        cong: option.case_cong)
  have d: "dirty ?m = Some d" using assms(2) by simp
  show "xinv (missLocked m)"
    using promote_correct(1) [OF inv d] inv assms(2)
    by (simp add: missLocked_def Let_def dirty_len_def xinv_def)
  show "xabs (missLocked m) = xabs m"
    using promote_correct(2) [OF inv d] abs by (simp add: missLocked_def Let_def)
qed

lemma missLocked_heap [simp]: "heap (missLocked m) = heap m"
  by (simp add: missLocked_def Let_def promote_def)

lemma entry_load_missLocked [simp]: "entry_load e (missLocked m) = entry_load e m"
  by (simp add: entry_load_def)

section \<open>Creating the dirty map\<close>

text \<open>
  The loop of \<open>dirtyLocked\<close> in closed form: every nil entry becomes expunged, the entries
  with a value are copied.
\<close>

definition live_part :: "('k, 'v) xmap \<Rightarrow> ('k \<times> nat) list" where
  "live_part m = filter (\<lambda>(k, e). \<exists>v. heap m e = PVal v) (read_m m)"

definition expunge_all :: "nat set \<Rightarrow> (nat \<Rightarrow> 'v slot) \<Rightarrow> nat \<Rightarrow> 'v slot" where
  "expunge_all E h e = (if e \<in> E \<and> h e = PNil then PExpunged else h e)"

lemma update_new: "map_of d k = None \<Longrightarrow> AList.update k v d = d @ [(k, v)]"
  by (induction d) (auto split: if_splits)

lemma dirty_loop_eq:
  assumes "dirty m = Some d" "wf_map (d @ xs)"
  shows "dirty_loop xs m =
    m\<lparr>heap := expunge_all (snd ` set xs) (heap m),
      dirty := Some (d @ filter (\<lambda>(k, e). \<exists>v. heap m e = PVal v) xs)\<rparr>"
  using assms
proof (induction xs arbitrary: m d)
  case Nil
  then show ?case by (simp add: expunge_all_def cong: if_cong)
next
  case (Cons x xs)
  obtain k e where x: "x = (k, e)" by (cases x)
  have wf: "wf_map (d @ xs)" and new: "map_of d k = None" and wf': "wf_map ((d @ [(k, e)]) @ xs)"
    using Cons.prems(2) by (auto simp: wf_map_def x map_of_eq_None_iff)
  have same: "expunge_all A (expunge_all {e} h) = expunge_all (insert e A) h" for A and h :: "nat \<Rightarrow> 'b slot"
    by (auto simp: expunge_all_def fun_eq_iff)
  have pv: "(\<exists>v. expunge_all {e} h e' = PVal v) = (\<exists>v. h e' = PVal v)" for h :: "nat \<Rightarrow> 'b slot" and e'
    by (auto simp: expunge_all_def)
  show ?case
  proof (cases "heap m e")
    case PNil
    then have "write_slot e PExpunged m = m\<lparr>heap := expunge_all {e} (heap m)\<rparr>"
      by (auto simp: write_slot_def expunge_all_def fun_eq_iff)
    with PNil Cons.IH [of "m\<lparr>heap := expunge_all {e} (heap m)\<rparr>" d] Cons.prems(1) wf
    show ?thesis by (simp add: x tryExpungeLocked_def same pv)
  next
    case PExpunged
    then have "expunge_all (insert e A) (heap m) = expunge_all A (heap m)" for A
      by (auto simp: expunge_all_def fun_eq_iff)
    with PExpunged Cons.IH [OF Cons.prems(1) wf] show ?thesis
      by (simp add: x tryExpungeLocked_def)
  next
    case (PVal v)
    then have "expunge_all (insert e A) (heap m) = expunge_all A (heap m)" for A
      by (auto simp: expunge_all_def fun_eq_iff)
    with PVal Cons.IH [of "m\<lparr>dirty := Some (d @ [(k, e)])\<rparr>" "d @ [(k, e)]"] Cons.prems(1) wf' new
    show ?thesis by (simp add: x tryExpungeLocked_def update_new)
  qed
qed

lemma dirtyLocked_eq:
  assumes "wf_map (read_m m)" "dirty m = None"
  shows "dirtyLocked m =
    m\<lparr>heap := expunge_all (snd ` set (read_m m)) (heap m), dirty := Some (live_part m)\<rparr>"
  using assms dirty_loop_eq [of "m\<lparr>dirty := Some []\<rparr>" "[]" "read_m m"]
  by (simp add: dirtyLocked_def live_part_def)

text \<open>
  After \<open>dirtyLocked\<close> the map is amended: the invariant holds (but for the miss count, while
  the dirty map may still be empty) and the contents are unchanged.
\<close>

lemma dirtyLocked_correct:
  fixes m :: "('k, 'v) xmap"
  assumes "xinv m" "\<not> amended m"
  defines "m' \<equiv> (dirtyLocked m)\<lparr>amended := True\<rparr>"
  shows "xinv0 m'" and "xabs m' = xabs m" and "dirty m' \<noteq> None" and "misses m' = 0"
    and "read_m m' = read_m m" and "next_entry m' = next_entry m"
    and "dom (map_of (live_part m)) \<subseteq> dom (map_of (read_m m))" and "dirty m' = Some (live_part m)"
proof -
  from assms(1,2) have wf: "wf_map (read_m m)" and none: "dirty m = None" and clean: "clean_ok m"
    and ents: "entries_ok m" and miss: "misses m = 0"
    by (auto simp: xinv_def xinv0_def split: option.splits)
  note m' = m'_def [unfolded dirtyLocked_eq [OF wf none]]
  have mem: "map_of (read_m m) k = Some e \<Longrightarrow> e \<in> snd ` set (read_m m)" for k e
    by (force dest: map_of_SomeD)
  have live: "map_of (live_part m) k = (case map_of (read_m m) k of None \<Rightarrow> None
      | Some e \<Rightarrow> if (\<exists>v. heap m e = PVal v) then Some e else None)" for k
    using wf by (simp add: live_part_def map_of_filter_wf cong: option.case_cong)
  have slot_some: "p \<noteq> PNil \<Longrightarrow> p \<noteq> PExpunged \<Longrightarrow> \<exists>v. p = PVal v" for p :: "'v slot"
    by (cases p) auto
  have eo: "entry_of m' k = map_of (read_m m) k" for k
    by (simp add: m' entry_of_def dirty_lookup_def live split: option.splits)
  have eo_old: "entry_of m k = map_of (read_m m) k" for k
    by (simp add: entry_of_def dirty_lookup_def none split: option.splits)
  have load: "entry_load e m' = entry_load e m" for e
    by (auto simp: m' entry_load_def expunge_all_def split: slot.splits)
  have "entries_ok m'" using ents by (simp add: entries_ok_def eo eo_old) (simp add: m')
  moreover have "dirty_ok m' (live_part m)"
    using clean mem wf slot_some
    unfolding dirty_ok_def live clean_ok_def
    by (auto simp: m' expunge_all_def live_part_def split: option.splits if_splits)
  ultimately show "xinv0 m'" using wf by (simp add: xinv0_def) (simp add: m')
  show "xabs m' = xabs m"
    by (simp add: fun_eq_iff xabs_def eo eo_old load cong: option.case_cong)
  show "dirty m' \<noteq> None" "misses m' = 0" "read_m m' = read_m m" "next_entry m' = next_entry m"
    "dirty m' = Some (live_part m)"
    by (simp_all add: m' miss)
  show "dom (map_of (live_part m)) \<subseteq> dom (map_of (read_m m))"
    by (auto simp: live split: option.splits)
qed

section \<open>Adding a key\<close>

lemma insert_new_entry:
  fixes v :: 'v and m :: "('k, 'v) xmap"
  assumes inv: "xinv0 m" and d: "dirty m = Some d"
    and fresh: "map_of (read_m m) k = None" "map_of d k = None"
  defines "m' \<equiv> m\<lparr>next_entry := Suc (next_entry m), heap := (heap m)(next_entry m := PVal v),
              dirty := Some (AList.update k (next_entry m) d)\<rparr>"
  shows "(let (e, m) = newEntry v m in dirty_put k e m) = Some m'" and "xinv0 m'"
    and "entry_of m' k' = (if k' = k then Some (next_entry m) else entry_of m k')"
    and "xabs m' = (xabs m)(k \<mapsto> v)"
proof -
  let ?n = "next_entry m"
  show "(let (e, m) = newEntry v m in dirty_put k e m) = Some m'"
    by (simp add: newEntry_def dirty_put_def write_slot_def d m'_def)
  have eo: "entry_of m' k' = (if k' = k then Some ?n else entry_of m k')" for k'
    using fresh
    by (simp add: m'_def entry_of_def dirty_lookup_def d update_conv' split: option.splits)
  then show "entry_of m' k' = (if k' = k then Some ?n else entry_of m k')" .
  from inv have ents: "entries_ok m" and dok: "dirty_ok m d" and wf: "wf_map (read_m m)"
    by (auto simp: xinv0_def d)
  have old: "entry_of m k' = Some e \<Longrightarrow> e < ?n" for k' e
    using ents by (simp add: entries_ok_def)
  have rd: "map_of (read_m m) k' = Some e \<Longrightarrow> e < ?n" for k' e
    using old [of k' e] by (simp add: entry_of_def)
  have dl: "map_of d k' = Some e \<Longrightarrow> e < ?n" for k' e
    using old dirty_lookup_entry [OF inv, of k' e] by (simp add: dirty_lookup_def d)
  have "next_entry m' = Suc ?n" by (simp add: m'_def)
  then have "entries_ok m'"
    unfolding entries_ok_def eo
    using ents old by (auto simp: entries_ok_def less_Suc_eq split: if_splits)
  moreover have "dirty_ok m' (AList.update k ?n d)"
    using dok fresh rd dl
    by (auto simp: m'_def dirty_ok_def update_conv' split: if_splits)
  ultimately show "xinv0 m'"
    using wf inv by (simp add: xinv0_def d) (simp add: m'_def)
  show "xabs m' = (xabs m)(k \<mapsto> v)"
  proof
    fix k'
    have h: "heap m' = (heap m)(?n := PVal v)" by (simp add: m'_def)
    show "xabs m' k' = ((xabs m)(k \<mapsto> v)) k'"
      using old [of k'] by (auto simp: xabs_def eo entry_load_def h split: option.splits slot.splits)
  qed
qed

lemma insert_new:
  assumes inv: "xinv0 m" and d: "dirty m = Some d" and few: "misses m \<le> length d"
    and fresh: "map_of (read_m m) k = None" "map_of d k = None"
  shows "\<exists>m'. (let (e, m) = newEntry v m in dirty_put k e m) = Some m' \<and>
           xinv m' \<and> xabs m' = (xabs m)(k \<mapsto> v)"
  using insert_new_entry [OF inv d fresh] few fresh(2)
  by (simp add: xinv_def length_update_new)

lemma add_new_correct:
  assumes inv: "xinv m" and fresh: "map_of (read_m m) k = None" "dirty_lookup m k = None"
  shows "\<exists>m'. add_new k v m = Some m' \<and> xinv m' \<and> xabs m' = (xabs m)(k \<mapsto> v)"
proof (cases "amended m")
  case True
  then obtain d where d: "dirty m = Some d" using inv by (auto simp: xinv_def xinv0_def)
  have "xinv0 m" "misses m \<le> length d" using inv by (auto simp: xinv_def d)
  with d fresh insert_new [of m d k v] True show ?thesis
    by (simp add: add_new_def dirty_lookup_def)
next
  case False
  let ?m = "(dirtyLocked m)\<lparr>amended := True\<rparr>"
  note dl = dirtyLocked_correct [OF inv False]
  have "map_of (live_part m) k = None" using dl(7) fresh(1) by (meson domIff subsetD)
  with insert_new [OF dl(1) dl(8), of k v] dl False fresh(1) show ?thesis
    by (simp add: add_new_def)
qed

text \<open>Reviving an expunged entry puts it back into the dirty map; nothing else changes.\<close>

lemma unexpunge_entry:
  assumes inv: "xinv0 m" and e: "map_of (read_m m) k = Some e" "heap m e = PExpunged"
  obtains d m' where "dirty m = Some d" and "map_of d k = None"
    and "m' = m\<lparr>heap := (heap m)(e := PNil), dirty := Some (AList.update k e d)\<rparr>"
    and "dirty_put k e (write_slot e PNil m) = Some m'" and "xinv0 m'"
    and "entry_of m' = entry_of m" and "xabs m' = xabs m"
proof -
  from inv e obtain d where d: "dirty m = Some d"
    by (auto simp: xinv0_def clean_ok_def split: option.splits)
  from inv have ents: "entries_ok m" and dok: "dirty_ok m d" and wf: "wf_map (read_m m)"
    and am: "amended m"
    by (auto simp: xinv0_def d)
  let ?m = "m\<lparr>heap := (heap m)(e := PNil), dirty := Some (AList.update k e d)\<rparr>"
  have run: "dirty_put k e (write_slot e PNil m) = Some ?m"
    by (simp add: dirty_put_def write_slot_def d)
  have eo: "entry_of ?m = entry_of m"
    using e(1) by (auto simp: fun_eq_iff entry_of_def dirty_lookup_def d update_conv' split: option.splits)
  have k: "entry_of m k = Some e" using e(1) by (simp add: entry_of_def)
  have uniq: "map_of (read_m m) k' = Some e \<Longrightarrow> k' = k" for k'
    using ents k by (auto simp: entries_ok_def entry_of_def)
  have new: "map_of d k = None" using dok e by (simp add: dirty_ok_def)
  have "entries_ok ?m" using ents by (simp add: entries_ok_def eo)
  moreover have "dirty_ok ?m (AList.update k e d)"
    unfolding dirty_ok_def
  proof (intro conjI allI impI)
    show "wf_map (AList.update k e d)" using dok by (simp add: dirty_ok_def)
    show "heap ?m e' \<noteq> PExpunged" if "map_of (AList.update k e d) k' = Some e'" for k' e'
      using that dok by (auto simp: dirty_ok_def update_conv' split: if_splits)
    show "map_of (AList.update k e d) k' = (if heap ?m e' = PExpunged then None else Some e')"
      if "map_of (read_m ?m) k' = Some e'" for k' e'
      using that dok uniq [of k'] e(1) by (cases "e' = e") (auto simp: dirty_ok_def update_conv')
  qed
  ultimately have "xinv0 ?m" using wf am by (simp add: xinv0_def)
  moreover have "xabs ?m = xabs m"
    using e(2) by (auto simp: fun_eq_iff xabs_def eo entry_load_def split: option.splits slot.splits)
  ultimately show ?thesis using that d new run eo by blast
qed

lemma unexpunge_correct:
  assumes inv: "xinv m" and e: "map_of (read_m m) k = Some e" "heap m e = PExpunged"
  shows "\<exists>m'. dirty_put k e (snd (unexpungeLocked e m)) = Some m' \<and> xinv m' \<and>
           xabs m' = xabs m \<and> heap m' e = PNil \<and> entry_of m' k = Some e \<and> fst (unexpungeLocked e m)"
proof -
  have "xinv0 m" using inv by blast
  then obtain d m' where m': "dirty m = Some d" "map_of d k = None"
    "m' = m\<lparr>heap := (heap m)(e := PNil), dirty := Some (AList.update k e d)\<rparr>"
    "dirty_put k e (write_slot e PNil m) = Some m'" "xinv0 m'" "entry_of m' = entry_of m" "xabs m' = xabs m"
    using e by (rule unexpunge_entry)
  have "misses m < length d" using inv m'(1) by (simp add: xinv_def)
  then have "xinv m'" using m'(2,5) by (simp add: xinv_def m'(3) length_update_new)
  moreover have "heap m' e = PNil" by (simp add: m'(3))
  moreover have "entry_of m' k = Some e" using e(1) m'(6) by (simp add: entry_of_def)
  ultimately show ?thesis using m'(4,7) e(2) by (simp add: unexpungeLocked_def)
qed

section \<open>The methods refine a plain map\<close>

text \<open>Where a key can be found; every method does this case analysis.\<close>

lemma key_cases [consumes 1, case_names read expunged dirty_only absent]:
  assumes inv: "xinv m"
  obtains (read) e where "map_of (read_m m) k = Some e" "heap m e \<noteq> PExpunged"
    | (expunged) e where "map_of (read_m m) k = Some e" "heap m e = PExpunged" "xabs m k = None"
    | (dirty_only) e d where "map_of (read_m m) k = None" "dirty_lookup m k = Some e" "amended m"
        "dirty m = Some d" "heap m e \<noteq> PExpunged"
    | (absent) "map_of (read_m m) k = None" "dirty_lookup m k = None" "xabs m k = None"
proof (cases "map_of (read_m m) k")
  case (Some e)
  then show ?thesis
    using read expunged read_lookup_abs [OF Some] by (cases "heap m e") (auto simp: entry_load_def)
next
  case None
  show ?thesis
  proof (cases "dirty_lookup m k")
    case None': None
    with None dirty_lookup_abs [OF None] show ?thesis by (intro absent) auto
  next
    case (Some e)
    then obtain d where "dirty m = Some d" by (auto simp: dirty_lookup_def split: option.splits)
    moreover from this inv have "amended m" by (auto simp: xinv_def xinv0_def)
    ultimately show ?thesis
      using None Some inv dirty_not_expunged [of m k e] by (intro dirty_only) auto
  qed
qed

text \<open>Setting the entry of a key to a value or to nil, followed by a miss where it was dirty.\<close>

lemma write_entry_correct:
  assumes "xinv m" "entry_of m k = Some e" "heap m e \<noteq> PExpunged"
  shows "xinv (write_slot e (PVal v) m)" "xabs (write_slot e (PVal v) m) = (xabs m)(k \<mapsto> v)"
    and "xinv (write_slot e PNil m)" "xabs (write_slot e PNil m) = (xabs m)(k := None)"
  using assms xabs_write_slot [of m k e] by (auto simp: xinv_write_slot)

lemma read_entry: "map_of (read_m m) k = Some e \<Longrightarrow> entry_of m k = Some e"
  by (simp add: entry_of_def)

lemma dirty_entry:
  "map_of (read_m m) k = None \<Longrightarrow> dirty_lookup m k = Some e \<Longrightarrow> entry_of m k = Some e"
  by (simp add: entry_of_def)

lemma miss_correct:
  assumes "xinv m" "dirty m = Some d"
  shows "xinv (missLocked m)" "xabs (missLocked m) = xabs m"
  using assms missLocked_correct [of m d] by auto

lemmas method_simps = write_entry_correct miss_correct entry_load_def

lemma Load_correct:
  assumes inv: "xinv m"
  shows "fst (Load k m) = xabs m k" "xinv (snd (Load k m))" "xabs (snd (Load k m)) = xabs m"
proof -
  have "fst (Load k m) = xabs m k \<and> xinv (snd (Load k m)) \<and> xabs (snd (Load k m)) = xabs m"
    using inv
  proof (cases rule: key_cases [where k = k])
    case (read e)
    then show ?thesis by (simp add: Load_def inv read_lookup_abs)
  next
    case (expunged e)
    then show ?thesis by (simp add: Load_def inv entry_load_def)
  next
    case (dirty_only e d)
    then show ?thesis
      by (simp add: Load_def inv dirty_lookup_abs miss_correct [OF inv])
  next
    case absent
    show ?thesis
    proof (cases "dirty m")
      case None
      with inv have "\<not> amended m" by (auto simp: xinv_def xinv0_def)
      with absent inv show ?thesis by (simp add: Load_def)
    next
      case (Some d)
      with absent show ?thesis by (simp add: Load_def Let_def inv miss_correct [OF inv Some])
    qed
  qed
  then show "fst (Load k m) = xabs m k" "xinv (snd (Load k m))" "xabs (snd (Load k m)) = xabs m"
    by auto
qed

lemma Swap_correct:
  assumes inv: "xinv m"
  shows "\<exists>m'. Swap k v m = Some (xabs m k, m') \<and> xinv m' \<and> xabs m' = (xabs m)(k \<mapsto> v)"
  using inv
proof (cases rule: key_cases [where k = k])
  case (read e)
  have w: "xinv (write_slot e (PVal v) m)" "xabs (write_slot e (PVal v) m) = (xabs m)(k \<mapsto> v)"
    using write_entry_correct [OF inv read_entry [OF read(1)] read(2)] by simp_all
  from read w show ?thesis
    by (cases "heap m e") (simp_all add: Swap_def trySwap_def read_lookup_abs entry_load_def)
next
  case (expunged e)
  from unexpunge_correct [OF inv expunged(1,2)] obtain m1 where
    m1: "dirty_put k e (snd (unexpungeLocked e m)) = Some m1" "xinv m1" "xabs m1 = xabs m"
      "heap m1 e = PNil" "entry_of m1 k = Some e" "fst (unexpungeLocked e m)"
    by blast
  from write_entry_correct [OF m1(2,5)] m1 expunged show ?thesis
    by (simp add: Swap_def trySwap_def swapLocked_def split_beta)
next
  case (dirty_only e d)
  from write_entry_correct [OF inv dirty_entry [OF dirty_only(1,2)] dirty_only(5)] dirty_only
  show ?thesis
    by (cases "heap m e") (simp_all add: Swap_def swapLocked_def dirty_lookup_abs entry_load_def)
next
  case absent
  with add_new_correct [OF inv absent(1,2), of v] show ?thesis by (auto simp: Swap_def)
qed

lemma Store_correct:
  assumes "xinv m"
  shows "\<exists>m'. Store k v m = Some m' \<and> xinv m' \<and> xabs m' = (xabs m)(k \<mapsto> v)"
  using Swap_correct [OF assms, of k v] by (auto simp: Store_def)


lemma write_miss: "write_slot e p (missLocked m) = missLocked (write_slot e p m)"
  by (simp add: missLocked_def Let_def promote_def write_slot_def dirty_len_def)

text \<open>Dropping a key from the dirty map when it has no value.\<close>

lemma drop_dirty_entry:
  assumes inv: "xinv0 m" and d: "dirty m = Some d" and k: "map_of (read_m m) k = None"
  defines "m' \<equiv> m\<lparr>dirty := Some (AList.delete k d)\<rparr>"
  shows "xinv0 m'" and "entry_of m' k' = (if k' = k then None else entry_of m k')"
    and "xabs m' = (xabs m)(k := None)"
proof -
  have eo: "entry_of m' k' = (if k' = k then None else entry_of m k')" for k'
    using k by (simp add: m'_def entry_of_def dirty_lookup_def d map_of_delete split: option.splits)
  then show "entry_of m' k' = (if k' = k then None else entry_of m k')" .
  from inv have ents: "entries_ok m" and dok: "dirty_ok m d" by (auto simp: xinv0_def d)
  have "entries_ok m'" using ents by (auto simp: entries_ok_def eo) (auto simp: m'_def)
  moreover have "dirty_ok m' (AList.delete k d)"
    using dok k by (auto simp: m'_def dirty_ok_def map_of_delete)
  ultimately show "xinv0 m'" using inv by (simp add: xinv0_def d) (simp add: m'_def)
  have "entry_load e m' = entry_load e m" for e by (simp add: entry_load_def m'_def)
  then show "xabs m' = (xabs m)(k := None)"
    by (auto simp: fun_eq_iff xabs_def eo split: option.splits)
qed

lemma drop_dirty_correct:
  assumes "xinv0 m" "dirty m = Some d" "map_of (read_m m) k = None" "xabs m k = None"
  shows "xinv0 (m\<lparr>dirty := Some (AList.delete k d)\<rparr>)"
    and "xabs (m\<lparr>dirty := Some (AList.delete k d)\<rparr>) = xabs m"
  using drop_dirty_entry [OF assms(1-3)] assms(4) by (simp_all add: fun_upd_idem)

lemma LoadAndDelete_correct:
  assumes inv: "xinv m"
  shows "fst (LoadAndDelete k m) = xabs m k \<and> xinv (snd (LoadAndDelete k m)) \<and>
    xabs (snd (LoadAndDelete k m)) = (xabs m)(k := None)"
  using inv
proof (cases rule: key_cases [where k = k])
  case (read e)
  from write_entry_correct [OF inv read_entry [OF read(1)] read(2)] read inv show ?thesis
    by (cases "heap m e")
      (auto simp: LoadAndDelete_def entry_delete_def read_lookup_abs entry_load_def fun_eq_iff)
next
  case (expunged e)
  then show ?thesis by (simp add: LoadAndDelete_def entry_delete_def inv fun_upd_idem)
next
  case (dirty_only e d)
  define m1 where "m1 = write_slot e PNil m"
  have m1: "xinv0 m1" "xabs m1 = (xabs m)(k := None)" "dirty m1 = Some d"
      "map_of (read_m m1) k = None"
    using write_entry_correct [OF inv dirty_entry [OF dirty_only(1,2)] dirty_only(5)] dirty_only
    by (auto simp: m1_def)
  define m2 where "m2 = m1\<lparr>dirty := Some (AList.delete k d)\<rparr>"
  have m2: "xinv0 m2" "xabs m2 = (xabs m)(k := None)" "dirty m2 = Some (AList.delete k d)"
    using drop_dirty_correct [OF m1(1,3,4)] m1(2) by (auto simp: m2_def)
  have upd: "write_slot e PNil (m\<lparr>dirty := Some (AList.delete k d)\<rparr>) = m2"
    by (simp add: m2_def m1_def write_slot_def)
  have nil: "m2 = m\<lparr>dirty := Some (AList.delete k d)\<rparr>" if "heap m e = PNil"
    using that by (simp add: m2_def m1_def write_slot_def fun_upd_idem)
  show ?thesis
    using dirty_only upd nil missLocked_correct [OF m2(1,3)] m2(2)
    by (cases "heap m e")
      (auto simp: LoadAndDelete_def entry_delete_def write_miss dirty_lookup_abs entry_load_def)
next
  case absent
  show ?thesis
  proof (cases "dirty m")
    case None
    with inv have "\<not> amended m" by (auto simp: xinv_def xinv0_def)
    with absent inv show ?thesis by (simp add: LoadAndDelete_def fun_upd_idem)
  next
    case (Some d)
    have i0: "xinv0 m" using inv by blast
    define m2 where "m2 = m\<lparr>dirty := Some (AList.delete k d)\<rparr>"
    have m2: "xinv0 m2" "xabs m2 = xabs m" "dirty m2 = Some (AList.delete k d)"
      using drop_dirty_correct [OF i0 Some absent(1,3)] by (auto simp: m2_def)
    from missLocked_correct [OF m2(1,3)] m2(2) absent inv Some show ?thesis
      by (auto simp: LoadAndDelete_def Let_def m2_def [symmetric] fun_upd_idem xinv_def xinv0_def)
  qed
qed

lemma Delete_correct:
  "xinv m \<Longrightarrow> xinv (Delete k m) \<and> xabs (Delete k m) = (xabs m)(k := None)"
  using LoadAndDelete_correct [of m k] by (simp add: Delete_def)

text \<open>
  \<open>CompareAndSwap\<close> and \<open>CompareAndDelete\<close> succeed whenever the key has a value: the
  argument \<open>old\<close> is never compared.
\<close>

lemma CompareAndSwap_correct:
  assumes inv: "xinv m"
  shows "fst (CompareAndSwap k old new m) = (xabs m k \<noteq> None) \<and>
    xinv (snd (CompareAndSwap k old new m)) \<and>
    xabs (snd (CompareAndSwap k old new m)) =
      (if xabs m k = None then xabs m else (xabs m)(k \<mapsto> new))"
  using inv
proof (cases rule: key_cases [where k = k])
  case (read e)
  from write_entry_correct [OF inv read_entry [OF read(1)] read(2)] read inv show ?thesis
    by (cases "heap m e")
      (simp_all add: CompareAndSwap_def tryCompareAndSwap_def read_lookup_abs entry_load_def)
next
  case (expunged e)
  then show ?thesis by (simp add: CompareAndSwap_def tryCompareAndSwap_def inv)
next
  case (dirty_only e d)
  from write_entry_correct [OF inv dirty_entry [OF dirty_only(1,2)] dirty_only(5)] dirty_only inv
  show ?thesis
    by (cases "heap m e")
      (simp_all add: CompareAndSwap_def tryCompareAndSwap_def dirty_lookup_abs entry_load_def
        miss_correct)
next
  case absent
  then show ?thesis by (simp add: CompareAndSwap_def inv)
qed

lemma CompareAndDelete_correct:
  assumes inv: "xinv m"
  shows "fst (CompareAndDelete k old m) = (xabs m k \<noteq> None) \<and>
    xinv (snd (CompareAndDelete k old m)) \<and>
    xabs (snd (CompareAndDelete k old m)) = (xabs m)(k := None)"
  using inv
proof (cases rule: key_cases [where k = k])
  case (read e)
  from write_entry_correct [OF inv read_entry [OF read(1)] read(2)] read inv show ?thesis
    by (cases "heap m e")
      (auto simp: CompareAndDelete_def read_lookup_abs entry_load_def fun_eq_iff)
next
  case (expunged e)
  then show ?thesis by (simp add: CompareAndDelete_def inv fun_upd_idem)
next
  case (dirty_only e d)
  from write_entry_correct [OF inv dirty_entry [OF dirty_only(1,2)] dirty_only(5)] dirty_only inv
  show ?thesis
    by (cases "heap m e")
      (simp_all add: CompareAndDelete_def dirty_lookup_abs entry_load_def miss_correct
        write_miss fun_upd_idem)
next
  case absent
  show ?thesis
  proof (cases "dirty m")
    case None
    with inv have "\<not> amended m" by (auto simp: xinv_def xinv0_def)
    with absent inv show ?thesis by (simp add: CompareAndDelete_def fun_upd_idem)
  next
    case (Some d)
    with absent show ?thesis
      by (simp add: CompareAndDelete_def Let_def inv miss_correct [OF inv Some] fun_upd_idem)
  qed
qed

section \<open>Iteration\<close>

text \<open>The iteration over a plain list of bindings, and a callback lifted to the map.\<close>

fun visit :: "('k \<Rightarrow> 'v \<Rightarrow> 's \<Rightarrow> bool \<times> 's) \<Rightarrow> ('k \<times> 'v) list \<Rightarrow> 's \<Rightarrow> 's" where
  "visit g [] s = s"
| "visit g ((k, v) # xs) s = (let (go, s) = g k v s in if go then visit g xs s else s)"

definition lift_callback ::
  "('k \<Rightarrow> 'v \<Rightarrow> 's \<Rightarrow> bool \<times> 's) \<Rightarrow> 'k \<Rightarrow> 'v \<Rightarrow> ('k, 'v) xmap \<times> 's \<Rightarrow> bool \<times> ('k, 'v) xmap \<times> 's" where
  "lift_callback g k v = (\<lambda>(m, s). let (go, s) = g k v s in (go, m, s))"

fun live_bindings :: "('k, 'v) xmap \<Rightarrow> ('k \<times> nat) list \<Rightarrow> ('k \<times> 'v) list" where
  "live_bindings m [] = []"
| "live_bindings m ((k, e) # xs) =
     (case entry_load e m of
        None \<Rightarrow> live_bindings m xs | Some v \<Rightarrow> (k, v) # live_bindings m xs)"

lemma range_loop_visit:
  "range_loop (lift_callback g) xs (m, s) = (m, visit g (live_bindings m xs) s)"
  by (induction xs arbitrary: s) (auto simp: lift_callback_def split: option.splits prod.splits)

lemma live_bindings_set: "fst ` set (live_bindings m xs) \<subseteq> fst ` set xs"
  by (induction m xs rule: live_bindings.induct) (auto split: option.splits)

lemma live_bindings_wf: "wf_map xs \<Longrightarrow> wf_map (live_bindings m xs)"
proof (induction m xs rule: live_bindings.induct)
  case (2 m k e xs)
  then show ?case
    using live_bindings_set [of m xs] by (auto simp: wf_map_def split: option.splits)
qed simp

lemma live_bindings_lookup:
  "wf_map xs \<Longrightarrow> map_of (live_bindings m xs) k =
     (case map_of xs k of None \<Rightarrow> None | Some e \<Rightarrow> entry_load e m)"
proof (induction m xs rule: live_bindings.induct)
  case (2 m k' e xs)
  have out: "map_of (live_bindings m xs) k' = None"
    using 2(3) live_bindings_set [of m xs] by (auto simp: map_of_eq_None_iff wf_map_def)
  from 2 out show ?case by (auto simp: wf_map_def split: option.splits)
qed simp

text \<open>
  \<open>Range\<close> with a callback that leaves this map alone: whatever the enumeration order, it
  visits a list of bindings that is exactly the map, each key once, until the callback stops it.
\<close>

lemma Range_correct:
  assumes inv: "xinv m" and ord: "\<And>ys. mset (ord ys) = mset ys"
  shows "\<exists>m' xs. Range ord (lift_callback g) m s = (m', visit g xs s) \<and> xinv m' \<and>
           xabs m' = xabs m \<and> wf_map xs \<and> map_of xs = xabs m"
proof -
  define m1 where "m1 = (if amended m then promote m else m)"
  have i0: "xinv0 m" using inv by blast
  have m1: "xinv m1 \<and> xabs m1 = xabs m \<and> dirty m1 = None"
  proof (cases "dirty m")
    case None
    with i0 inv show ?thesis by (simp add: m1_def xinv0_def)
  next
    case (Some d)
    with i0 promote_correct [OF i0 Some] show ?thesis
      by (simp add: m1_def xinv0_def) (simp add: promote_def)
  qed
  let ?xs = "ord (read_m m1)"
  have wf: "wf_map (read_m m1)" using m1 by (simp add: xinv_def xinv0_def)
  have wfo: "wf_map ?xs"
    using wf ord [of "read_m m1"] unfolding wf_map_def
    by (metis mset_map mset_eq_imp_distinct_iff)
  have same: "map_of ?xs = map_of (read_m m1)"
    using wf wfo ord [of "read_m m1"] by (intro wf_map_perm) (auto dest: mset_eq_setD)
  have "map_of (live_bindings m1 ?xs) k = xabs m1 k" for k
    using conjunct2 [OF conjunct2 [OF m1]]
    by (simp add: live_bindings_lookup [OF wfo] same xabs_def entry_of_def dirty_lookup_def
        split: option.splits)
  then have "map_of (live_bindings m1 ?xs) = xabs m" using m1 by (auto simp: fun_eq_iff)
  moreover have "Range ord (lift_callback g) m s = (m1, visit g (live_bindings m1 ?xs) s)"
    by (simp add: Range_def m1_def range_loop_visit Let_def)
  ultimately show ?thesis using m1 live_bindings_wf [OF wfo] by blast
qed

section \<open>What a client of the map relies on\<close>

locale go_map =
  fixes load :: "'k \<Rightarrow> 'm \<Rightarrow> 'v option \<times> 'm"
    and store :: "'k \<Rightarrow> 'v \<Rightarrow> 'm \<Rightarrow> 'm option"
    and remove :: "'k \<Rightarrow> 'm \<Rightarrow> 'm"
    and content :: "'m \<Rightarrow> 'k \<Rightarrow> 'v option"
    and ok :: "'m \<Rightarrow> bool"
  assumes load_content: "ok m \<Longrightarrow> fst (load k m) = content m k"
    and load_ok: "ok m \<Longrightarrow> ok (snd (load k m)) \<and> content (snd (load k m)) = content m"
    and store_ok: "ok m \<Longrightarrow> \<exists>m'. store k v m = Some m' \<and> ok m' \<and> content m' = (content m)(k \<mapsto> v)"
    and remove_ok: "ok m \<Longrightarrow> ok (remove k m) \<and> content (remove k m) = (content m)(k := None)"
begin

lemma store_content: "ok m \<Longrightarrow> store k v m = Some m' \<Longrightarrow> content m' = (content m)(k \<mapsto> v)"
  using store_ok [of m k v] by auto

lemma store_keeps_ok: "ok m \<Longrightarrow> store k v m = Some m' \<Longrightarrow> ok m'"
  using store_ok [of m k v] by auto

lemma store_returns: "ok m \<Longrightarrow> store k v m \<noteq> None"
  using store_ok [of m k v] by auto

lemma load_after_store: "ok m \<Longrightarrow> store k v m = Some m' \<Longrightarrow> fst (load k m') = Some v"
  using load_content [of m' k] store_content [of m k v m'] store_keeps_ok [of m k v m'] by simp

lemma load_other_after_store:
  "ok m \<Longrightarrow> store k v m = Some m' \<Longrightarrow> k' \<noteq> k \<Longrightarrow> fst (load k' m') = fst (load k' m)"
  using load_content [of m' k'] load_content [of m k'] store_content [of m k v m']
    store_keeps_ok [of m k v m'] by simp

lemma load_after_remove: "ok m \<Longrightarrow> fst (load k (remove k m)) = None"
  using remove_ok [of m k] by (simp add: load_content)

lemma load_twice: "ok m \<Longrightarrow> fst (load k (snd (load k' m))) = fst (load k m)"
  using load_ok [of m k'] by (simp add: load_content)

end

interpretation xsync: go_map Load Store Delete xabs xinv
  by unfold_locales (auto simp: Load_correct Store_correct Delete_correct)

section \<open>Runs of operations\<close>









section \<open>Misses are bounded\<close>

lemma Load_miss:
  assumes "amended m" "map_of (read_m m) k = None" "dirty m = Some d"
  shows "Suc (misses m) < length d \<Longrightarrow> snd (Load k m) = m\<lparr>misses := Suc (misses m)\<rparr>"
    and "\<not> Suc (misses m) < length d \<Longrightarrow> \<not> amended (snd (Load k m))"
  using assms
  by (simp_all add: Load_def missLocked_def Let_def dirty_len_def promote_def split: option.splits)

lemma repeated_misses_promote:
  assumes "amended m" "map_of (read_m m) k = None" "dirty m = Some d" "length d \<le> misses m + n" "0 < n"
  shows "\<exists>j\<le>n. \<not> amended (((\<lambda>m. snd (Load k m)) ^^ j) m)"
  using assms
proof (induction n arbitrary: m)
  case (Suc n)
  show ?case
  proof (cases "Suc (misses m) < length d")
    case False
    with Suc.prems Load_miss(2) have "\<not> amended (((\<lambda>m. snd (Load k m)) ^^ 1) m)" by simp
    then show ?thesis by (intro exI [of _ 1]) simp
  next
    case True
    let ?m = "m\<lparr>misses := Suc (misses m)\<rparr>"
    have step: "snd (Load k m) = ?m" using Suc.prems(1-3) True by (rule Load_miss(1))
    have "0 < n" using True Suc.prems(4) by linarith
    then have "\<exists>j\<le>n. \<not> amended (((\<lambda>m. snd (Load k m)) ^^ j) ?m)"
      by (intro Suc.IH) (use Suc.prems in simp_all)
    then obtain j where "j \<le> n" "\<not> amended (((\<lambda>m. snd (Load k m)) ^^ j) ?m)" by blast
    then have "\<not> amended (((\<lambda>m. snd (Load k m)) ^^ Suc j) m)"
      by (simp only: funpow_Suc_right o_apply step not_False_eq_True)
    with \<open>j \<le> n\<close> show ?thesis by (intro exI [of _ "Suc j"]) simp
  qed
qed simp

section \<open>Properties\<close>


text \<open>Iteration: with any enumeration order of the run time, Range visits each key of the map
  exactly once with its current value, nothing else, and stops as soon as the callback says so;
  the map's contents stay the same.\<close>

theorem Range_visits_exactly_the_map:
  assumes "xinv m" and "\<forall>ys. mset (ord ys) = mset ys"
  shows "\<exists>m' xs. Range ord (lift_callback g) m s = (m', visit g xs s) \<and>
           xabs m' = xabs m \<and> wf_map xs \<and> map_of xs = xabs m"
  using Range_correct [of m ord g s] assms by blast

definition sample_xmap :: "(nat, nat) xmap" where
  "sample_xmap = \<lparr>read_m = [(1, 0)], amended = True, dirty = Some [(1, 0), (2, 1)], misses = 0,
     heap = (\<lambda>_. PNil)(0 := PVal 10, 1 := PVal 20), next_entry = 2\<rparr>"

lemma sample_xmap_ok: "xinv sample_xmap" "xabs sample_xmap = [1 \<mapsto> 10, 2 \<mapsto> 20]"
  by (auto simp: sample_xmap_def xinv_def xinv0_def entries_ok_def entry_of_def dirty_lookup_def
      dirty_ok_def wf_map_def xabs_def entry_load_def fun_eq_iff split: if_splits)

theorem Range_visits_exactly_the_map_witness:
  "\<exists>m' xs. Range rev (lift_callback (\<lambda>k v s. (True, (k, v) # s))) sample_xmap [] =
       (m', visit (\<lambda>k v s. (True, (k, v) # s)) xs []) \<and>
     xabs m' = xabs sample_xmap \<and> wf_map xs \<and> map_of xs = xabs sample_xmap"
  by (rule Range_visits_exactly_the_map) (simp_all add: sample_xmap_ok)

text \<open>CompareAndSwap does not compare: whenever the key has a value, the call stores the new
  value and reports success, whatever the argument old is.\<close>

theorem CompareAndSwap_swaps_any_value:
  assumes "xinv m" and "xabs m k = Some w"
  shows "\<exists>m'. CompareAndSwap k old new m = (True, m') \<and> xabs m' = (xabs m)(k \<mapsto> new)"
  using CompareAndSwap_correct [of m k old new] assms
  by (cases "CompareAndSwap k old new m") auto

theorem CompareAndSwap_swaps_any_value_witness:
  "\<exists>m'. CompareAndSwap 1 99 30 sample_xmap = (True, m') \<and> xabs m' = (xabs sample_xmap)(1 \<mapsto> 30)"
  by (rule CompareAndSwap_swaps_any_value [where w = 10]) (simp_all add: sample_xmap_ok)

text \<open>CompareAndDelete does not compare either: it deletes the key's value, whatever the
  argument old is, and reports whether there was one.\<close>

theorem CompareAndDelete_deletes_any_value:
  assumes "xinv m" and "xabs m k = Some w"
  shows "\<exists>m'. CompareAndDelete k old m = (True, m') \<and> xabs m' = (xabs m)(k := None)"
  using CompareAndDelete_correct [of m k old] assms
  by (cases "CompareAndDelete k old m") auto

theorem CompareAndDelete_deletes_any_value_witness:
  "\<exists>m'. CompareAndDelete 2 99 sample_xmap = (True, m') \<and> xabs m' = (xabs sample_xmap)(2 := None)"
  by (rule CompareAndDelete_deletes_any_value [where w = 20]) (simp_all add: sample_xmap_ok)

text \<open>The slow path is amortised: loads of a key that the read map does not have promote the
  dirty map after at most as many misses as the dirty map has keys.\<close>

theorem misses_bounded_by_dirty_size:
  assumes "xinv m" and "amended m" and "map_of (read_m m) k = None"
  shows "\<exists>j\<le>dirty_len m. \<not> amended (((\<lambda>m. snd (Load k m)) ^^ j) m)"
proof -
  from assms obtain d where d: "dirty m = Some d" by (auto simp: xinv_def xinv0_def)
  with assms(1) have "misses m < length d" by (simp add: xinv_def)
  then have "length d \<le> misses m + length d" "0 < length d" by linarith+
  with repeated_misses_promote [OF assms(2,3) d, of "length d"] show ?thesis
    unfolding dirty_len_def d option.case by blast
qed

theorem misses_bounded_by_dirty_size_witness:
  "\<exists>j\<le>dirty_len sample_xmap. \<not> amended (((\<lambda>m. snd (Load 7 m)) ^^ j) sample_xmap)"
  by (rule misses_bounded_by_dirty_size) (use sample_xmap_ok in \<open>simp_all add: sample_xmap_def\<close>)

end
