(* ===== verification/XsyncConcInv.thy ===== *)
theory XsyncConcInv
  imports XsyncConc XsyncMapCorrect
begin

text \<open>
  The invariant of the concurrent map: every goroutine is at a point of its own method and
  knows what the code needs there about its entry; the mutex has one holder, at a point
  inside a critical section; the two maps and their entries are as the comments of
  \<open>pkgs/xsync/map.go\<close> say, also while a goroutine builds the dirty map. The proof is by
  what a step may do to the facts of the other goroutines: a step without the mutex is
  \<open>soft\<close>, a step with it is a \<open>sh_step\<close>.
\<close>

section \<open>Typing of the program points\<close>

fun ret_typed :: "('k, 'v) xcall \<Rightarrow> ('k, 'v) xret \<Rightarrow> bool" where
  "ret_typed (Op (XLoad k)) (GotValue v) = True"
| "ret_typed (Op (XSwap k v)) (GotValue v') = True"
| "ret_typed (Op (XLoadAndDelete k)) (GotValue v) = True"
| "ret_typed (Op (XLoadOrStore k v)) (GotLoaded v' b) = (v' \<noteq> None)"
| "ret_typed (Op (XCompareAndSwap k old new)) (GotBool b) = True"
| "ret_typed (Op (XCompareAndDelete k old)) (GotBool b) = True"
| "ret_typed (XRange ord f) (GotPairs ps) = distinct (map fst ps)"
| "ret_typed _ _ = False"

fun is_swap :: "('k, 'v) xcall \<Rightarrow> bool" where
  "is_swap (Op (XSwap k v)) = True" | "is_swap _ = False"

fun is_los :: "('k, 'v) xcall \<Rightarrow> bool" where
  "is_los (Op (XLoadOrStore k v)) = True" | "is_los _ = False"

fun is_cas :: "('k, 'v) xcall \<Rightarrow> bool" where
  "is_cas (Op (XCompareAndSwap k old new)) = True" | "is_cas _ = False"

fun is_load :: "('k, 'v) xcall \<Rightarrow> bool" where
  "is_load (Op (XLoad k)) = True" | "is_load _ = False"

fun is_lad :: "('k, 'v) xcall \<Rightarrow> bool" where
  "is_lad (Op (XLoadAndDelete k)) = True" | "is_lad _ = False"

fun is_cad :: "('k, 'v) xcall \<Rightarrow> bool" where
  "is_cad (Op (XCompareAndDelete k old)) = True" | "is_cad _ = False"

fun pc_typed :: "('k, 'v) xcall \<Rightarrow> ('k, 'v) xpc \<Rightarrow> bool" where
  "pc_typed c XStart = True"
| "pc_typed c XLock = True"
| "pc_typed c (XEntryLoad e) = is_load c"
| "pc_typed c (XDelLoad own e) = (is_lad c \<or> is_cad c \<and> \<not> own)"
| "pc_typed c (XDelCas own e p) = ((is_lad c \<or> is_cad c \<and> \<not> own) \<and> p \<noteq> PNil \<and> p \<noteq> PExpunged)"
| "pc_typed c (XTrySwap e) = is_swap c"
| "pc_typed c (XTrySwapCas e p) = (is_swap c \<and> p \<noteq> PExpunged)"
| "pc_typed c (XCasLoad h e) = is_cas c"
| "pc_typed c (XCasCas h e p) = (is_cas c \<and> p \<noteq> PNil \<and> p \<noteq> PExpunged)"
| "pc_typed c (XLosLoad h e) = is_los c"
| "pc_typed c (XLosCas h e) = is_los c"
| "pc_typed c (XUnexpunge e) = (is_swap c \<or> is_los c)"
| "pc_typed c (XSwapEntry e) = is_swap c"
| "pc_typed c (XExpunge xs) = (is_swap c \<or> is_los c)"
| "pc_typed c (XExpungeCas xs) = ((is_swap c \<or> is_los c) \<and> xs \<noteq> [])"
| "pc_typed c (XUnlock miss r) = (ret_typed c r \<and> (is_swap c \<or> is_los c \<or> is_cas c))"
| "pc_typed c (XRangeLoop xs acc) =
     ((\<exists>ord f. c = XRange ord f) \<and> distinct (map fst acc @ map fst xs))"
| "pc_typed c (XReturn r) = ret_typed c r"
| "pc_typed c (XDone r) = ret_typed c r"

text \<open>The points inside a critical section.\<close>

fun held :: "('k, 'v) xpc \<Rightarrow> bool" where
  "held (XCasLoad h e) = (h \<noteq> NoLock)"
| "held (XCasCas h e p) = (h \<noteq> NoLock)"
| "held (XLosLoad h e) = (h \<noteq> NoLock)"
| "held (XLosCas h e) = (h \<noteq> NoLock)"
| "held (XUnexpunge e) = True"
| "held (XSwapEntry e) = True"
| "held (XExpunge xs) = True"
| "held (XExpungeCas xs) = True"
| "held (XUnlock miss r) = True"
| "held _ = False"

section \<open>What a goroutine knows about its entry\<close>

text \<open>An entry that was in the map and no longer belongs to any key.\<close>

definition detached :: "('k, 'v) xmap \<Rightarrow> nat \<Rightarrow> bool" where
  "detached m e \<longleftrightarrow> e < next_entry m \<and> (\<forall>k. entry_of m k \<noteq> Some e)"

definition reads :: "'k \<Rightarrow> nat \<Rightarrow> ('k, 'v) xmap \<Rightarrow> bool" where
  "reads k e m \<longleftrightarrow> entry_of m k = Some e \<or> detached m e"

definition writes :: "'k \<Rightarrow> nat \<Rightarrow> ('k, 'v) xmap \<Rightarrow> bool" where
  "writes k e m \<longleftrightarrow> map_of (read_m m) k = Some e \<or> detached m e \<and> heap m e = PExpunged"

definition in_dirty :: "'k \<Rightarrow> nat \<Rightarrow> ('k, 'v) xmap \<Rightarrow> bool" where
  "in_dirty k e m \<longleftrightarrow> map_of (read_m m) k = None \<and> dirty_lookup m k = Some e"

fun holds_entry :: "hold \<Rightarrow> 'k \<Rightarrow> nat \<Rightarrow> ('k, 'v) xmap \<Rightarrow> bool" where
  "holds_entry NoLock k e m = writes k e m"
| "holds_entry Locked k e m = (map_of (read_m m) k = Some e)"
| "holds_entry LockedMiss k e m = in_dirty k e m"

fun op_facts :: "'k \<Rightarrow> ('k, 'v) xpc \<Rightarrow> ('k, 'v) shared \<Rightarrow> bool" where
  "op_facts k (XEntryLoad e) m = reads k e m"
| "op_facts k (XDelLoad own e) m = (if own then detached m e else reads k e m)"
| "op_facts k (XDelCas own e p) m = (if own then detached m e else reads k e m)"
| "op_facts k (XTrySwap e) m = writes k e m"
| "op_facts k (XTrySwapCas e p) m = writes k e m"
| "op_facts k (XCasLoad h e) m = holds_entry h k e m"
| "op_facts k (XCasCas h e p) m = holds_entry h k e m"
| "op_facts k (XLosLoad h e) m = (holds_entry h k e m \<and> (h = Locked \<longrightarrow> heap m e \<noteq> PExpunged))"
| "op_facts k (XLosCas h e) m = (holds_entry h k e m \<and> (h = Locked \<longrightarrow> heap m e \<noteq> PExpunged))"
| "op_facts k (XUnexpunge e) m = (map_of (read_m m) k = Some e)"
| "op_facts k (XSwapEntry e) m = (entry_of m k = Some e \<and> heap m e \<noteq> PExpunged)"
| "op_facts k (XExpunge xs) m = (map_of (read_m m) k = None)"
| "op_facts k (XExpungeCas xs) m = (map_of (read_m m) k = None)"
| "op_facts k (XUnlock miss r) m = (miss \<longrightarrow> dirty m \<noteq> None)"
| "op_facts k _ m = True"

fun range_facts :: "('k, 'v) xpc \<Rightarrow> ('k, 'v) shared \<Rightarrow> bool" where
  "range_facts (XRangeLoop xs acc) m = (\<forall>(k, e) \<in> set xs. reads k e m)"
| "range_facts _ m = True"

fun call_facts :: "('k, 'v) xcall \<Rightarrow> ('k, 'v) xpc \<Rightarrow> ('k, 'v) shared \<Rightarrow> bool" where
  "call_facts (Op op) pc m = op_facts (key_of op) pc m"
| "call_facts (XRange ord f) pc m = range_facts pc m"

section \<open>The shared state\<close>

text \<open>
  While \<open>dirtyLocked\<close> runs: the entries before \<open>xs\<close> in the read map are done, those of them
  that are not expunged are in the dirty map, and none of \<open>xs\<close> is expunged yet.
\<close>

definition loop_ok :: "('k \<times> nat) list \<Rightarrow> ('k, 'v) xmap \<Rightarrow> bool" where
  "loop_ok xs m \<longleftrightarrow> wf_map (read_m m) \<and> entries_ok m \<and> \<not> amended m \<and>
     (\<exists>ys. read_m m = ys @ xs \<and> dirty m = Some (filter (\<lambda>(k, e). heap m e \<noteq> PExpunged) ys)) \<and>
     (\<forall>(k, e) \<in> set xs. heap m e \<noteq> PExpunged)"

fun phase_ok :: "('k, 'v) xpc \<Rightarrow> ('k, 'v) shared \<Rightarrow> bool" where
  "phase_ok (XExpunge xs) m = loop_ok xs m"
| "phase_ok (XExpungeCas xs) m = loop_ok xs m"
| "phase_ok _ m = xinv0 m"

definition base_ok :: "('k, 'v) xmap \<Rightarrow> bool" where
  "base_ok m \<longleftrightarrow> wf_map (read_m m) \<and> entries_ok m \<and>
     (\<not> amended m \<longrightarrow> (\<forall>k. entry_of m k = map_of (read_m m) k))"

lemma xinv0_base: "xinv0 m \<Longrightarrow> base_ok m"
  by (auto simp: xinv0_def base_ok_def entry_of_def dirty_lookup_def split: option.splits)

lemma loop_ok_entry: 
  assumes "loop_ok xs m"
  shows "entry_of m k = map_of (read_m m) k"
proof -
  from assms obtain ys where r: "read_m m = ys @ xs" and wf: "wf_map (read_m m)"
    and d: "dirty m = Some (filter (\<lambda>(k, e). heap m e \<noteq> PExpunged) ys)"
    unfolding loop_ok_def by blast
  show ?thesis
  proof (cases "map_of (read_m m) k")
    case None
    then have "k \<notin> fst ` set ys" by (simp add: r map_of_eq_None_iff image_Un)
    then have "map_of (filter P ys) k = None" for P by (auto simp: map_of_eq_None_iff)
    with None show ?thesis by (simp add: entry_of_def dirty_lookup_def d)
  qed (simp add: entry_of_def)
qed

lemma loop_ok_base: "loop_ok xs m \<Longrightarrow> base_ok m"
  using loop_ok_entry by (force simp: base_ok_def loop_ok_def)

lemma phase_ok_base: "phase_ok pc m \<Longrightarrow> base_ok m"
  by (cases pc) (auto intro: xinv0_base loop_ok_base)

lemma entry_key: "base_ok m \<Longrightarrow> entry_of m k = Some e \<Longrightarrow> entry_of m k' = Some e \<Longrightarrow> k' = k"
  by (auto simp: base_ok_def entries_ok_def)

lemma entry_allocated: "base_ok m \<Longrightarrow> entry_of m k = Some e \<Longrightarrow> e < next_entry m"
  by (auto simp: base_ok_def entries_ok_def)

lemma detached_entry: "detached m e \<Longrightarrow> entry_of m k \<noteq> Some e"
  by (simp add: detached_def)

section \<open>Steps without the mutex\<close>

text \<open>What a step that does not hold the mutex may do: write a pointer, never to or from the marker.\<close>

definition soft :: "('k, 'v) xmap \<Rightarrow> ('k, 'v) xmap \<Rightarrow> bool" where
  "soft m m' \<longleftrightarrow> read_m m' = read_m m \<and> amended m' = amended m \<and> dirty m' = dirty m \<and>
     next_entry m' = next_entry m \<and> (\<forall>e. heap m' e = PExpunged \<longleftrightarrow> heap m e = PExpunged)"

lemma soft_refl [simp]: "soft m m"
  by (simp add: soft_def)

lemma soft_write: "heap m e \<noteq> PExpunged \<Longrightarrow> p \<noteq> PExpunged \<Longrightarrow> soft m (write_slot e p m)"
  by (auto simp: soft_def)

lemma soft_fields:
  assumes "soft m m'"
  shows "read_m m' = read_m m" and "amended m' = amended m" and "dirty m' = dirty m"
    and "next_entry m' = next_entry m" and "(heap m' e = PExpunged) = (heap m e = PExpunged)"
  using assms by (simp_all add: soft_def)

lemma soft_lookups:
  assumes "soft m m'"
  shows "entry_of m' = entry_of m" and "dirty_lookup m' = dirty_lookup m"
    and "detached m' = detached m" and "reads k e m' = reads k e m"
    and "writes k e m' = writes k e m" and "in_dirty k e m' = in_dirty k e m"
    and "holds_entry h k e m' = holds_entry h k e m"
proof -
  note f = soft_fields [OF assms]
  show dl: "dirty_lookup m' = dirty_lookup m" by (simp add: fun_eq_iff dirty_lookup_def f cong: option.case_cong)
  show eo: "entry_of m' = entry_of m" by (simp add: fun_eq_iff entry_of_def f dl cong: option.case_cong)
  show det: "detached m' = detached m"
    by (simp add: detached_def eo fun_eq_iff f)
  show "reads k e m' = reads k e m" by (simp add: reads_def eo det)
  show w: "writes k e m' = writes k e m" by (simp add: writes_def det f)
  show d: "in_dirty k e m' = in_dirty k e m" by (simp add: in_dirty_def dl f)
  show "holds_entry h k e m' = holds_entry h k e m"
    by (cases h) (simp_all add: w d f)
qed

lemma soft_facts: "soft m m' \<Longrightarrow> op_facts k pc m' = op_facts k pc m"
  by (cases pc) (simp_all add: soft_lookups soft_fields)

lemma soft_range_facts: "soft m m' \<Longrightarrow> range_facts pc m' = range_facts pc m"
  by (cases pc) (auto simp: soft_lookups)

lemma soft_call_facts: "soft m m' \<Longrightarrow> call_facts c pc m' = call_facts c pc m"
  by (cases c) (auto simp: soft_facts soft_range_facts)

lemma soft_entries_ok: "soft m m' \<Longrightarrow> entries_ok m' = entries_ok m"
  by (simp add: entries_ok_def soft_lookups(1)) (simp add: soft_def)

lemma soft_xinv0:
  assumes "soft m m'" shows "xinv0 m' = xinv0 m"
proof -
  have "dirty_ok m' d = dirty_ok m d" for d
    using assms by (simp add: dirty_ok_def soft_def)
  moreover have "clean_ok m' = clean_ok m" using assms by (simp add: clean_ok_def soft_def)
  ultimately show ?thesis
    using assms soft_entries_ok [OF assms]
    by (simp add: xinv0_def soft_def cong: option.case_cong)
qed

lemma soft_loop_ok: "soft m m' \<Longrightarrow> loop_ok xs m' = loop_ok xs m"
  by (simp add: loop_ok_def soft_entries_ok) (simp add: soft_def)

lemma soft_phase: "soft m m' \<Longrightarrow> phase_ok pc m' = phase_ok pc m"
  by (cases pc) (auto simp: soft_xinv0 soft_loop_ok)

section \<open>Steps with the mutex\<close>

text \<open>What the goroutines without the mutex may rely on when another one makes a step with it.\<close>

definition sh_step :: "('k, 'v) xmap \<Rightarrow> ('k, 'v) xmap \<Rightarrow> bool" where
  "sh_step m m' \<longleftrightarrow> next_entry m \<le> next_entry m' \<and>
     (\<forall>k e. entry_of m k = Some e \<longrightarrow> entry_of m' k = Some e \<or> detached m' e) \<and>
     (\<forall>k e. map_of (read_m m) k = Some e \<longrightarrow> writes k e m') \<and>
     (\<forall>e. detached m e \<longrightarrow> detached m' e) \<and>
     (\<forall>e. detached m e \<and> heap m e = PExpunged \<longrightarrow> heap m' e = PExpunged)"

lemma sh_step_refl [simp]: "sh_step m m"
  by (simp add: sh_step_def writes_def)

lemma sh_step_reads: "sh_step m m' \<Longrightarrow> reads k e m \<Longrightarrow> reads k e m'"
  by (auto simp: sh_step_def reads_def)

lemma sh_step_writes: "sh_step m m' \<Longrightarrow> writes k e m \<Longrightarrow> writes k e m'"
  by (auto simp: sh_step_def writes_def)

lemma sh_step_trans:
  assumes "sh_step m m'" "sh_step m' m''"
  shows "sh_step m m''"
  unfolding sh_step_def
proof (intro conjI allI impI)
  show "next_entry m \<le> next_entry m''" using assms by (simp add: sh_step_def)
  show "writes k e m''" if "map_of (read_m m) k = Some e" for k e
    using sh_step_writes [OF assms(2)] assms(1) that by (simp add: sh_step_def)
  show "entry_of m'' k = Some e \<or> detached m'' e" if "entry_of m k = Some e" for k e
    using sh_step_reads [OF assms(2), of k e] sh_step_reads [OF assms(1), of k e] that
    by (simp add: reads_def)
  show "detached m'' e" if "detached m e" for e using assms that by (simp add: sh_step_def)
  show "heap m'' e = PExpunged" if "detached m e \<and> heap m e = PExpunged" for e
    using assms that by (simp add: sh_step_def)
qed

lemma sh_step_facts: "sh_step m m' \<Longrightarrow> \<not> held pc \<Longrightarrow> op_facts k pc m \<Longrightarrow> op_facts k pc m'"
  by (cases pc) (auto simp: sh_step_reads sh_step_writes sh_step_def split: if_splits)

lemma sh_step_call_facts:
  assumes "sh_step m m'" "\<not> held pc" "call_facts c pc m"
  shows "call_facts c pc m'"
proof (cases c)
  case (Op op)
  then show ?thesis using assms sh_step_facts by auto
next
  case (XRange ord f)
  then show ?thesis using assms by (cases pc) (auto intro: sh_step_reads)
qed

lemma sh_stepI:
  assumes "next_entry m \<le> next_entry m'"
    and "\<And>k e. entry_of m k = Some e \<Longrightarrow> entry_of m' k = Some e \<or> detached m' e"
    and "\<And>k e. map_of (read_m m) k = Some e \<Longrightarrow> writes k e m'"
    and "\<And>e. detached m e \<Longrightarrow> detached m' e \<and> heap m' e = heap m e"
  shows "sh_step m m'"
  using assms by (auto simp: sh_step_def)

lemma soft_sh_step: "soft m m' \<Longrightarrow> sh_step m m'"
  by (auto simp: sh_step_def soft_lookups writes_def) (auto simp: soft_def)

section \<open>The locked operations on the maps\<close>

lemma detachedI: "e < next_entry m \<Longrightarrow> (\<And>k. entry_of m k \<noteq> Some e) \<Longrightarrow> detached m e"
  by (simp add: detached_def)

lemma promote_fields [simp]:
  "heap (promote m) = heap m" "next_entry (promote m) = next_entry m"
  "amended (promote m) = False" "dirty (promote m) = None"
  by (simp_all add: promote_def)

lemma promote_entry:
  assumes inv: "xinv0 m" and d: "dirty m = Some d" and k: "entry_of m k = Some e"
  shows "entry_of (promote m) k = Some e \<or>
    detached (promote m) e \<and> heap m e = PExpunged \<and> xabs m k = None"
proof (cases "map_of d k = Some e")
  case True
  then show ?thesis by (simp add: entry_of_promote [OF d])
next
  case False
  have b: "base_ok m" using inv by (rule xinv0_base)
  have sub: "entry_of m k' = Some e'" if "map_of d k' = Some e'" for k' e'
    using dirty_lookup_entry [OF inv, of k' e'] that by (simp add: dirty_lookup_def d)
  from False k have "map_of (read_m m) k = Some e"
    by (auto simp: entry_of_def dirty_lookup_def d split: option.splits)
  with False inv have x: "heap m e = PExpunged" "map_of d k = None"
    by (auto simp: xinv0_def dirty_ok_def d split: if_splits)
  have "map_of d k' \<noteq> Some e" for k'
    using entry_key [OF b k, of k'] sub [of k' e] x(2) by auto
  then have "detached (promote m) e"
    using entry_allocated [OF b k] by (simp add: detached_def entry_of_promote [OF d])
  moreover have "xabs m k = None" by (simp add: xabs_def k entry_load_def x(1))
  ultimately show ?thesis using x(1) by simp
qed

lemma promote_step:
  assumes inv: "xinv0 m" and d: "dirty m = Some d"
  shows "xinv0 (promote m)" and "sh_step m (promote m)"
proof -
  show "xinv0 (promote m)" using promote_correct(1) [OF assms] by blast
  note eo = entry_of_promote [OF d]
  have sub: "entry_of m k = Some e" if "map_of d k = Some e" for k e
    using dirty_lookup_entry [OF inv, of k e] that by (simp add: dirty_lookup_def d)
  have r: "read_m (promote m) = d" by (simp add: promote_def d)
  show "sh_step m (promote m)"
  proof (rule sh_stepI)
    show "entry_of (promote m) k = Some e \<or> detached (promote m) e" if "entry_of m k = Some e" for k e
      using promote_entry [OF inv d that] by auto
    show "writes k e (promote m)" if "map_of (read_m m) k = Some e" for k e
      using promote_entry [OF inv d read_entry [OF that]] by (auto simp: writes_def eo r)
    show "detached (promote m) e \<and> heap (promote m) e = heap m e" if "detached m e" for e
      using that sub by (auto simp: detached_def eo)
  qed simp
qed

lemma misses_step:
  shows "xinv0 (m\<lparr>misses := n\<rparr>) = xinv0 m" and "sh_step m (m\<lparr>misses := n\<rparr>)"
proof -
  have s: "soft m (m\<lparr>misses := n\<rparr>)" by (simp add: soft_def)
  show "xinv0 (m\<lparr>misses := n\<rparr>) = xinv0 m" by (rule soft_xinv0 [OF s])
  show "sh_step m (m\<lparr>misses := n\<rparr>)" by (rule soft_sh_step [OF s])
qed

lemma missLocked_step:
  assumes "xinv0 m" "dirty m \<noteq> None"
  shows "xinv0 (missLocked m)" and "sh_step m (missLocked m)"
proof -
  obtain d where d: "dirty (m\<lparr>misses := n\<rparr>) = Some d" for n using assms(2) by auto
  note p = promote_step [OF misses_step(1) [THEN iffD2, OF assms(1)] d]
  show "xinv0 (missLocked m)"
    using p(1) assms(1) by (auto simp: missLocked_def Let_def misses_step(1))
  show "sh_step m (missLocked m)"
    using sh_step_trans [OF misses_step(2) p(2)] by (auto simp: missLocked_def Let_def misses_step(2))
qed

lemma missLocked_next [simp]: "next_entry (missLocked m) = next_entry m"
  by (simp add: missLocked_def Let_def)

text \<open>\<open>LoadAndDelete\<close> takes an entry out of the dirty map.\<close>

lemma drop_dirty_step:
  assumes inv: "xinv0 m" and d: "dirty m = Some d" and k: "map_of (read_m m) k = None"
  defines "m' \<equiv> m\<lparr>dirty := Some (AList.delete k d)\<rparr>"
  shows "xinv0 m'" and "sh_step m m'" and "dirty_lookup m k = Some e \<Longrightarrow> detached m' e"
proof -
  note eo = drop_dirty_entry(2) [OF inv d k, folded m'_def]
  have b: "base_ok m" using inv by (rule xinv0_base)
  show "xinv0 m'" unfolding m'_def by (rule drop_dirty_entry(1) [OF inv d k])
  have det: "detached m' e" if "entry_of m k = Some e" for e
    using entry_key [OF b that] entry_allocated [OF b that]
    by (auto simp: detached_def eo) (auto simp: m'_def)
  then show "dirty_lookup m k = Some e \<Longrightarrow> detached m' e"
    using dirty_entry [OF k] by simp
  have f: "read_m m' = read_m m" "next_entry m' = next_entry m" "heap m' = heap m"
    by (simp_all add: m'_def)
  show "sh_step m m'"
  proof (rule sh_stepI)
    show "entry_of m' k' = Some e \<or> detached m' e" if "entry_of m k' = Some e" for k' e
      using that det by (auto simp: eo)
    show "writes k' e m'" if "map_of (read_m m) k' = Some e" for k' e
      using that by (simp add: writes_def f)
    show "detached m' e \<and> heap m' e = heap m e" if "detached m e" for e
      using that by (auto simp: detached_def eo f)
  qed (simp add: f)
qed

text \<open>The parts of \<open>dirtyLocked\<close>.\<close>

lemma loop_start_step:
  assumes inv: "xinv0 m" and am: "\<not> amended m"
  shows "loop_ok (read_m m) (m\<lparr>dirty := Some []\<rparr>)" and "sh_step m (m\<lparr>dirty := Some []\<rparr>)"
    and "dirty m = None" and "entry_of (m\<lparr>dirty := Some []\<rparr>) = entry_of m"
proof -
  from inv am have none: "dirty m = None" and wf: "wf_map (read_m m)" and ents: "entries_ok m"
    and clean: "clean_ok m"
    by (auto simp: xinv0_def split: option.splits)
  show "dirty m = None" by fact
  let ?m = "m\<lparr>dirty := Some []\<rparr>"
  show eo: "entry_of ?m = entry_of m"
    by (auto simp: fun_eq_iff entry_of_def dirty_lookup_def none split: option.splits)
  have e: "entries_ok ?m" using ents by (simp add: entries_ok_def eo)
  have c: "heap m e \<noteq> PExpunged" if "(k, e) \<in> set (read_m m)" for k e
    using clean map_of_is_SomeI [of "read_m m" k e] wf that by (simp add: clean_ok_def wf_map_def)
  show "loop_ok (read_m m) ?m"
    using wf e am c by (auto simp: loop_ok_def)
  show "sh_step m ?m"
    by (rule sh_stepI) (auto simp: eo writes_def detached_def)
qed

lemma loop_entry_distinct:
  assumes "loop_ok ((k, e) # xs) m" "read_m m = ys @ (k, e) # xs"
  shows "e \<notin> snd ` set ys" and "e \<notin> snd ` set xs" and "k \<notin> fst ` set ys"
proof -
  from assms have wf: "wf_map (read_m m)" and ents: "entries_ok m" by (simp_all add: loop_ok_def)
  have in_read: "map_of (read_m m) k' = Some e'" if "(k', e') \<in> set (read_m m)" for k' e'
    using that wf by (simp add: wf_map_def)
  have k: "map_of (read_m m) k = Some e" using in_read [of k e] assms(2) by simp
  have same: "k' = k" if "(k', e) \<in> set (read_m m)" for k'
    using ents in_read [OF that] k by (auto simp: entries_ok_def loop_ok_entry [OF assms(1)])
  have dist: "k \<notin> fst ` set ys" "k \<notin> fst ` set xs" using wf by (auto simp: wf_map_def assms(2))
  show "e \<notin> snd ` set ys" "e \<notin> snd ` set xs"
    using same dist assms(2) by force+
  show "k \<notin> fst ` set ys" by fact
qed

lemma loop_copy_step:
  assumes ok: "loop_ok ((k, e) # xs) m"
  defines "m' \<equiv> m\<lparr>dirty := map_option (AList.update k e) (dirty m)\<rparr>"
  shows "loop_ok xs m'" and "sh_step m m'" and "entry_of m' = entry_of m"
proof -
  from ok obtain ys where r: "read_m m = ys @ (k, e) # xs"
    and d: "dirty m = Some (filter (\<lambda>(k, e). heap m e \<noteq> PExpunged) ys)"
    and alive: "\<forall>(k, e) \<in> set ((k, e) # xs). heap m e \<noteq> PExpunged"
    unfolding loop_ok_def by blast
  have new: "map_of (filter (\<lambda>(k, e). heap m e \<noteq> PExpunged) ys) k = None"
    using loop_entry_distinct(3) [OF ok r] by (force simp: map_of_eq_None_iff)
  have d': "dirty m' = Some (filter (\<lambda>(k, e). heap m' e \<noteq> PExpunged) (ys @ [(k, e)]))"
    using alive by (simp add: m'_def d update_new [OF new])
  have dl: "dirty_lookup m' k' = (if k' = k then Some e else dirty_lookup m k')" for k'
    by (simp add: dirty_lookup_def m'_def d update_conv')
  have "map_of (read_m m) k = Some e"
    using ok by (intro map_of_is_SomeI) (auto simp: loop_ok_def wf_map_def r)
  moreover have f: "read_m m' = read_m m" "next_entry m' = next_entry m" "heap m' = heap m"
    "amended m' = amended m"
    by (simp_all add: m'_def)
  ultimately show eo: "entry_of m' = entry_of m"
    by (auto simp: fun_eq_iff entry_of_def dl split: option.split)
  have "entries_ok m'" using ok by (simp add: loop_ok_def entries_ok_def eo f)
  moreover have "read_m m' = (ys @ [(k, e)]) @ xs" by (simp add: f r)
  ultimately show "loop_ok xs m'"
    using ok d' unfolding loop_ok_def f by (auto simp: f)
  show "sh_step m m'"
    by (rule sh_stepI) (auto simp: eo writes_def detached_def f)
qed

lemma loop_expunge_step:
  assumes ok: "loop_ok ((k, e) # xs) m" and "heap m e = PNil"
  shows "loop_ok xs (write_slot e PExpunged m)" and "sh_step m (write_slot e PExpunged m)"
    and "entry_of m k = Some e"
proof -
  let ?m = "write_slot e PExpunged m"
  from ok obtain ys where r: "read_m m = ys @ (k, e) # xs"
    and d: "dirty m = Some (filter (\<lambda>(k, e). heap m e \<noteq> PExpunged) ys)"
    and alive: "\<forall>(k, e) \<in> set ((k, e) # xs). heap m e \<noteq> PExpunged"
    unfolding loop_ok_def by blast
  note dist = loop_entry_distinct [OF ok r]
  have "filter (\<lambda>(k, e). heap m e \<noteq> PExpunged) ys
      = filter (\<lambda>(k, e). heap ?m e \<noteq> PExpunged) (ys @ [(k, e)])"
    using dist(1) by (force intro!: filter_cong)
  then have d': "dirty ?m = Some (filter (\<lambda>(k, e). heap ?m e \<noteq> PExpunged) (ys @ [(k, e)]))"
    by (simp add: d)
  have a': "\<forall>(k, e) \<in> set xs. heap ?m e \<noteq> PExpunged"
  proof (clarify, goal_cases)
    case (1 k' e')
    have "e' \<noteq> e" using dist(2) 1(1) by force
    with alive 1 show ?case by auto
  qed
  have "read_m ?m = (ys @ [(k, e)]) @ xs" by (simp add: r)
  moreover have "entries_ok ?m" using ok by (simp add: loop_ok_def entries_ok_def)
  ultimately show "loop_ok xs ?m"
    using ok d' a' unfolding loop_ok_def by auto
  have "map_of (read_m m) k = Some e"
    using ok by (intro map_of_is_SomeI) (auto simp: loop_ok_def wf_map_def r)
  then show "entry_of m k = Some e" by (rule read_entry)
  then have "\<not> detached m e" by (auto simp: detached_def)
  then show "sh_step m ?m"
    by (intro sh_stepI) (auto simp: writes_def detached_def)
qed

lemma loop_end_step:
  assumes ok: "loop_ok [] m"
  shows "xinv0 (m\<lparr>amended := True\<rparr>)" and "sh_step m (m\<lparr>amended := True\<rparr>)"
    and "map_of (read_m m) k = None \<Longrightarrow> dirty_lookup m k = None"
    and "entry_of (m\<lparr>amended := True\<rparr>) = entry_of m"
proof -
  from ok have wf: "wf_map (read_m m)" and ents: "entries_ok m"
    and d: "dirty m = Some (filter (\<lambda>(k, e). heap m e \<noteq> PExpunged) (read_m m))"
    by (auto simp: loop_ok_def)
  let ?m = "m\<lparr>amended := True\<rparr>"
  show eo: "entry_of ?m = entry_of m"
    by (simp add: fun_eq_iff entry_of_def dirty_lookup_def cong: option.case_cong)
  have dl: "map_of (filter (\<lambda>(k, e). heap m e \<noteq> PExpunged) (read_m m)) k =
      (case map_of (read_m m) k of None \<Rightarrow> None | Some e \<Rightarrow> if heap m e = PExpunged then None else Some e)" for k
    using wf by (simp add: map_of_filter_wf split: option.split)
  have "dirty_ok ?m (filter (\<lambda>(k, e). heap m e \<noteq> PExpunged) (read_m m))"
    unfolding dirty_ok_def using wf by (auto simp: dl split: option.splits if_splits)
  moreover have "entries_ok ?m" using ents by (simp add: entries_ok_def eo)
  ultimately show "xinv0 ?m" using wf by (simp add: xinv0_def d)
  show "sh_step m ?m" by (rule sh_stepI) (auto simp: eo writes_def detached_def)
  show "dirty_lookup m k = None" if "map_of (read_m m) k = None"
    using that by (simp add: dirty_lookup_def d dl)
qed

text \<open>The insertion of a new entry, and the revival of an expunged one.\<close>

lemma insert_step:
  assumes inv: "xinv0 m" and am: "amended m"
    and fresh: "map_of (read_m m) k = None" "dirty_lookup m k = None"
  obtains m' where "insert_entry t k v r m = Some (XReturn r, m', None)" and "xinv0 m'"
    and "sh_step m m'" and "xabs m' = (xabs m)(k \<mapsto> (t, v))"
    and "\<And>k e. entry_of m k = Some e \<Longrightarrow> entry_of m' k = Some e"
    and "\<And>e. detached m e \<Longrightarrow> heap m' e = heap m e"
proof -
  from inv am obtain d where d: "dirty m = Some d" by (auto simp: xinv0_def)
  with fresh have f: "map_of d k = None" by (simp add: dirty_lookup_def)
  let ?m = "m\<lparr>next_entry := Suc (next_entry m), heap := (heap m)(next_entry m := PVal (t, v)),
              dirty := Some (AList.update k (next_entry m) d)\<rparr>"
  note i = insert_new_entry [OF inv d fresh(1) f, of "(t, v)"]
  have "insert_entry t k v r m = Some (XReturn r, ?m, None)"
    using i(1) by (simp add: insert_entry_def newEntry_def split_beta)
  moreover have "sh_step m ?m"
  proof (rule sh_stepI)
    have b: "base_ok m" using inv by (rule xinv0_base)
    show "entry_of ?m k' = Some e \<or> detached ?m e" if "entry_of m k' = Some e" for k' e
      using that i(3) dirty_entry [OF fresh(1)] fresh by (auto simp: entry_of_def)
    show "writes k' e ?m" if "map_of (read_m m) k' = Some e" for k' e
      using that by (simp add: writes_def)
    show "detached ?m e \<and> heap ?m e = heap m e" if "detached m e" for e
      using that i(3) by (auto simp: detached_def)
  qed simp
  moreover have "entry_of ?m k' = Some e" if "entry_of m k' = Some e" for k' e
    using that i(3) dirty_entry [OF fresh(1)] fresh by (auto simp: entry_of_def)
  moreover have "heap ?m e = heap m e" if "detached m e" for e
    using that by (simp add: detached_def)
  ultimately show ?thesis using that i(2,4) by blast
qed

lemma unexpunge_step_effect:
  assumes inv: "xinv0 m" and e: "map_of (read_m m) (key_of op) = Some e"
  obtains m' where
    "unexpunge_step op e m = Some (case op of XSwap k v \<Rightarrow> XSwapEntry e | _ \<Rightarrow> XLosLoad Locked e, m')"
    and "xinv0 m'" and "sh_step m m'" and "xabs m' = xabs m" and "heap m' e \<noteq> PExpunged"
    and "read_m m' = read_m m" and "entry_of m' = entry_of m"
    and "\<And>e. detached m e \<Longrightarrow> heap m' e = heap m e"
proof (cases "heap m e = PExpunged")
  case False
  then show ?thesis
    using that [of m] inv by (simp add: unexpunge_step_def cas_slot_def)
next
  case True
  obtain d m' where m': "m' = m\<lparr>heap := (heap m)(e := PNil), dirty := Some (AList.update (key_of op) e d)\<rparr>"
    "dirty_put (key_of op) e (write_slot e PNil m) = Some m'" "xinv0 m'" "entry_of m' = entry_of m"
    "xabs m' = xabs m"
    using unexpunge_entry [OF inv e True] by blast
  have "\<not> detached m e" using read_entry [OF e] by (auto simp: detached_def)
  then have "sh_step m m'"
    by (intro sh_stepI) (auto simp: m'(4) writes_def detached_def, auto simp: m'(1))
  moreover have "read_m m' = read_m m" "heap m' e \<noteq> PExpunged" by (simp_all add: m'(1))
  moreover have "heap m' e' = heap m e'" if "detached m e'" for e'
    using that \<open>\<not> detached m e\<close> by (auto simp: m'(1))
  ultimately show ?thesis
    using that [of m'] m'(2-5) True by (simp add: unexpunge_step_def cas_slot_def)
qed

section \<open>One step keeps the invariant of its goroutine and never panics\<close>

definition good_next ::
  "nat \<Rightarrow> ('k, 'v) xcall \<Rightarrow> ('k, 'v) xpc \<Rightarrow> ('k, 'v) shared \<Rightarrow> nat option \<Rightarrow>
   ('k, 'v) xnext option \<Rightarrow> bool" where
  "good_next t c pc m mu n = (case n of None \<Rightarrow> False
     | Some (pc', m', mu') \<Rightarrow> pc_typed c pc' \<and> call_facts c pc' m' \<and>
         (if held pc \<or> pc = XLock
          then sh_step m m' \<and> mu' = (if held pc' then Some t else None) \<and> phase_ok pc' m'
          else soft m m' \<and> mu' = mu \<and> \<not> held pc'))"

fun loopy :: "('k, 'v) xpc \<Rightarrow> bool" where
  "loopy (XExpunge xs) = True"
| "loopy (XExpungeCas xs) = True"
| "loopy _ = False"

lemma phase_plain [simp]: "\<not> loopy pc \<Longrightarrow> phase_ok pc m = xinv0 m"
  by (cases pc) auto

text \<open>A step that writes at most one pointer and stays inside or outside the critical section.\<close>

lemma good_soft:
  assumes "soft m m'" "pc \<noteq> XLock" "held pc' = held pc" "\<not> loopy pc'"
    and "held pc \<Longrightarrow> mu = Some t \<and> xinv0 m"
    and "pc_typed c pc'" "call_facts c pc' m"
  shows "good_next t c pc m mu (Some (pc', m', mu))"
  using assms soft_call_facts [OF assms(1)] soft_sh_step [OF assms(1)] soft_xinv0 [OF assms(1)]
  by (simp add: good_next_def)

lemma entry_done_simps [simp]:
  "held (entry_done h r) = (h \<noteq> NoLock)" "loopy (entry_done h r) = False"
  by (cases h, simp_all)+

lemma entry_done_typed:
  "ret_typed c r \<Longrightarrow> is_swap c \<or> is_los c \<or> is_cas c \<Longrightarrow> pc_typed c (entry_done h r)"
  by (cases h) auto

lemma entry_done_facts: "holds_entry h k e m \<Longrightarrow> op_facts k (entry_done h r) m"
  by (cases h) (auto simp: in_dirty_def dirty_lookup_def split: option.splits)

lemma typed_op:
  "is_load c \<Longrightarrow> \<exists>k. c = Op (XLoad k)" "is_swap c \<Longrightarrow> \<exists>k v. c = Op (XSwap k v)"
  "is_los c \<Longrightarrow> \<exists>k v. c = Op (XLoadOrStore k v)" "is_lad c \<Longrightarrow> \<exists>k. c = Op (XLoadAndDelete k)"
  "is_cas c \<Longrightarrow> \<exists>k old new. c = Op (XCompareAndSwap k old new)"
  "is_cad c \<Longrightarrow> \<exists>k old. c = Op (XCompareAndDelete k old)"
  by (cases c rule: is_load.cases; simp)+

lemma deleted_ret_typed: "is_lad (Op op) \<or> is_cad (Op op) \<Longrightarrow> ret_typed (Op op) (deleted_ret op v)"
  by (cases op) auto

lemma good_first: "good_next t (Op op) XStart m mu (op_step t op XStart m mu)"
proof -
  have "pc_typed (Op op) (op_first op m) \<and> op_facts (key_of op) (op_first op m) m
      \<and> \<not> held (op_first op m) \<and> \<not> loopy (op_first op m)"
    by (cases op) (auto simp: Load_first_def Swap_first_def LoadOrStore_first_def
        LoadAndDelete_first_def CompareAndSwap_first_def CompareAndDelete_first_def
        reads_def writes_def read_entry split: option.splits)
  then show ?thesis by (auto simp: keeping_def intro!: good_soft)
qed

lemma good_entry_load:
  "is_load (Op op) \<Longrightarrow> good_next t (Op op) (XEntryLoad e) m mu (op_step t op (XEntryLoad e) m mu)"
  by (cases op) (auto simp: keeping_def load_entry_def intro!: good_soft)

lemma good_delete_load:
  assumes "pc_typed (Op op) (XDelLoad own e)" "op_facts (key_of op) (XDelLoad own e) m"
  shows "good_next t (Op op) (XDelLoad own e) m mu (op_step t op (XDelLoad own e) m mu)"
  using assms deleted_ret_typed [of op]
  by (auto simp: keeping_def delete_load_def intro!: good_soft)

lemma good_delete_cas:
  assumes "pc_typed (Op op) (XDelCas own e p)" "op_facts (key_of op) (XDelCas own e p) m"
  shows "good_next t (Op op) (XDelCas own e p) m mu (op_step t op (XDelCas own e p) m mu)"
  using assms deleted_ret_typed [of op]
  by (auto simp: keeping_def delete_cas_def cas_slot_def intro!: good_soft soft_write)

lemma good_trySwap_load:
  assumes "pc_typed (Op op) (XTrySwap e)" "op_facts (key_of op) (XTrySwap e) m"
  shows "good_next t (Op op) (XTrySwap e) m mu (op_step t op (XTrySwap e) m mu)"
  using assms by (auto simp: keeping_def trySwap_load_def intro!: good_soft)

lemma good_trySwap_cas:
  assumes "pc_typed (Op op) (XTrySwapCas e p)" "op_facts (key_of op) (XTrySwapCas e p) m"
  shows "good_next t (Op op) (XTrySwapCas e p) m mu (op_step t op (XTrySwapCas e p) m mu)"
  using assms
  by (cases op) (auto simp: keeping_def trySwap_cas_def cas_slot_def intro!: good_soft soft_write)

lemma good_cas_load:
  assumes "pc_typed (Op op) (XCasLoad h e)" "op_facts (key_of op) (XCasLoad h e) m"
    and "h \<noteq> NoLock \<Longrightarrow> mu = Some t \<and> xinv0 m"
  shows "good_next t (Op op) (XCasLoad h e) m mu (op_step t op (XCasLoad h e) m mu)"
  using assms
  by (cases op) (auto simp: keeping_def tryCompareAndSwap_load_def
      intro!: good_soft entry_done_typed entry_done_facts)

lemma good_cas_cas:
  assumes "pc_typed (Op op) (XCasCas h e p)" "op_facts (key_of op) (XCasCas h e p) m"
    and "h \<noteq> NoLock \<Longrightarrow> mu = Some t \<and> xinv0 m"
  shows "good_next t (Op op) (XCasCas h e p) m mu (op_step t op (XCasCas h e p) m mu)"
  using assms
  by (cases op) (auto simp: keeping_def tryCompareAndSwap_cas_def cas_slot_def
      intro!: good_soft entry_done_typed entry_done_facts soft_write)

lemma in_dirty_alive: "xinv0 m \<Longrightarrow> in_dirty k e m \<Longrightarrow> heap m e \<noteq> PExpunged"
  by (auto simp: in_dirty_def dirty_not_expunged)

lemma los_not_expunged:
  assumes "op_facts k (XLosLoad h e) m" "h \<noteq> NoLock \<Longrightarrow> xinv0 m" "h \<noteq> NoLock"
  shows "heap m e \<noteq> PExpunged"
  using assms by (cases h) (auto dest: in_dirty_alive)

lemma good_los_load:
  assumes "pc_typed (Op op) (XLosLoad h e)" "op_facts (key_of op) (XLosLoad h e) m"
    and "h \<noteq> NoLock \<Longrightarrow> mu = Some t \<and> xinv0 m"
  shows "good_next t (Op op) (XLosLoad h e) m mu (op_step t op (XLosLoad h e) m mu)"
  using assms los_not_expunged [OF assms(2)]
  by (cases op) (auto simp: keeping_def tryLoadOrStore_load_def split: slot.splits
      intro!: good_soft entry_done_typed entry_done_facts)

lemma good_los_cas:
  assumes "pc_typed (Op op) (XLosCas h e)" "op_facts (key_of op) (XLosCas h e) m"
    and "h \<noteq> NoLock \<Longrightarrow> mu = Some t \<and> xinv0 m"
  shows "good_next t (Op op) (XLosCas h e) m mu (op_step t op (XLosCas h e) m mu)"
  using assms
  by (cases op) (auto simp: keeping_def tryLoadOrStore_cas_def cas_slot_def
      intro!: good_soft entry_done_typed entry_done_facts soft_write)

lemma good_unlock:
  assumes "pc_typed (Op op) (XUnlock miss r)" "op_facts k (XUnlock miss r) m" "xinv0 m"
  shows "good_next t (Op op) (XUnlock miss r) m mu (op_step t op (XUnlock miss r) m mu)"
  using assms missLocked_step [OF assms(3)]
  by (auto simp: good_next_def unlock_step_def)

lemma good_swap_entry:
  assumes "pc_typed (Op op) (XSwapEntry e)" "op_facts (key_of op) (XSwapEntry e) m"
    and "mu = Some t" "xinv0 m"
  shows "good_next t (Op op) (XSwapEntry e) m mu (op_step t op (XSwapEntry e) m mu)"
  using assms
  by (cases op) (auto simp: keeping_def swap_step_def intro!: good_soft soft_write)

lemma good_unexpunge:
  assumes "pc_typed (Op op) (XUnexpunge e)" "op_facts (key_of op) (XUnexpunge e) m"
    and "mu = Some t" "xinv0 m"
  shows "good_next t (Op op) (XUnexpunge e) m mu (op_step t op (XUnexpunge e) m mu)"
proof -
  from assms(2) have e: "map_of (read_m m) (key_of op) = Some e" by simp
  obtain m' where m': "unexpunge_step op e m =
      Some (case op of XSwap k v \<Rightarrow> XSwapEntry e | _ \<Rightarrow> XLosLoad Locked e, m')"
    "xinv0 m'" "sh_step m m'" "xabs m' = xabs m" "heap m' e \<noteq> PExpunged" "read_m m' = read_m m"
    by (rule unexpunge_step_effect [OF assms(4) e]) blast
  with e assms(1,3) show ?thesis
    by (cases op) (auto simp: good_next_def keeping_def read_entry)
qed

lemma good_expunge:
  assumes ty: "pc_typed (Op op) (XExpunge xs)" and fa: "op_facts (key_of op) (XExpunge xs) m"
    and mu: "mu = Some t" and ok: "loop_ok xs m"
  shows "good_next t (Op op) (XExpunge xs) m mu (op_step t op (XExpunge xs) m mu)"
proof (cases xs)
  case Nil
  obtain v where v: "new_value op = Some v" using ty by (cases op) auto
  note le = loop_end_step [OF ok [unfolded Nil]]
  let ?m = "m\<lparr>amended := True\<rparr>"
  have fresh: "map_of (read_m ?m) (key_of op) = None" "dirty_lookup ?m (key_of op) = None"
    using fa le(3) by (simp_all add: dirty_lookup_def)
  obtain m' where m': "insert_entry t (key_of op) v (added_ret op) ?m = Some (XReturn (added_ret op), m', None)"
    "xinv0 m'" "sh_step ?m m'"
    using le(1) fresh by (auto intro: insert_step [of ?m "key_of op" t v "added_ret op"])
  have "ret_typed (Op op) (added_ret op)" using ty by (cases op) auto
  with Nil v m' sh_step_trans [OF le(2) m'(3)] show ?thesis
    by (simp add: good_next_def amend_and_insert_def)
next
  case (Cons x rest)
  obtain k e where x: "x = (k, e)" by (cases x)
  have ok': "loop_ok ((k, e) # rest) m" using ok by (simp add: Cons x)
  then have alive: "heap m e \<noteq> PExpunged" by (auto simp: loop_ok_def)
  show ?thesis
  proof (cases "heap m e")
    case PNil
    then show ?thesis using ty fa mu ok by (simp add: Cons x good_next_def keeping_def expunge_load_def)
  next
    case PExpunged
    with alive show ?thesis by simp
  next
    case (PVal p)
    then show ?thesis
      using ty fa mu loop_copy_step [OF ok']
      by (simp add: Cons x good_next_def keeping_def expunge_load_def)
  qed
qed

lemma good_expunge_cas:
  assumes ty: "pc_typed (Op op) (XExpungeCas xs)" and fa: "op_facts (key_of op) (XExpungeCas xs) m"
    and mu: "mu = Some t" and ok: "loop_ok xs m"
  shows "good_next t (Op op) (XExpungeCas xs) m mu (op_step t op (XExpungeCas xs) m mu)"
proof -
  obtain k e rest where xs: "xs = (k, e) # rest" using ty by (cases xs) auto
  show ?thesis
    using ty fa mu ok loop_expunge_step [OF ok [unfolded xs]]
    by (auto simp: xs good_next_def keeping_def expunge_cas_def cas_slot_def)
qed

text \<open>The steps that take the mutex; the goroutine finds the invariant of a free mutex.\<close>

lemma xinv0_dirty: "xinv0 m \<Longrightarrow> amended m \<Longrightarrow> \<exists>d. dirty m = Some d"
  by (auto simp: xinv0_def)

lemma good_lock_load:
  assumes inv: "xinv0 m"
  shows "good_next t (Op (XLoad k)) XLock m None (op_step t (XLoad k) XLock m None)"
proof (cases "map_of (read_m m) k")
  case (Some e)
  with inv show ?thesis by (simp add: good_next_def Load_locked_def reads_def read_entry)
next
  case None
  have "reads k e (missLocked m)" if "dirty_lookup m k = Some e" "dirty m \<noteq> None" for e
    using sh_step_reads [OF missLocked_step(2) [OF inv that(2)]] dirty_entry [OF None that(1)]
    by (simp add: reads_def)
  with None inv missLocked_step [OF inv] xinv0_dirty [OF inv] show ?thesis
    by (auto simp: good_next_def Load_locked_def split: option.splits)
qed

lemma good_lock_cad:
  assumes inv: "xinv0 m"
  shows "good_next t (Op (XCompareAndDelete k old)) XLock m None
    (op_step t (XCompareAndDelete k old) XLock m None)"
proof (cases "map_of (read_m m) k")
  case (Some e)
  with inv show ?thesis by (simp add: good_next_def CompareAndDelete_locked_def reads_def read_entry)
next
  case None
  have "reads k e (missLocked m)" if "dirty_lookup m k = Some e" "dirty m \<noteq> None" for e
    using sh_step_reads [OF missLocked_step(2) [OF inv that(2)]] dirty_entry [OF None that(1)]
    by (simp add: reads_def)
  with None inv missLocked_step [OF inv] xinv0_dirty [OF inv] show ?thesis
    by (auto simp: good_next_def CompareAndDelete_locked_def split: option.splits)
qed

lemma good_lock_lad:
  assumes inv: "xinv0 m"
  shows "good_next t (Op (XLoadAndDelete k)) XLock m None (op_step t (XLoadAndDelete k) XLock m None)"
proof (cases "map_of (read_m m) k = None \<and> amended m")
  case False
  with inv show ?thesis
    by (auto simp: good_next_def LoadAndDelete_locked_def reads_def read_entry split: option.splits)
next
  case True
  obtain d where d: "dirty m = Some d" using xinv0_dirty [OF inv] True by blast
  define m1 where "m1 = m\<lparr>dirty := Some (AList.delete k d)\<rparr>"
  note dd = drop_dirty_step [OF inv d conjunct1 [OF True], folded m1_def]
  have m1: "dirty m1 \<noteq> None" by (simp add: m1_def)
  note miss = missLocked_step [OF dd(1) m1]
  have "detached (missLocked m1) e" if "dirty_lookup m k = Some e" for e
    using miss(2) dd(3) that by (simp add: sh_step_def)
  moreover have "sh_step m (missLocked m1)" by (rule sh_step_trans [OF dd(2) miss(2)])
  moreover have "m\<lparr>dirty := map_option (AList.delete k) (dirty m)\<rparr> = m1" by (simp add: m1_def d)
  ultimately show ?thesis
    using True miss(1)
    by (cases "dirty_lookup m k") (simp_all add: good_next_def LoadAndDelete_locked_def Let_def)
qed

lemma good_lock_cas:
  assumes inv: "xinv0 m"
  shows "good_next t (Op (XCompareAndSwap k old new)) XLock m None
    (op_step t (XCompareAndSwap k old new) XLock m None)"
  using inv
  by (auto simp: good_next_def CompareAndSwap_locked_def in_dirty_def split: option.splits)

lemma add_locked_good:
  assumes inv: "xinv0 m" and fresh: "map_of (read_m m) (key_of op) = None"
      "dirty_lookup m (key_of op) = None"
    and op: "is_swap (Op op) \<or> is_los (Op op)" and r: "ret_typed (Op op) r"
  shows "good_next t (Op op) XLock m None (add_locked t (key_of op) v r m)"
proof (cases "amended m")
  case True
  obtain m' where "insert_entry t (key_of op) v r m = Some (XReturn r, m', None)"
    "xinv0 m'" "sh_step m m'"
    using inv True fresh by (auto intro: insert_step [of m "key_of op" t v r])
  with True r show ?thesis by (simp add: good_next_def add_locked_def)
next
  case False
  with loop_start_step [OF inv False] fresh op show ?thesis
    by (simp add: good_next_def add_locked_def)
qed

lemma good_lock_swap:
  assumes inv: "xinv0 m"
  shows "good_next t (Op (XSwap k v)) XLock m None (op_step t (XSwap k v) XLock m None)"
proof (cases "map_of (read_m m) k = None \<and> dirty_lookup m k = None")
  case True
  with add_locked_good [OF inv, of "XSwap k v" "GotValue None" t v] show ?thesis
    by (simp add: Swap_locked_def)
next
  case False
  with inv show ?thesis
    by (auto simp: good_next_def Swap_locked_def dirty_entry dirty_not_expunged split: option.splits)
qed

lemma good_lock_los:
  assumes inv: "xinv0 m"
  shows "good_next t (Op (XLoadOrStore k v)) XLock m None (op_step t (XLoadOrStore k v) XLock m None)"
proof (cases "map_of (read_m m) k = None \<and> dirty_lookup m k = None")
  case True
  with add_locked_good [OF inv, of "XLoadOrStore k v" "GotLoaded (Some v) False" t v] show ?thesis
    by (simp add: LoadOrStore_locked_def)
next
  case False
  with inv show ?thesis
    by (auto simp: good_next_def LoadOrStore_locked_def in_dirty_def split: option.splits)
qed

lemmas good_lock = good_lock_load good_lock_swap good_lock_los good_lock_lad good_lock_cas good_lock_cad

lemma good_op_step:
  assumes ty: "pc_typed (Op op) pc" and fa: "op_facts (key_of op) pc m"
    and cs: "can_step pc mu" and inv: "held pc \<Longrightarrow> mu = Some t" "held pc \<or> pc = XLock \<Longrightarrow> phase_ok pc m"
  shows "good_next t (Op op) pc m mu (op_step t op pc m mu)"
proof (cases pc)
  case XLock
  then show ?thesis using cs inv(2) good_lock by (cases op) auto
next
  case (XCasLoad h e)
  then show ?thesis using assms by (auto intro!: good_cas_load simp del: op_step.simps)
next
  case (XCasCas h e p)
  then show ?thesis using assms by (auto intro!: good_cas_cas simp del: op_step.simps)
next
  case (XLosLoad h e)
  then show ?thesis using assms by (auto intro!: good_los_load simp del: op_step.simps)
next
  case (XLosCas h e)
  then show ?thesis using assms by (auto intro!: good_los_cas simp del: op_step.simps)
next
  case (XRangeLoop xs acc)
  with ty show ?thesis by simp
qed (use assms in \<open>auto intro: good_first good_entry_load good_delete_load good_delete_cas
    good_trySwap_load good_trySwap_cas good_unlock good_swap_entry good_unexpunge good_expunge
    good_expunge_cas simp del: op_step.simps\<close>)

text \<open>\<open>Range\<close>: the entries of its snapshot were those of their keys.\<close>

definition ord_ok :: "(('k \<times> nat) list \<Rightarrow> ('k \<times> nat) list) \<Rightarrow> bool" where
  "ord_ok ord \<longleftrightarrow> (\<forall>xs. mset (ord xs) = mset xs)"

lemma ord_ok_set: "ord_ok ord \<Longrightarrow> set (ord xs) = set xs"
  by (metis ord_ok_def set_mset_mset)

fun call_ok :: "('k, 'v) xcall \<Rightarrow> bool" where
  "call_ok (Op op) = True"
| "call_ok (XRange ord f) = ord_ok ord"

lemma range_snapshot:
  assumes "wf_map (read_m m)" "ord_ok ord"
  shows "range_facts (XRangeLoop (ord (read_m m)) []) m" and "distinct (map fst (ord (read_m m)))"
proof -
  show "range_facts (XRangeLoop (ord (read_m m)) []) m"
    using assms by (auto simp: ord_ok_set reads_def wf_map_def intro!: read_entry)
  have "mset (map fst (ord (read_m m))) = mset (map fst (read_m m))"
    using assms(2) by (simp add: ord_ok_def)
  then show "distinct (map fst (ord (read_m m)))"
    using assms(1) by (metis wf_map_def mset_eq_imp_distinct_iff)
qed

lemma good_range_step:
  assumes ord: "ord_ok ord" and ty: "pc_typed (XRange ord f) pc" and fa: "range_facts pc m"
    and cs: "can_step pc mu" and base: "base_ok m"
    and inv: "held pc \<Longrightarrow> mu = Some t" "held pc \<or> pc = XLock \<Longrightarrow> phase_ok pc m"
  shows "good_next t (XRange ord f) pc m mu (range_step ord f pc m mu)"
proof (cases pc)
  case XStart
  have "wf_map (read_m m)" using base by (simp add: base_ok_def)
  with range_snapshot [OF this ord] show ?thesis
    by (auto simp: XStart keeping_def Range_first_def intro!: good_soft)
next
  case XLock
  let ?m = "if amended m then promote m else m"
  have i: "xinv0 m" using inv(2) XLock by simp
  then have "xinv0 ?m" "sh_step m ?m" using promote_step [OF i] xinv0_dirty [OF i] by auto
  moreover have "wf_map (read_m ?m)" using \<open>xinv0 ?m\<close> by (simp add: xinv0_def)
  note range_snapshot [OF this ord]
  ultimately show ?thesis by (simp add: XLock good_next_def Range_locked_def Let_def)
next
  case (XRangeLoop xs acc)
  with fa ty show ?thesis
    by (auto simp: keeping_def Range_visit_def split: list.split option.split prod.split
        intro!: good_soft)
qed (use ty cs in auto)

section \<open>The invariant of the system\<close>

fun owns :: "('k, 'v) xcall \<times> ('k, 'v) xpc \<Rightarrow> nat \<Rightarrow> bool" where
  "owns (c, XDelLoad own e) e' = (own \<and> e' = e)"
| "owns (c, XDelCas own e p) e' = (own \<and> e' = e)"
| "owns _ e' = False"

definition xm_inv :: "('k, 'v) xsystem \<Rightarrow> bool" where
  "xm_inv \<sigma> \<longleftrightarrow>
     (\<forall>t c pc. calls \<sigma> t = Some (c, pc) \<longrightarrow>
        call_ok c \<and> pc_typed c pc \<and> call_facts c pc (xm \<sigma>) \<and>
        (held pc \<longrightarrow> holder \<sigma> = Some t \<and> phase_ok pc (xm \<sigma>))) \<and>
     (case holder \<sigma> of
        None \<Rightarrow> xinv0 (xm \<sigma>)
      | Some t \<Rightarrow> (\<exists>c pc. calls \<sigma> t = Some (c, pc) \<and> held pc)) \<and>
     (\<forall>t t' p p' e. calls \<sigma> t = Some p \<and> owns p e \<and> calls \<sigma> t' = Some p' \<and> owns p' e \<longrightarrow> t = t')"

lemma xm_inv_call:
  "xm_inv \<sigma> \<Longrightarrow> calls \<sigma> t = Some (c, pc) \<Longrightarrow>
     call_ok c \<and> pc_typed c pc \<and> call_facts c pc (xm \<sigma>) \<and>
     (held pc \<longrightarrow> holder \<sigma> = Some t \<and> phase_ok pc (xm \<sigma>))"
  by (simp add: xm_inv_def)

lemma xm_inv_base: "xm_inv \<sigma> \<Longrightarrow> base_ok (xm \<sigma>)"
  unfolding xm_inv_def by (cases "holder \<sigma>") (auto intro: xinv0_base phase_ok_base)

lemma xm_inv_init: "xm_inv xsystem_init"
  by (simp add: xm_inv_def xsystem_init_def xinvD)

lemma owns_not_held: "owns (c, pc) e \<Longrightarrow> \<not> held pc"
  by (cases pc) auto

lemma owns_detached: "call_facts c pc m \<Longrightarrow> pc_typed c pc \<Longrightarrow> owns (c, pc) e \<Longrightarrow> detached m e"
  by (cases c; cases pc) auto

lemma owns_entry_done [simp]: "\<not> owns (c, entry_done h r) e"
  by (cases h) auto

text \<open>A goroutine comes to own an entry only by taking it out of the dirty map.\<close>

lemma owns_new:
  assumes "call_step t c pc m mu = Some (pc', m', mu')" "owns (c, pc') e" "pc \<noteq> XLock"
  shows "owns (c, pc) e"
proof (cases c)
  case (Op op)
  with assms show ?thesis
    by (cases pc; cases op)
      (auto simp: keeping_def Load_first_def Swap_first_def LoadOrStore_first_def
        LoadAndDelete_first_def CompareAndSwap_first_def CompareAndDelete_first_def
        load_entry_def delete_load_def delete_cas_def cas_slot_def trySwap_load_def trySwap_cas_def
        tryCompareAndSwap_load_def tryCompareAndSwap_cas_def tryLoadOrStore_load_def
        tryLoadOrStore_cas_def unexpunge_step_def swap_step_def expunge_load_def expunge_cas_def
        amend_and_insert_def insert_entry_def unlock_step_def
        split: option.splits if_splits slot.splits list.splits prod.splits Option.bind_splits)
qed (use assms in \<open>cases pc; auto simp: keeping_def Range_first_def Range_visit_def
    split: option.splits if_splits list.splits\<close>)

lemma owns_lock:
  assumes "call_step t c XLock m mu = Some (pc', m', mu')" "owns (c, pc') e"
  shows "\<exists>k. entry_of m k = Some e"
proof (cases c)
  case (Op op)
  show ?thesis
  proof (cases op)
    case (XLoadAndDelete k)
    with assms Op have "map_of (read_m m) k = None" "dirty_lookup m k = Some e"
      by (auto simp: LoadAndDelete_locked_def Let_def split: option.splits if_splits)
    then show ?thesis by (auto dest: dirty_entry)
  qed (use assms Op in \<open>auto simp: Load_locked_def Swap_locked_def LoadOrStore_locked_def
      CompareAndSwap_locked_def CompareAndDelete_locked_def add_locked_def insert_entry_def
      split: option.splits if_splits prod.splits Option.bind_splits\<close>)
qed (use assms in \<open>auto simp: Range_locked_def Let_def\<close>)

lemma call_good:
  assumes "call_ok c" "pc_typed c pc" "call_facts c pc m" "can_step pc mu" "base_ok m"
    and "held pc \<Longrightarrow> mu = Some t" "held pc \<or> pc = XLock \<Longrightarrow> phase_ok pc m"
  shows "good_next t c pc m mu (call_step t c pc m mu)"
  using assms by (cases c) (auto intro: good_op_step good_range_step simp del: op_step.simps)

lemma xm_inv_good:
  assumes inv: "xm_inv \<sigma>" and c: "calls \<sigma> t = Some (c, pc)" and cs: "can_step pc (holder \<sigma>)"
  shows "good_next t c pc (xm \<sigma>) (holder \<sigma>) (call_step t c pc (xm \<sigma>) (holder \<sigma>))"
proof (rule call_good)
  note f = xm_inv_call [OF inv c]
  show "call_ok c" "pc_typed c pc" "call_facts c pc (xm \<sigma>)" using f by auto
  show "can_step pc (holder \<sigma>)" by fact
  show "base_ok (xm \<sigma>)" by (rule xm_inv_base [OF inv])
  show "holder \<sigma> = Some t" if "held pc" using f that by simp
  show "phase_ok pc (xm \<sigma>)" if "held pc \<or> pc = XLock"
    using f that cs inv by (auto simp: xm_inv_def)
qed

lemma set_pc_simps [simp]:
  "calls (set_pc t c pc \<sigma>) = (calls \<sigma>)(t \<mapsto> (c, pc))" "xm (set_pc t c pc \<sigma>) = xm \<sigma>"
  "holder (set_pc t c pc \<sigma>) = holder \<sigma>"
  by (simp_all add: set_pc_def)

lemma access_inv:
  assumes inv: "xm_inv \<sigma>" and c: "calls \<sigma> t = Some (c, pc)" and cs: "can_step pc (holder \<sigma>)"
    and step: "call_step t c pc (xm \<sigma>) (holder \<sigma>) = Some (pc', m', mu')"
  shows "xm_inv ((set_pc t c pc' \<sigma>)\<lparr>xm := m', holder := mu'\<rparr>)"
proof -
  from xm_inv_good [OF inv c cs] step have g: "pc_typed c pc'" "call_facts c pc' m'"
    and locked: "held pc \<or> pc = XLock \<Longrightarrow>
      sh_step (xm \<sigma>) m' \<and> mu' = (if held pc' then Some t else None) \<and> phase_ok pc' m'"
    and free: "\<not> (held pc \<or> pc = XLock) \<Longrightarrow> soft (xm \<sigma>) m' \<and> mu' = holder \<sigma> \<and> \<not> held pc'"
    by (auto simp: good_next_def)
  note old = xm_inv_call [OF inv]
  have mine: "call_ok c" using old [OF c] by simp
  have alone: "\<not> held pc1" if "calls \<sigma> t1 = Some (c1, pc1)" "t1 \<noteq> t" "held pc \<or> pc = XLock" for t1 c1 pc1
    using old [OF that(1)] old [OF c] that(2,3) cs by auto
  have others: "call_ok c1 \<and> pc_typed c1 pc1 \<and> call_facts c1 pc1 m' \<and>
      (held pc1 \<longrightarrow> mu' = Some t1 \<and> phase_ok pc1 m')"
    if "calls \<sigma> t1 = Some (c1, pc1)" "t1 \<noteq> t" for t1 c1 pc1
    using old [OF that(1)] alone [OF that] locked free sh_step_call_facts [of "xm \<sigma>" m' pc1 c1]
      soft_call_facts [of "xm \<sigma>" m' c1 pc1] soft_phase [of "xm \<sigma>" m' pc1]
    by (cases "held pc \<or> pc = XLock") auto
  have me: "held pc' \<Longrightarrow> mu' = Some t \<and> phase_ok pc' m'" using locked free by auto
  have mutex: "case mu' of None \<Rightarrow> xinv0 m'
      | Some t2 \<Rightarrow> \<exists>c pc2. ((calls \<sigma>)(t \<mapsto> (c, pc'))) t2 = Some (c, pc2) \<and> held pc2"
  proof (cases "held pc \<or> pc = XLock")
    case True
    with locked have l: "mu' = (if held pc' then Some t else None)" "phase_ok pc' m'" by auto
    show ?thesis
    proof (cases "held pc'")
      case False
      then have "\<not> loopy pc'" by (cases pc') auto
      with l False show ?thesis by simp
    qed (use l in auto)
  next
    case False
    note f = free [OF False]
    show ?thesis
    proof (cases "holder \<sigma>")
      case None
      with inv f show ?thesis by (auto simp: xm_inv_def soft_xinv0)
    next
      case (Some t2)
      with inv obtain c2 pc2 where "calls \<sigma> t2 = Some (c2, pc2)" "held pc2" by (auto simp: xm_inv_def)
      with Some f False c show ?thesis by auto
    qed
  qed
  have uniq: "t1 = t" if "calls \<sigma> t1 = Some p1" "owns p1 e" "owns (c, pc') e" for t1 p1 e
  proof (cases "pc = XLock")
    case True
    obtain c1 pc1 where p1: "p1 = (c1, pc1)" by (cases p1)
    have "detached (xm \<sigma>) e" using owns_detached old [OF that(1) [unfolded p1]] that(2) p1 by blast
    with owns_lock [OF step [unfolded True] that(3)] show ?thesis by (auto simp: detached_def)
  next
    case False
    from owns_new [OF step that(3) False] inv c that(1,2) show ?thesis unfolding xm_inv_def by blast
  qed
  let ?s = "(set_pc t c pc' \<sigma>)\<lparr>xm := m', holder := mu'\<rparr>"
  have each: "call_ok c1 \<and> pc_typed c1 pc1 \<and> call_facts c1 pc1 (xm ?s) \<and>
      (held pc1 \<longrightarrow> holder ?s = Some t1 \<and> phase_ok pc1 (xm ?s))"
    if "calls ?s t1 = Some (c1, pc1)" for t1 c1 pc1
    using that others [of t1 c1 pc1] mine g me by (cases "t1 = t") simp_all
  have own: "t1 = t2" if "calls ?s t1 = Some p1 \<and> owns p1 e \<and> calls ?s t2 = Some p2 \<and> owns p2 e"
    for t1 t2 p1 p2 e
  proof (cases "t1 = t \<or> t2 = t")
    case True
    with that uniq [of t1 p1 e] uniq [of t2 p2 e] show ?thesis by (auto split: if_splits)
  next
    case False
    then have "calls \<sigma> t1 = Some p1 \<and> owns p1 e \<and> calls \<sigma> t2 = Some p2 \<and> owns p2 e"
      using that by simp
    then show ?thesis using inv unfolding xm_inv_def by blast
  qed
  have m: "case holder ?s of None \<Rightarrow> xinv0 (xm ?s)
      | Some t \<Rightarrow> \<exists>c pc. calls ?s t = Some (c, pc) \<and> held pc"
    using mutex by (cases mu') auto
  show ?thesis
    unfolding xm_inv_def
    by (rule conjI [OF _ conjI [OF m]]; intro allI impI; elim each own)
qed

section \<open>Runs\<close>

lemma set_pc_quiet_inv:
  assumes inv: "xm_inv \<sigma>" and ok: "call_ok c" "pc_typed c pc'" "call_facts c pc' (xm \<sigma>)"
    and free: "\<not> held pc'" "\<And>e. \<not> owns (c, pc') e"
    and old: "\<And>pc. calls \<sigma> t = Some (c', pc) \<Longrightarrow> \<not> held pc" and c': "\<forall>p. calls \<sigma> t = Some p \<longrightarrow> fst p = c'"
  shows "xm_inv (set_pc t c pc' \<sigma>)"
proof -
  let ?s = "set_pc t c pc' \<sigma>"
  have each: "call_ok c1 \<and> pc_typed c1 pc1 \<and> call_facts c1 pc1 (xm ?s) \<and>
      (held pc1 \<longrightarrow> holder ?s = Some t1 \<and> phase_ok pc1 (xm ?s))"
    if "calls ?s t1 = Some (c1, pc1)" for t1 c1 pc1
    using that xm_inv_call [OF inv, of t1 c1 pc1] ok free(1) by (cases "t1 = t") simp_all
  have own: "t1 = t2" if "calls ?s t1 = Some p1 \<and> owns p1 e \<and> calls ?s t2 = Some p2 \<and> owns p2 e"
    for t1 t2 p1 p2 e
  proof (cases "t1 = t \<or> t2 = t")
    case True
    with that free(2) show ?thesis by (auto split: if_splits)
  next
    case False
    then have "calls \<sigma> t1 = Some p1 \<and> owns p1 e \<and> calls \<sigma> t2 = Some p2 \<and> owns p2 e"
      using that by simp
    then show ?thesis using inv unfolding xm_inv_def by blast
  qed
  have m: "case holder ?s of None \<Rightarrow> xinv0 (xm ?s)
      | Some t \<Rightarrow> \<exists>c pc. calls ?s t = Some (c, pc) \<and> held pc"
  proof (cases "holder \<sigma>")
    case None
    with inv show ?thesis by (simp add: xm_inv_def)
  next
    case (Some t2)
    with inv obtain c2 pc2 where h: "calls \<sigma> t2 = Some (c2, pc2)" "held pc2"
      by (auto simp: xm_inv_def)
    have "t2 \<noteq> t" using h old c' by auto
    with Some h show ?thesis by auto
  qed
  show ?thesis
    unfolding xm_inv_def
    by (rule conjI [OF _ conjI [OF m]]; intro allI impI; elim each own)
qed

lemma xm_step_inv:
  assumes step: "xm_step A \<sigma> l \<sigma>'" and inv: "xm_inv \<sigma>" and A: "\<And>c. A c \<Longrightarrow> call_ok c"
  shows "xm_inv \<sigma>'"
  using step
proof cases
  case (invoke t c)
  have "call_facts c XStart (xm \<sigma>)" by (cases c) auto
  with invoke A inv show ?thesis by (auto intro!: set_pc_quiet_inv)
next
  case (access t c pc pc' m' mu')
  with access_inv [OF inv] show ?thesis by simp
next
  case (respond t c r)
  from xm_inv_call [OF inv respond(3)] have f: "call_ok c" "ret_typed c r" by simp_all
  have "call_facts c (XDone r) (xm \<sigma>)" by (cases c) auto
  with respond f inv show ?thesis by (auto intro!: set_pc_quiet_inv [where c' = c])
qed

lemma xm_run_inv:
  assumes "xm_run call_ok h \<sigma>"
  shows "xm_inv \<sigma>"
  using assms by (induction rule: xm_run.induct) (auto intro: xm_inv_init xm_step_inv)

text \<open>The replayed runs are runs.\<close>

lemma xm_exec_step:
  assumes "xm_exec a \<sigma> = Some (l, \<sigma>')" "\<And>t c. a = XCall t c \<Longrightarrow> A c"
  shows "xm_step A \<sigma> l \<sigma>'"
proof (cases a)
  case (XCall t c)
  with assms show ?thesis by (auto intro: xm_step.invoke split: if_splits)
next
  case (XGo t)
  with assms obtain c pc where c: "calls \<sigma> t = Some (c, pc)" by (auto split: option.splits)
  show ?thesis
  proof (cases "\<exists>r. pc = XReturn r")
    case True
    with assms XGo c show ?thesis by (auto intro: xm_step.respond)
  next
    case False
    have "xm_exec a \<sigma> = (if can_step pc (holder \<sigma>) then
        (case call_step t c pc (xm \<sigma>) (holder \<sigma>) of None \<Rightarrow> None
         | Some (pc', m', mu') \<Rightarrow> Some ([], (set_pc t c pc' \<sigma>)\<lparr>xm := m', holder := mu'\<rparr>)) else None)"
      using False by (cases pc) (simp_all add: XGo c)
    with assms(1) c show ?thesis
      by (auto intro: xm_step.access split: if_splits option.splits)
  qed
qed

lemma xm_replay_run:
  assumes "xm_run A h \<sigma>" "xm_replay as \<sigma> = Some (h', \<sigma>')" "\<forall>t c. XCall t c \<in> set as \<longrightarrow> A c"
  shows "xm_run A (h @ h') \<sigma>'"
  using assms
proof (induction as arbitrary: h \<sigma> h')
  case Nil
  then show ?case by simp
next
  case (Cons a as)
  from Cons.prems(2) obtain l \<sigma>1 h1 where s: "xm_exec a \<sigma> = Some (l, \<sigma>1)"
    "xm_replay as \<sigma>1 = Some (h1, \<sigma>')" "h' = l @ h1"
    by (auto simp: bind_eq_Some_conv)
  have "xm_run A (h @ l) \<sigma>1"
    using Cons.prems by (intro run_step [OF Cons.prems(1)] xm_exec_step [OF s(1)]) auto
  from Cons.IH [OF this s(2)] Cons.prems(3) s(3) show ?case by simp
qed

end
