(* ===== verification/XsyncConcLog.thy ===== *)
theory XsyncConcLog
  imports XsyncConcInv
begin

text \<open>
  Logs of the concurrent map: the events of a run in one sequence, the effect of each call
  placed between its invocation and its response, and legal for a plain map. A run is
  followed by a log that is extended at each step, and corrected where the code decides
  late: a read of an entry that has left the map takes effect at an earlier moment of its
  call, and of two deletions of such an entry the one that wins is known only at its
  compare-and-swap.
\<close>

section \<open>The operations of a plain map\<close>

text \<open>
  What the methods promise of a plain map; the two comparing methods are those of the code,
  which never compares.
\<close>

fun xop_spec :: "('k, 'v) xop \<Rightarrow> ('k \<rightharpoonup> 'v) \<Rightarrow> ('k, 'v) xret \<times> ('k \<rightharpoonup> 'v)" where
  "xop_spec (XLoad k) A = (GotValue (A k), A)"
| "xop_spec (XSwap k v) A = (GotValue (A k), A(k \<mapsto> v))"
| "xop_spec (XLoadOrStore k v) A =
     (case A k of Some w \<Rightarrow> (GotLoaded (Some w) True, A) | None \<Rightarrow> (GotLoaded (Some v) False, A(k \<mapsto> v)))"
| "xop_spec (XLoadAndDelete k) A = (GotValue (A k), A(k := None))"
| "xop_spec (XCompareAndSwap k old new) A =
     (case A k of Some w \<Rightarrow> (GotBool True, A(k \<mapsto> new)) | None \<Rightarrow> (GotBool False, A))"
| "xop_spec (XCompareAndDelete k old) A = (GotBool (A k \<noteq> None), A(k := None))"

fun replay :: "('k, 'v) xevent list \<Rightarrow> ('k \<rightharpoonup> 'v) \<Rightarrow> ('k \<rightharpoonup> 'v) option" where
  "replay [] A = Some A"
| "replay (Effect t op r # es) A =
     (if fst (xop_spec op A) = r then replay es (snd (xop_spec op A)) else None)"
| "replay (Invoke t c # es) A = replay es A"
| "replay (Respond t r # es) A = replay es A"

lemma replay_append: "replay (a @ b) A = Option.bind (replay a A) (replay b)"
  by (induction a A rule: replay.induct) auto

fun event_call :: "('k, 'v) xevent \<Rightarrow> nat" where
  "event_call (Invoke t c) = t" | "event_call (Respond t r) = t" | "event_call (Effect t op r) = t"

fun is_external :: "('k, 'v) xevent \<Rightarrow> bool" where
  "is_external (Effect t op r) = False" | "is_external _ = True"

abbreviation external :: "('k, 'v) xevent list \<Rightarrow> ('k, 'v) xevent list" where
  "external log \<equiv> filter is_external log"

abbreviation events_of :: "nat \<Rightarrow> ('k, 'v) xevent list \<Rightarrow> ('k, 'v) xevent list" where
  "events_of t log \<equiv> filter (\<lambda>e. event_call e = t) log"

section \<open>Moments of a log\<close>

text \<open>At some moment since call \<open>t\<close> began, key \<open>k\<close> had the value \<open>x\<close>.\<close>

definition seen :: "nat \<Rightarrow> 'k \<Rightarrow> 'v option \<Rightarrow> ('k, 'v) xevent list \<Rightarrow> bool" where
  "seen t k x log \<longleftrightarrow> (\<exists>l1 l2 c A. log = l1 @ l2 \<and> Invoke t c \<in> set l1 \<and>
     replay l1 Map.empty = Some A \<and> A k = x)"

definition precedes :: "'e \<Rightarrow> 'e \<Rightarrow> 'e list \<Rightarrow> bool" where
  "precedes x y log \<longleftrightarrow> (\<exists>l1 l2. log = l1 @ l2 \<and> x \<in> set l1 \<and> y \<in> set l2)"

lemma seen_now:
  "Invoke t c \<in> set log \<Longrightarrow> replay log Map.empty = Some A \<Longrightarrow> A k = x \<Longrightarrow> seen t k x log"
  unfolding seen_def by (intro exI [of _ log] exI [of _ "[]"]) auto

lemma seen_append: "seen t k x log \<Longrightarrow> seen t k x (log @ es)"
  unfolding seen_def by (metis append_assoc)

lemma precedes_append: "precedes x y log \<Longrightarrow> precedes x y (log @ es)"
  unfolding precedes_def by (metis append_assoc in_set_conv_decomp append_Cons)

lemma precedes_last: "x \<in> set log \<Longrightarrow> precedes x y (log @ [y])"
  unfolding precedes_def by (intro exI [of _ log] exI [of _ "[y]"]) auto

text \<open>An event that changes nothing can be added at any moment at which it is legal.\<close>

lemma replay_insert:
  assumes "replay l1 A0 = Some A" "xop_spec op A = (r, A)"
  shows "replay (l1 @ Effect t op r # l2) A0 = replay (l1 @ l2) A0"
  using assms by (simp add: replay_append)

lemma seen_insert:
  assumes l1: "replay l1 Map.empty = Some A" "xop_spec op A = (r, A)"
    and s: "seen t' k x (l1 @ l2)"
  shows "seen t' k x (l1 @ Effect t op r # l2)"
proof -
  from s obtain a b c B where ab: "l1 @ l2 = a @ b" "Invoke t' c \<in> set a"
    "replay a Map.empty = Some B" "B k = x"
    unfolding seen_def by blast
  from ab(1) consider us where "a = l1 @ us" "l2 = us @ b" | us where "l1 = a @ us" "b = us @ l2"
    by (auto simp: append_eq_append_conv2)
  then show ?thesis
  proof cases
    case 1
    have "replay (l1 @ Effect t op r # us) Map.empty = Some B"
      using ab(3) replay_insert [OF l1] by (simp add: 1)
    then show ?thesis
      unfolding seen_def using ab(2,4) 1
      by (intro exI [of _ "l1 @ Effect t op r # us"] exI [of _ b] exI [of _ c] exI [of _ B]) auto
  next
    case 2
    then show ?thesis
      unfolding seen_def using ab(2-4)
      by (intro exI [of _ a] exI [of _ "us @ Effect t op r # l2"] exI [of _ c] exI [of _ B]) auto
  qed
qed

lemma precedes_insert:
  assumes "precedes x y (l1 @ l2)"
  shows "precedes x y (l1 @ z # l2)"
proof -
  from assms obtain a b where ab: "l1 @ l2 = a @ b" "x \<in> set a" "y \<in> set b"
    unfolding precedes_def by blast
  from ab(1) consider us where "a = l1 @ us" "l2 = us @ b" | us where "l1 = a @ us" "b = us @ l2"
    by (auto simp: append_eq_append_conv2)
  then show ?thesis
  proof cases
    case 1
    then show ?thesis unfolding precedes_def using ab(2,3)
      by (intro exI [of _ "l1 @ z # us"] exI [of _ b]) auto
  next
    case 2
    then show ?thesis unfolding precedes_def using ab(2,3)
      by (intro exI [of _ a] exI [of _ "us @ z # l2"]) auto
  qed
qed

text \<open>An effect can be given to another call when it is the same change of the map.\<close>

lemma replay_replace:
  assumes "replay l1 A0 = Some A" "xop_spec op A = (r, B)" "xop_spec op' A = (r', B)"
  shows "replay (l1 @ Effect t op r # l2) A0 = replay (l1 @ Effect t' op' r' # l2) A0"
  using assms by (simp add: replay_append)

lemma seen_replace:
  assumes l1: "replay l1 Map.empty = Some A" "xop_spec op A = (r, B)" "xop_spec op' A = (r', B)"
    and s: "seen t1 k x (l1 @ Effect t op r # l2)"
  shows "seen t1 k x (l1 @ Effect t' op' r' # l2)"
proof -
  from s obtain a b c D where ab: "l1 @ Effect t op r # l2 = a @ b" "Invoke t1 c \<in> set a"
    "replay a Map.empty = Some D" "D k = x"
    unfolding seen_def by blast
  from ab(1) consider us where "a = l1 @ Effect t op r # us" "l2 = us @ b"
    | us where "l1 = a @ us" "b = us @ Effect t op r # l2"
    by (auto simp: append_eq_append_conv2 append_eq_Cons_conv Cons_eq_append_conv)
  then show ?thesis
  proof cases
    case 1
    have "replay (l1 @ Effect t' op' r' # us) Map.empty = Some D"
      using ab(3) replay_replace [OF l1, of t us t'] by (simp add: 1)
    then show ?thesis
      unfolding seen_def using ab(2,4) 1
      by (intro exI [of _ "l1 @ Effect t' op' r' # us"] exI [of _ b] exI [of _ c] exI [of _ D]) auto
  next
    case 2
    then show ?thesis
      unfolding seen_def using ab(2-4)
      by (intro exI [of _ a] exI [of _ "us @ Effect t' op' r' # l2"] exI [of _ c] exI [of _ D]) auto
  qed
qed

lemma precedes_replace:
  assumes "precedes x y (l1 @ z # l2)" "x \<noteq> z" "y \<noteq> z"
  shows "precedes x y (l1 @ z' # l2)"
proof -
  from assms(1) obtain a b where ab: "l1 @ z # l2 = a @ b" "x \<in> set a" "y \<in> set b"
    unfolding precedes_def by blast
  from ab(1) consider us where "a = l1 @ z # us" "l2 = us @ b"
    | us where "l1 = a @ us" "b = us @ z # l2"
    by (auto simp: append_eq_append_conv2 append_eq_Cons_conv Cons_eq_append_conv)
  then show ?thesis
  proof cases
    case 1
    then show ?thesis unfolding precedes_def using ab(2,3) assms(2)
      by (intro exI [of _ "l1 @ z' # us"] exI [of _ b]) auto
  next
    case 2
    then show ?thesis unfolding precedes_def using ab(2,3) assms(3)
      by (intro exI [of _ a] exI [of _ "us @ z' # l2"]) auto
  qed
qed

text \<open>An event that occurs once has one place.\<close>

lemma precedes_split:
  assumes "precedes x y log" "log = l1 @ y # l2" "count_list log y = 1"
  shows "x \<in> set l1"
proof -
  from assms(1) obtain a b where ab: "log = a @ b" "x \<in> set a" "y \<in> set b"
    unfolding precedes_def by blast
  have once: "y \<notin> set l1" "y \<notin> set a"
  proof -
    have "count_list l1 y = 0" using assms(2,3) by simp
    then show "y \<notin> set l1" by (simp add: count_list_0_iff)
    have "count_list a y + count_list b y = 1" using ab(1) assms(3) by simp
    moreover have "count_list b y \<noteq> 0" using ab(3) by (simp add: count_list_0_iff)
    ultimately have "count_list a y = 0" by simp
    then show "y \<notin> set a" by (simp add: count_list_0_iff)
  qed
  from ab(1) assms(2) consider us where "a = l1 @ y # us" | us where "l1 = a @ us"
    by (auto simp: append_eq_append_conv2 append_eq_Cons_conv Cons_eq_append_conv)
  then show ?thesis using once ab(2) by cases auto
qed

text \<open>What a deletion in the log says about the moments around it.\<close>

lemma precedes_deletion:
  assumes p: "precedes (Invoke t c) (Effect T (XLoadAndDelete k) (GotValue x)) log"
    and legal: "replay log Map.empty = Some A"
  shows "seen t k x log" and "seen t k None log"
proof -
  let ?y = "Effect T (XLoadAndDelete k) (GotValue x)"
  from p obtain a b where ab: "log = a @ b" "Invoke t c \<in> set a" "?y \<in> set b"
    unfolding precedes_def by blast
  obtain b1 b2 where b: "b = b1 @ ?y # b2" using ab(3) by (meson split_list)
  from legal obtain B where B: "replay (a @ b1) Map.empty = Some B" "replay (?y # b2) B = Some A"
    by (auto simp: ab(1) b replay_append bind_eq_Some_conv)
  then have "B k = x" by (auto split: if_splits)
  then show "seen t k x log"
    unfolding seen_def using ab(2) B(1)
    by (intro exI [of _ "a @ b1"] exI [of _ "?y # b2"] exI [of _ c] exI [of _ B]) (auto simp: ab(1) b)
  have "replay (a @ b1 @ [?y]) Map.empty = Some (B(k := None))"
    using B by (auto simp: replay_append bind_eq_Some_conv split: if_splits)
  then show "seen t k None log"
    unfolding seen_def using ab(2)
    by (intro exI [of _ "a @ b1 @ [?y]"] exI [of _ b2] exI [of _ c] exI [of _ "B(k := None)"])
      (auto simp: ab(1) b)
qed

section \<open>The log of a state\<close>

definition contents :: "('k, 'v) shared \<Rightarrow> 'k \<Rightarrow> 'v option" where
  "contents m k = map_option snd (xabs m k)"

lemma contents_entry: "entry_of m k = Some e \<Longrightarrow> contents m k = cell_value (heap m e)"
  by (cases "heap m e") (auto simp: contents_def xabs_def entry_load_def)

lemma contents_none: "entry_of m k = None \<Longrightarrow> contents m k = None"
  by (simp add: contents_def xabs_def)

text \<open>
  The result of a call that has taken effect. A call that took an entry with a value out of
  the dirty map has deleted that value, unless another deletion takes it first.
\<close>

definition owned_effect :: "bool \<Rightarrow> nat \<Rightarrow> ('k, 'v) shared \<Rightarrow> ('k, 'v) xret option" where
  "owned_effect own e m =
     (if own then map_option (\<lambda>v. GotValue (Some v)) (cell_value (heap m e)) else None)"

fun effect_of :: "('k, 'v) xpc \<Rightarrow> ('k, 'v) shared \<Rightarrow> ('k, 'v) xret option" where
  "effect_of (XDelLoad own e) m = owned_effect own e m"
| "effect_of (XDelCas own e p) m = owned_effect own e m"
| "effect_of (XUnlock miss r) m = Some r"
| "effect_of (XReturn r) m = Some r"
| "effect_of (XDone r) m = Some r"
| "effect_of _ m = None"

fun effect_log :: "nat \<Rightarrow> ('k, 'v) xcall \<Rightarrow> ('k, 'v) xret option \<Rightarrow> ('k, 'v) xevent list" where
  "effect_log t (Op op) (Some r) = [Effect t op r]"
| "effect_log t _ _ = []"

fun done_log :: "nat \<Rightarrow> ('k, 'v) xpc \<Rightarrow> ('k, 'v) xevent list" where
  "done_log t (XDone r) = [Respond t r]"
| "done_log t _ = []"

definition call_log ::
  "nat \<Rightarrow> ('k, 'v) xcall \<Rightarrow> ('k, 'v) xpc \<Rightarrow> ('k, 'v) shared \<Rightarrow> ('k, 'v) xevent list" where
  "call_log t c pc m = Invoke t c # effect_log t c (effect_of pc m) @ done_log t pc"

text \<open>What call \<open>t\<close>, which holds entry \<open>e\<close> of key \<open>k\<close>, can justify if the entry has left the map.\<close>

definition justified ::
  "nat \<Rightarrow> ('k, 'v) xcall \<Rightarrow> 'k \<Rightarrow> nat \<Rightarrow> ('k, 'v) xsystem \<Rightarrow> ('k, 'v) xevent list \<Rightarrow> bool" where
  "justified t c k e \<sigma> log \<longleftrightarrow> (detached (xm \<sigma>) e \<longrightarrow>
     (case cell_value (heap (xm \<sigma>) e) of
        None \<Rightarrow> seen t k None log
      | Some v \<Rightarrow> (\<exists>T p. calls \<sigma> T = Some p \<and> owns p e \<and>
          precedes (Invoke t c) (Effect T (XLoadAndDelete k) (GotValue (Some v))) log)))"

fun op_log_facts ::
  "nat \<Rightarrow> ('k, 'v) xop \<Rightarrow> ('k, 'v) xpc \<Rightarrow> ('k, 'v) xsystem \<Rightarrow> ('k, 'v) xevent list \<Rightarrow> bool" where
  "op_log_facts t op (XEntryLoad e) \<sigma> log = justified t (Op op) (key_of op) e \<sigma> log"
| "op_log_facts t op (XDelLoad own e) \<sigma> log =
     (if own then cell_value (heap (xm \<sigma>) e) = None \<longrightarrow> seen t (key_of op) None log
      else justified t (Op op) (key_of op) e \<sigma> log)"
| "op_log_facts t op (XDelCas own e p) \<sigma> log =
     (if own then cell_value (heap (xm \<sigma>) e) = None \<longrightarrow> seen t (key_of op) None log
      else justified t (Op op) (key_of op) e \<sigma> log)"
| "op_log_facts t op (XCasLoad h e) \<sigma> log = justified t (Op op) (key_of op) e \<sigma> log"
| "op_log_facts t op (XCasCas h e p) \<sigma> log = justified t (Op op) (key_of op) e \<sigma> log"
| "op_log_facts t op _ \<sigma> log = True"

definition pairs_seen :: "nat \<Rightarrow> ('k \<times> 'v) list \<Rightarrow> ('k, 'v) xevent list \<Rightarrow> bool" where
  "pairs_seen t ps log \<longleftrightarrow> (\<forall>(k, v) \<in> set ps. seen t k (Some v) log)"

fun ret_seen :: "nat \<Rightarrow> ('k, 'v) xret \<Rightarrow> ('k, 'v) xevent list \<Rightarrow> bool" where
  "ret_seen t (GotPairs ps) log = pairs_seen t ps log"
| "ret_seen t _ log = True"

fun range_log_facts ::
  "nat \<Rightarrow> ('k, 'v) xcall \<Rightarrow> ('k, 'v) xpc \<Rightarrow> ('k, 'v) xsystem \<Rightarrow> ('k, 'v) xevent list \<Rightarrow> bool" where
  "range_log_facts t c (XRangeLoop xs acc) \<sigma> log =
     ((\<forall>(k, e) \<in> set xs. justified t c k e \<sigma> log) \<and> pairs_seen t acc log)"
| "range_log_facts t c (XReturn r) \<sigma> log = ret_seen t r log"
| "range_log_facts t c (XDone r) \<sigma> log = ret_seen t r log"
| "range_log_facts t c _ \<sigma> log = True"

fun log_facts ::
  "nat \<Rightarrow> ('k, 'v) xcall \<Rightarrow> ('k, 'v) xpc \<Rightarrow> ('k, 'v) xsystem \<Rightarrow> ('k, 'v) xevent list \<Rightarrow> bool" where
  "log_facts t (Op op) pc \<sigma> log = op_log_facts t op pc \<sigma> log"
| "log_facts t (XRange ord f) pc \<sigma> log = range_log_facts t (XRange ord f) pc \<sigma> log"

definition lin_inv :: "('k, 'v) xsystem \<Rightarrow> ('k, 'v) xevent list \<Rightarrow> bool" where
  "lin_inv \<sigma> log \<longleftrightarrow> replay log Map.empty = Some (contents (xm \<sigma>)) \<and>
     (\<forall>t. calls \<sigma> t = None \<longrightarrow> events_of t log = []) \<and>
     (\<forall>t c pc. calls \<sigma> t = Some (c, pc) \<longrightarrow>
        events_of t log = call_log t c pc (xm \<sigma>) \<and> log_facts t c pc \<sigma> log)"

lemma lin_inv_call:
  "lin_inv \<sigma> log \<Longrightarrow> calls \<sigma> t = Some (c, pc) \<Longrightarrow>
     events_of t log = call_log t c pc (xm \<sigma>) \<and> log_facts t c pc \<sigma> log"
  by (simp add: lin_inv_def)

lemma events_of_mem: "e \<in> set (events_of t log) \<Longrightarrow> e \<in> set log"
  by simp

lemma lin_inv_invoked:
  "lin_inv \<sigma> log \<Longrightarrow> calls \<sigma> t = Some (c, pc) \<Longrightarrow> Invoke t c \<in> set log"
  using lin_inv_call [of \<sigma> log t c pc] events_of_mem [of "Invoke t c" t log]
  by (simp add: call_log_def)

lemma lin_inv_init: "lin_inv xsystem_init []"
  by (auto simp: lin_inv_def xsystem_init_def contents_def xabs_empty)

section \<open>What a step may do to the entries of the other calls\<close>

text \<open>
  Apart from the entries in \<open>E\<close>, an entry leaves the map only expunged, when its key is absent,
  and the entries that have left it stay as they are.
\<close>

definition loses :: "nat set \<Rightarrow> ('k, 'v) xmap \<Rightarrow> ('k, 'v) xmap \<Rightarrow> bool" where
  "loses E m m' \<longleftrightarrow> sh_step m m' \<and> (\<forall>e. detached m e \<longrightarrow> e \<in> E \<or> heap m' e = heap m e) \<and>
     (\<forall>k e. entry_of m k = Some e \<longrightarrow> detached m' e \<longrightarrow>
        e \<in> E \<or> heap m' e = PExpunged \<and> xabs m k = None)"

lemma loses_refl [simp]: "loses E m m"
  by (auto simp: loses_def dest: detached_entry)

lemma loses_soft_write:
  assumes "entry_of m k = Some e" "heap m e \<noteq> PExpunged" "p \<noteq> PExpunged"
  shows "loses {} m (write_slot e p m)"
proof -
  have s: "soft m (write_slot e p m)" using assms by (intro soft_write)
  have "\<not> detached m e" using assms(1) by (auto simp: detached_def)
  then show ?thesis
    using soft_sh_step [OF s] by (auto simp: loses_def soft_lookups [OF s] dest: detached_entry)
qed

section \<open>The other calls\<close>

lemma writes_reads: "writes k e m \<Longrightarrow> reads k e m"
  by (auto simp: writes_def reads_def read_entry)

lemma holds_entry_reads: "holds_entry h k e m \<Longrightarrow> reads k e m"
  by (cases h) (auto simp: writes_reads, auto simp: reads_def read_entry in_dirty_def dirty_entry)

text \<open>
  How a log may change: what was seen stays seen, and an event stays before the effects of
  the calls that are not in \<open>S\<close>.
\<close>

definition log_grows :: "nat set \<Rightarrow> ('k, 'v) xevent list \<Rightarrow> ('k, 'v) xevent list \<Rightarrow> bool" where
  "log_grows S log log' \<longleftrightarrow> (\<forall>t k x. seen t k x log \<longrightarrow> seen t k x log') \<and>
     (\<forall>t c T op r. T \<notin> S \<longrightarrow> precedes (Invoke t c) (Effect T op r) log \<longrightarrow>
        precedes (Invoke t c) (Effect T op r) log')"

lemma log_grows_seen: "log_grows S log log' \<Longrightarrow> seen t k x log \<Longrightarrow> seen t k x log'"
  by (simp add: log_grows_def)

lemma log_grows_refl [simp]: "log_grows S log log"
  by (simp add: log_grows_def)

lemma log_grows_append [simp]: "log_grows S log (log @ es)"
  by (simp add: log_grows_def seen_append precedes_append)

lemma log_grows_insert:
  "replay l1 Map.empty = Some A \<Longrightarrow> xop_spec op A = (r, A) \<Longrightarrow>
   log_grows S (l1 @ l2) (l1 @ Effect t op r # l2)"
  by (simp add: log_grows_def seen_insert precedes_insert)

lemma log_grows_replace:
  "replay l1 Map.empty = Some A \<Longrightarrow> xop_spec op A = (r, B) \<Longrightarrow> xop_spec op' A = (r', B) \<Longrightarrow>
   log_grows {t} (l1 @ Effect t op r # l2) (l1 @ Effect t' op' r' # l2)"
  unfolding log_grows_def using seen_replace [of l1 A op r B op' r'] by (auto intro: precedes_replace)

lemma pairs_seen_grows: "log_grows S log log' \<Longrightarrow> pairs_seen t ps log \<Longrightarrow> pairs_seen t ps log'"
  by (auto simp: pairs_seen_def log_grows_def)

lemma ret_seen_grows: "log_grows S log log' \<Longrightarrow> ret_seen t r log \<Longrightarrow> ret_seen t r log'"
  by (cases r) (auto simp: pairs_seen_grows)

definition keeps_owners :: "nat set \<Rightarrow> ('k, 'v) xsystem \<Rightarrow> ('k, 'v) xsystem \<Rightarrow> bool" where
  "keeps_owners E \<sigma> \<sigma>' \<longleftrightarrow> (\<forall>T p e v. calls \<sigma> T = Some p \<longrightarrow> owns p e \<longrightarrow> e \<notin> E \<longrightarrow>
     cell_value (heap (xm \<sigma>) e) = Some v \<longrightarrow> (\<exists>p'. calls \<sigma>' T = Some p' \<and> owns p' e))"

lemma justified_carry:
  assumes l: "loses E (xm \<sigma>) (xm \<sigma>')" and r: "reads k e (xm \<sigma>)"
    and j: "justified t c k e \<sigma> log" and i: "Invoke t c \<in> set log"
    and legal: "replay log Map.empty = Some (contents (xm \<sigma>))"
    and g: "log_grows S log log'" and own: "keeps_owners E \<sigma> \<sigma>'"
    and sp: "\<And>T p e. calls \<sigma> T = Some p \<Longrightarrow> owns p e \<Longrightarrow> T \<in> S \<Longrightarrow> e \<in> E"
    and new: "e \<in> E \<Longrightarrow> justified t c k e \<sigma>' log'"
  shows "justified t c k e \<sigma>' log'"
proof (cases "e \<in> E")
  case True
  with new show ?thesis by simp
next
  case out: False
  show ?thesis
  proof (cases "entry_of (xm \<sigma>) k = Some e")
    case True
    show ?thesis
    proof (cases "detached (xm \<sigma>') e")
      case d: True
      with l True out have x: "heap (xm \<sigma>') e = PExpunged" "xabs (xm \<sigma>) k = None"
        by (auto simp: loses_def)
      have "seen t k None log" using x(2) by (intro seen_now [OF i legal]) (simp add: contents_def)
      with g x(1) show ?thesis by (simp add: justified_def log_grows_def)
    qed (simp add: justified_def)
  next
    case False
    with r have d: "detached (xm \<sigma>) e" by (simp add: reads_def)
    with l out have h: "heap (xm \<sigma>') e = heap (xm \<sigma>) e" by (auto simp: loses_def)
    show ?thesis
    proof (cases "cell_value (heap (xm \<sigma>) e)")
      case None
      with j d g show ?thesis by (simp add: justified_def h log_grows_def)
    next
      case (Some v)
      with j d obtain T p where T: "calls \<sigma> T = Some p" "owns p e"
        "precedes (Invoke t c) (Effect T (XLoadAndDelete k) (GotValue (Some v))) log"
        by (auto simp: justified_def)
      obtain p' where "calls \<sigma>' T = Some p'" "owns p' e"
        using own T(1,2) Some out unfolding keeps_owners_def by blast
      moreover have "T \<notin> S" using sp [OF T(1,2)] out by blast
      then have "precedes (Invoke t c) (Effect T (XLoadAndDelete k) (GotValue (Some v))) log'"
        using T(3) g by (simp add: log_grows_def)
      ultimately show ?thesis using Some by (cases p') (fastforce simp: justified_def h)
    qed
  qed
qed

text \<open>An entry in \<open>E\<close> must stay justified for every call that was there before.\<close>

definition lost_justified ::
  "nat set \<Rightarrow> nat \<Rightarrow> ('k, 'v) xsystem \<Rightarrow> ('k, 'v) xsystem \<Rightarrow> ('k, 'v) xevent list \<Rightarrow>
   ('k, 'v) xevent list \<Rightarrow> bool" where
  "lost_justified E t \<sigma> \<sigma>' log log' \<longleftrightarrow> (\<forall>t1 c1 e k. t1 \<noteq> t \<longrightarrow> e \<in> E \<longrightarrow> Invoke t1 c1 \<in> set log \<longrightarrow>
     reads k e (xm \<sigma>) \<longrightarrow> justified t1 c1 k e \<sigma> log \<longrightarrow> justified t1 c1 k e \<sigma>' log')"

lemma lost_justified_none [simp]: "lost_justified {} t \<sigma> \<sigma>' log log'"
  by (simp add: lost_justified_def)

lemma others_carry:
  assumes inv: "xm_inv \<sigma>" and lin: "lin_inv \<sigma> log"
    and c1: "calls \<sigma> t1 = Some (c1, pc1)" "t1 \<noteq> t" "t1 \<notin> S"
    and l: "loses E (xm \<sigma>) (xm \<sigma>')" and g: "log_grows S log log'" and own: "keeps_owners E \<sigma> \<sigma>'"
    and sp: "\<And>T p e. calls \<sigma> T = Some p \<Longrightarrow> owns p e \<Longrightarrow> T \<noteq> t \<Longrightarrow> (T \<in> S) = (e \<in> E)"
      "t \<notin> S"
    and new: "lost_justified E t \<sigma> \<sigma>' log log'" and ev: "events_of t1 log' = events_of t1 log"
  shows "events_of t1 log' = call_log t1 c1 pc1 (xm \<sigma>') \<and> log_facts t1 c1 pc1 \<sigma>' log'"
proof -
  note f = xm_inv_call [OF inv c1(1)] and lf = lin_inv_call [OF lin c1(1)]
    and i = lin_inv_invoked [OF lin c1(1)]
  have legal: "replay log Map.empty = Some (contents (xm \<sigma>))" using lin by (simp add: lin_inv_def)
  have same: "heap (xm \<sigma>') e = heap (xm \<sigma>) e" if "owns (c1, pc1) e" for e
    using l owns_detached [of c1 pc1 "xm \<sigma>" e] f sp(1) [OF c1(1) that c1(2)] c1(3) that
    by (auto simp: loses_def)
  have eff: "effect_of pc1 (xm \<sigma>') = effect_of pc1 (xm \<sigma>)"
    using same by (cases pc1) (auto simp: owned_effect_def)
  have carry: "justified t1 c1 k e \<sigma>' log'" if "reads k e (xm \<sigma>)" "justified t1 c1 k e \<sigma> log" for k e
    using justified_carry [OF l that i legal g own] sp new c1(2) i that
    by (metis lost_justified_def)
  have "log_facts t1 c1 pc1 \<sigma>' log'"
  proof (cases c1)
    case (Op op)
    have own_seen: "cell_value (heap (xm \<sigma>') e) = None \<longrightarrow> seen t1 (key_of op) None log'"
      if "owns (c1, pc1) e" "cell_value (heap (xm \<sigma>) e) = None \<longrightarrow> seen t1 (key_of op) None log" for e
      using that(2) g by (simp add: same [OF that(1)] log_grows_def)
    have hcarry: "justified t1 (Op op) k e \<sigma>' log'"
      if "holds_entry h k e (xm \<sigma>) \<or> writes k e (xm \<sigma>)" "justified t1 (Op op) k e \<sigma> log" for h k e
      using that holds_entry_reads [of h k e] writes_reads [of k e] carry [of k e] by (auto simp: Op)
    show ?thesis
      using f lf carry own_seen by (cases pc1) (auto simp: Op split: if_splits intro: hcarry)
  next
    case (XRange ord f)
    show ?thesis
    proof (cases pc1)
      case (XRangeLoop xs acc)
      have "justified t1 c1 k e \<sigma>' log'" if "(k, e) \<in> set xs" for k e
        using that f lf by (intro carry) (auto simp: XRange XRangeLoop)
      with lf show ?thesis by (auto simp: XRange XRangeLoop pairs_seen_grows [OF g])
    qed (use f lf in \<open>auto simp: XRange ret_seen_grows [OF g]\<close>)
  qed
  with lf ev eff show ?thesis by (simp add: call_log_def)
qed

section \<open>The kinds of step\<close>

definition stepped ::
  "nat \<Rightarrow> ('k, 'v) xcall \<Rightarrow> ('k, 'v) xpc \<Rightarrow> ('k, 'v) shared \<Rightarrow> nat option \<Rightarrow> ('k, 'v) xsystem \<Rightarrow> ('k, 'v) xsystem"
where
  "stepped t c pc' m' mu' \<sigma> = (set_pc t c pc' \<sigma>)\<lparr>xm := m', holder := mu'\<rparr>"

lemma stepped_simps [simp]:
  "calls (stepped t c pc' m' mu' \<sigma>) = (calls \<sigma>)(t \<mapsto> (c, pc'))"
  "xm (stepped t c pc' m' mu' \<sigma>) = m'" "holder (stepped t c pc' m' mu' \<sigma>) = mu'"
  by (simp_all add: stepped_def)

lemma keeps_owners_stepped:
  assumes "calls \<sigma> t = Some (c, pc)"
    and "\<And>e v. owns (c, pc) e \<Longrightarrow> cell_value (heap (xm \<sigma>) e) = Some v \<Longrightarrow> e \<notin> E \<Longrightarrow> owns (c, pc') e"
  shows "keeps_owners E \<sigma> (stepped t c pc' m' mu' \<sigma>)"
  using assms by (auto simp: keeps_owners_def)

text \<open>Every kind of step keeps the log of the state when it accounts for its own call.\<close>

lemma lin_inv_stepped:
  assumes inv: "xm_inv \<sigma>" and lin: "lin_inv \<sigma> log" and c: "calls \<sigma> t = Some (c, pc)"
    and l: "loses E (xm \<sigma>) m'" and g: "log_grows S log log'"
    and own: "\<And>e v. owns (c, pc) e \<Longrightarrow> cell_value (heap (xm \<sigma>) e) = Some v \<Longrightarrow> e \<notin> E \<Longrightarrow> owns (c, pc') e"
    and sp: "\<And>T p e. calls \<sigma> T = Some p \<Longrightarrow> owns p e \<Longrightarrow> T \<noteq> t \<Longrightarrow> (T \<in> S) = (e \<in> E)" "t \<notin> S"
    and new: "lost_justified E t \<sigma> (stepped t c pc' m' mu' \<sigma>) log log'"
    and legal: "replay log' Map.empty = Some (contents m')"
    and ev: "\<And>t1. t1 \<noteq> t \<Longrightarrow> t1 \<notin> S \<Longrightarrow> events_of t1 log' = events_of t1 log"
    and mine: "events_of t log' = call_log t c pc' m'"
      "log_facts t c pc' (stepped t c pc' m' mu' \<sigma>) log'"
    and chosen: "\<And>T. T \<in> S \<Longrightarrow> \<exists>c1 pc1. calls \<sigma> T = Some (c1, pc1) \<and>
      events_of T log' = call_log T c1 pc1 m' \<and> log_facts T c1 pc1 (stepped t c pc' m' mu' \<sigma>) log'"
  shows "lin_inv (stepped t c pc' m' mu' \<sigma>) log'"
proof -
  let ?s = "stepped t c pc' m' mu' \<sigma>"
  have "events_of t1 log' = call_log t1 c1 pc1 (xm ?s) \<and> log_facts t1 c1 pc1 ?s log'"
    if "calls ?s t1 = Some (c1, pc1)" for t1 c1 pc1
  proof (cases "t1 = t \<or> t1 \<in> S")
    case True
    with that mine chosen sp(2) show ?thesis by (cases "t1 = t") fastforce+
  next
    case False
    with that have "calls \<sigma> t1 = Some (c1, pc1)" by simp
    from others_carry [OF inv lin this, of t S E ?s log'] l g new ev sp False
      keeps_owners_stepped [OF c own]
    show ?thesis by simp
  qed
  moreover have "events_of t1 log' = []" if "calls ?s t1 = None" for t1
    using that ev [of t1] chosen [of t1] lin by (auto simp: lin_inv_def split: if_splits)
  ultimately show ?thesis using legal by (simp add: lin_inv_def)
qed

fun responded :: "('k, 'v) xpc \<Rightarrow> bool" where
  "responded (XDone r) = True" | "responded _ = False"

lemma done_log_none [simp]: "\<not> responded pc \<Longrightarrow> done_log t pc = []"
  by (cases pc) auto

lemma unowned:
  assumes "xm_inv \<sigma>" "\<And>e. e \<in> E \<Longrightarrow> \<not> detached (xm \<sigma>) e" "calls \<sigma> T = Some p" "owns p e"
  shows "e \<notin> E"
proof -
  obtain c pc where p: "p = (c, pc)" by (cases p)
  have "detached (xm \<sigma>) e"
    using xm_inv_call [OF assms(1) assms(3) [unfolded p]] assms(4) owns_detached unfolding p by blast
  with assms(2) show ?thesis by blast
qed

text \<open>A step that has no effect on the contents and decides nothing.\<close>

lemma lin_quiet:
  assumes inv: "xm_inv \<sigma>" and lin: "lin_inv \<sigma> log" and c: "calls \<sigma> t = Some (c, pc)"
    and nd: "\<not> responded pc" "\<not> responded pc'"
    and l: "loses E (xm \<sigma>) m'" "\<And>e. e \<in> E \<Longrightarrow> \<not> detached (xm \<sigma>) e" and eq: "contents m' = contents (xm \<sigma>)"
    and eff: "effect_log t c (effect_of pc' m') = effect_log t c (effect_of pc (xm \<sigma>))"
    and own: "\<And>e v. owns (c, pc) e \<Longrightarrow> cell_value (heap (xm \<sigma>) e) = Some v \<Longrightarrow> owns (c, pc') e"
    and new: "lost_justified E t \<sigma> (stepped t c pc' m' mu' \<sigma>) log log"
    and facts: "log_facts t c pc' (stepped t c pc' m' mu' \<sigma>) log"
  shows "lin_inv (stepped t c pc' m' mu' \<sigma>) log"
  using lin_inv_call [OF lin c] lin nd facts own unowned [OF inv l(2)]
  by (intro lin_inv_stepped [OF inv lin c l(1) log_grows_refl [where S = "{}"] _ _ _ new])
    (simp_all add: lin_inv_def eq call_log_def eff)

text \<open>A step that takes effect now.\<close>

lemma lin_effect:
  assumes inv: "xm_inv \<sigma>" and lin: "lin_inv \<sigma> log" and c: "calls \<sigma> t = Some (Op op, pc)"
    and nd: "\<not> responded pc" "\<not> responded pc'"
    and l: "loses E (xm \<sigma>) m'" "\<And>e. e \<in> E \<Longrightarrow> \<not> detached (xm \<sigma>) e" and spec: "xop_spec op (contents (xm \<sigma>)) = (r, contents m')"
    and eff: "effect_of pc (xm \<sigma>) = None" "effect_of pc' m' = Some r"
    and own: "\<And>e v. owns (Op op, pc) e \<Longrightarrow> cell_value (heap (xm \<sigma>) e) = Some v \<Longrightarrow> owns (Op op, pc') e"
    and new: "lost_justified E t \<sigma> (stepped t (Op op) pc' m' mu' \<sigma>) log (log @ [Effect t op r])"
    and facts: "op_log_facts t op pc' (stepped t (Op op) pc' m' mu' \<sigma>) (log @ [Effect t op r])"
  shows "lin_inv (stepped t (Op op) pc' m' mu' \<sigma>) (log @ [Effect t op r])"
proof (rule lin_inv_stepped [OF inv lin c l(1) log_grows_append [where S = "{}"] _ _ _ new])
  show "replay (log @ [Effect t op r]) Map.empty = Some (contents m')"
    using lin spec by (simp add: lin_inv_def replay_append)
  show "events_of t (log @ [Effect t op r]) = call_log t (Op op) pc' m'"
    using lin_inv_call [OF lin c] nd eff by (simp add: call_log_def)
qed (use facts own unowned [OF inv l(2)] in simp_all)

text \<open>A step of a call that only reads, and took effect at a moment that is past.\<close>

lemma lin_past:
  assumes inv: "xm_inv \<sigma>" and lin: "lin_inv \<sigma> log" and c: "calls \<sigma> t = Some (Op op, pc)"
    and nd: "\<not> responded pc" "\<not> responded pc'" and s: "seen t k x log"
    and spec: "\<And>A. A k = x \<Longrightarrow> xop_spec op A = (r, A)"
    and eff: "effect_of pc (xm \<sigma>) = None" "effect_of pc' (xm \<sigma>) = Some r"
    and own: "\<And>e v. owns (Op op, pc) e \<Longrightarrow> cell_value (heap (xm \<sigma>) e) = Some v \<Longrightarrow> owns (Op op, pc') e"
    and facts: "\<And>s log. op_log_facts t op pc' s log"
  shows "\<exists>log'. lin_inv (stepped t (Op op) pc' (xm \<sigma>) mu' \<sigma>) log' \<and> external log' = external log"
proof -
  from s obtain l1 l2 c' A where s': "log = l1 @ l2" "Invoke t c' \<in> set l1"
    "replay l1 Map.empty = Some A" "A k = x"
    unfolding seen_def by blast
  have A: "xop_spec op A = (r, A)" using spec s'(4) .
  let ?l = "l1 @ Effect t op r # l2"
  have mine: "events_of t l1 @ events_of t l2 = [Invoke t (Op op)]"
    using lin_inv_call [OF lin c] nd eff by (simp add: call_log_def s'(1))
  moreover have "events_of t l1 \<noteq> []" using s'(2) by (auto simp: filter_empty_conv intro!: bexI [of _ "Invoke t c'"])
  ultimately have "events_of t l1 = [Invoke t (Op op)]" "events_of t l2 = []"
    by (auto simp: append_eq_Cons_conv)
  then have "events_of t ?l = call_log t (Op op) pc' (xm \<sigma>)" using nd eff by (simp add: call_log_def)
  moreover have "replay ?l Map.empty = Some (contents (xm \<sigma>))"
    using lin replay_insert [OF s'(3) A] by (simp add: lin_inv_def s'(1))
  ultimately have "lin_inv (stepped t (Op op) pc' (xm \<sigma>) mu' \<sigma>) ?l"
    using log_grows_insert [OF s'(3) A] facts own
    by (intro lin_inv_stepped [OF inv lin c loses_refl [of "{}"], where S = "{}"]) (simp_all add: s'(1))
  then show ?thesis by (intro exI [of _ ?l]) (simp add: s'(1))
qed

section \<open>Deleting the value of an entry that has left the map\<close>

lemma loses_write_detached:
  assumes "heap m e \<noteq> PExpunged" "p \<noteq> PExpunged"
  shows "loses {e} m (write_slot e p m)"
proof -
  have s: "soft m (write_slot e p m)" using assms by (rule soft_write)
  show ?thesis
    using soft_sh_step [OF s] by (auto simp: loses_def soft_lookups [OF s] dest: detached_entry)
qed

lemma contents_write_detached: "detached m e \<Longrightarrow> contents (write_slot e p m) = contents m"
proof
  fix k
  assume "detached m e"
  then have "entry_of m k \<noteq> Some e" by (rule detached_entry)
  then show "contents (write_slot e p m) k = contents m k"
    by (auto simp: contents_def xabs_def split: option.split)
qed

lemma owner_unique:
  "xm_inv \<sigma> \<Longrightarrow> calls \<sigma> t = Some p \<Longrightarrow> owns p e \<Longrightarrow> calls \<sigma> t' = Some p' \<Longrightarrow> owns p' e \<Longrightarrow> t = t'"
  unfolding xm_inv_def by blast

text \<open>Once the owner's entry is emptied, every other call that holds it has seen the key absent.\<close>

lemma emptied_justified:
  assumes inv: "xm_inv \<sigma>" and T: "calls \<sigma> T = Some p" "owns p e"
    and v: "cell_value (heap (xm \<sigma>) e) = Some v" and d: "detached (xm \<sigma>) e"
    and legal: "replay log Map.empty = Some A" and g: "log_grows S log log'"
  shows "lost_justified {e} t \<sigma> (stepped t c pc' (write_slot e PNil (xm \<sigma>)) mu' \<sigma>) log log'"
  unfolding lost_justified_def
proof (intro allI impI)
  fix t1 c1 e' k
  assume e': "e' \<in> {e}" and j: "justified t1 c1 k e' \<sigma> log"
  from j e' d v obtain T' p' where T': "calls \<sigma> T' = Some p'" "owns p' e"
    "precedes (Invoke t1 c1) (Effect T' (XLoadAndDelete k) (GotValue (Some v))) log"
    by (auto simp: justified_def)
  have "seen t1 k None log" by (rule precedes_deletion(2) [OF T'(3) legal])
  then have "seen t1 k None log'" by (rule log_grows_seen [OF g])
  with e' show "justified t1 c1 k e' (stepped t c pc' (write_slot e PNil (xm \<sigma>)) mu' \<sigma>) log'"
    by (simp add: justified_def)
qed

lemma lin_orphan_own:
  assumes inv: "xm_inv \<sigma>" and lin: "lin_inv \<sigma> log"
    and c: "calls \<sigma> t = Some (Op op, XDelCas True e p)"
    and h: "heap (xm \<sigma>) e = PVal (a, v)"
  shows "lin_inv (stepped t (Op op) (XReturn (GotValue (Some v))) (write_slot e PNil (xm \<sigma>)) mu' \<sigma>) log"
proof -
  have d: "detached (xm \<sigma>) e" using xm_inv_call [OF inv c] by simp
  have v: "cell_value (heap (xm \<sigma>) e) = Some v" by (simp add: h)
  have legal: "replay log Map.empty = Some (contents (xm \<sigma>))" using lin by (simp add: lin_inv_def)
  have l: "loses {e} (xm \<sigma>) (write_slot e PNil (xm \<sigma>))" by (rule loses_write_detached) (simp_all add: h)
  have own: "owns (Op op, XDelCas True e p) e" by simp
  note new = emptied_justified [OF inv c own v d legal log_grows_refl [where S = "{}"], of t]
  show ?thesis
  proof (rule lin_inv_stepped [OF inv lin c l log_grows_refl [where S = "{}"] _ _ _ new])
    show "(T \<in> {}) = (e' \<in> {e})" if "calls \<sigma> T = Some q" "owns q e'" "T \<noteq> t" for T q e'
      using owner_unique [OF inv c own that(1)] that by auto
    show "replay log Map.empty = Some (contents (write_slot e PNil (xm \<sigma>)))"
      by (simp add: legal contents_write_detached [OF d])
    show "events_of t log = call_log t (Op op) (XReturn (GotValue (Some v))) (write_slot e PNil (xm \<sigma>))"
      using lin_inv_call [OF lin c] by (simp add: call_log_def owned_effect_def v)
  qed auto
qed

lemma count_events: "event_call y = T \<Longrightarrow> count_list log y = count_list (events_of T log) y"
  by (induction log) auto

lemma lin_orphan_other:
  assumes inv: "xm_inv \<sigma>" and lin: "lin_inv \<sigma> log"
    and c: "calls \<sigma> t = Some (Op op, XDelCas False e p)"
    and h: "heap (xm \<sigma>) e = PVal (a, v)" and d: "detached (xm \<sigma>) e"
  shows "\<exists>log'. lin_inv (stepped t (Op op) (XReturn (deleted_ret op (Some v)))
      (write_slot e PNil (xm \<sigma>)) mu' \<sigma>) log' \<and> external log' = external log"
proof -
  let ?m = "write_slot e PNil (xm \<sigma>)" and ?k = "key_of op" and ?r = "deleted_ret op (Some v)"
  have v: "cell_value (heap (xm \<sigma>) e) = Some v" by (simp add: h)
  have legal: "replay log Map.empty = Some (contents (xm \<sigma>))" using lin by (simp add: lin_inv_def)
  from xm_inv_call [OF inv c] have ty: "is_lad (Op op) \<or> is_cad (Op op)" by simp
  from lin_inv_call [OF lin c] d v obtain T cT pcT where T: "calls \<sigma> T = Some (cT, pcT)"
    "owns (cT, pcT) e"
    and pr: "precedes (Invoke t (Op op)) (Effect T (XLoadAndDelete ?k) (GotValue (Some v))) log"
    by (auto simp: justified_def)
  let ?y = "Effect T (XLoadAndDelete ?k) (GotValue (Some v))"
  have Tt: "T \<noteq> t" using T c by auto
  have y: "?y \<in> set log" using pr unfolding precedes_def by auto
  obtain opT where cT: "cT = Op opT" using xm_inv_call [OF inv T(1)] T(2) by (cases cT; cases pcT) auto
  have eff: "effect_of pcT (xm \<sigma>) = Some (GotValue (Some v))" "\<not> responded pcT"
    "effect_of pcT ?m = None"
    using T(2) by (cases pcT; simp add: owned_effect_def v)+
  have evT: "events_of T log = [Invoke T cT, Effect T opT (GotValue (Some v))]"
    using lin_inv_call [OF lin T(1)] eff by (simp add: call_log_def cT)
  have "?y \<in> set (events_of T log)" using y by simp
  then have opT: "opT = XLoadAndDelete ?k" by (auto simp: evT)
  have "count_list log ?y = count_list (events_of T log) ?y" by (rule count_events) simp
  then have once: "count_list log ?y = 1" by (simp add: evT opT)
  obtain l1 l2 where log: "log = l1 @ ?y # l2" using y by (meson split_list)
  have It: "Invoke t (Op op) \<in> set l1" by (rule precedes_split [OF pr log once])
  have evT': "events_of T l1 = [Invoke T cT]" "events_of T l2 = []"
    using evT by (auto simp: log append_eq_Cons_conv)
  have "Invoke T cT \<in> set (events_of T l1)" by (simp add: evT')
  then have IT: "Invoke T cT \<in> set l1" by simp
  obtain A where A: "replay l1 Map.empty = Some A" "A ?k = Some v"
    using legal by (auto simp: log replay_append bind_eq_Some_conv split: if_splits)
  have spec: "xop_spec (XLoadAndDelete ?k) A = (GotValue (Some v), A(?k := None))"
    "xop_spec op A = (?r, A(?k := None))"
    using A(2) ty by (cases op; simp)+
  let ?l = "l1 @ Effect t op ?r # l2"
  have g: "log_grows {T} log ?l"
    unfolding log by (rule log_grows_replace [OF A(1) spec])
  have "events_of t log = [Invoke t (Op op)]"
    using lin_inv_call [OF lin c] by (simp add: call_log_def owned_effect_def)
  moreover have "events_of t l1 \<noteq> []" using It by (auto simp: filter_empty_conv intro!: bexI)
  ultimately have evt: "events_of t l1 = [Invoke t (Op op)]" "events_of t l2 = []"
    using Tt by (auto simp: log append_eq_Cons_conv)
  have l: "loses {e} (xm \<sigma>) ?m" by (rule loses_write_detached) (simp_all add: h)
  note new = emptied_justified [OF inv T v d legal g, of t]
  have seenT: "seen T ?k None ?l"
    unfolding seen_def using IT A spec
    by (intro exI [of _ "l1 @ [Effect t op ?r]"] exI [of _ l2] exI [of _ cT] exI [of _ "A(?k := None)"])
      (simp add: replay_append)
  have "lin_inv (stepped t (Op op) (XReturn ?r) ?m mu' \<sigma>) ?l"
  proof (rule lin_inv_stepped [OF inv lin c l g _ _ _ new])
    show "(T' \<in> {T}) = (e' \<in> {e})" if "calls \<sigma> T' = Some q" "owns q e'" "T' \<noteq> t" for T' q e'
    proof -
      have "e' = e" if "T' = T"
        using T \<open>calls \<sigma> T' = Some q\<close> \<open>owns q e'\<close> that by (cases pcT) auto
      then show ?thesis using owner_unique [OF inv T that(1)] that(2) by auto
    qed
    show "t \<notin> {T}" using Tt by simp
    show "replay ?l Map.empty = Some (contents ?m)"
      using legal replay_replace [OF A(1) spec, of T l2 t]
      by (simp add: log contents_write_detached [OF d])
    show "events_of t1 ?l = events_of t1 log" if "t1 \<noteq> t" "t1 \<notin> {T}" for t1
      using that by (simp add: log)
    show "events_of t ?l = call_log t (Op op) (XReturn ?r) ?m"
      by (simp add: evt call_log_def)
    show "\<exists>c1 pc1. calls \<sigma> T' = Some (c1, pc1) \<and> events_of T' ?l = call_log T' c1 pc1 ?m \<and>
        log_facts T' c1 pc1 (stepped t (Op op) (XReturn ?r) ?m mu' \<sigma>) ?l" if "T' \<in> {T}" for T'
    proof -
      have "events_of T ?l = call_log T cT pcT ?m"
        using Tt evT' eff by (simp add: call_log_def cT)
      moreover have "log_facts T cT pcT (stepped t (Op op) (XReturn ?r) ?m mu' \<sigma>) ?l"
        using T(2) seenT by (cases pcT) (auto simp: cT opT)
      ultimately show ?thesis using T(1) that by blast
    qed
  qed auto
  moreover have "external ?l = external log" by (simp add: log)
  ultimately show ?thesis by blast
qed

end
