(* ===== verification/XsyncConcLin.thy ===== *)
theory XsyncConcLin
  imports XsyncConcLog
begin

text \<open>
  The concurrent map of \<open>pkgs/xsync/map.go\<close> is linearizable: each step of a goroutine keeps
  the log of the run legal, and accounts for the call that makes it.
\<close>

section \<open>The locked operations leave the entries of the others justified\<close>

lemma contents_eq:
  "contents m k = (case entry_of m k of None \<Rightarrow> None | Some e \<Rightarrow> cell_value (heap m e))"
  using contents_entry [of m k] contents_none [of m k] by (cases "entry_of m k") auto

lemma contents_same:
  "entry_of m' = entry_of m \<Longrightarrow> (\<And>e. cell_value (heap m' e) = cell_value (heap m e)) \<Longrightarrow>
   contents m' = contents m"
  by (simp add: fun_eq_iff contents_eq split: option.split)

lemma losesI:
  assumes "sh_step m m'" "\<And>k e. entry_of m k = Some e \<Longrightarrow> entry_of m' k = Some e"
    and "\<And>e. detached m e \<Longrightarrow> heap m' e = heap m e"
  shows "loses E m m'"
  using assms by (auto simp: loses_def dest: detached_entry)

lemma loses_promote:
  assumes "xinv0 m" "dirty m = Some d"
  shows "loses E m (promote m)" and "contents (promote m) = contents m"
proof -
  show "loses E m (promote m)"
    using promote_step(2) [OF assms] promote_entry [OF assms]
    by (force simp: loses_def dest: detached_entry)
  show "contents (promote m) = contents m"
    using promote_correct(2) [OF assms] by (simp add: fun_eq_iff contents_def)
qed

lemma loses_miss:
  assumes inv: "xinv0 m" and d: "dirty m \<noteq> None"
  shows "loses E m (missLocked m)" and "contents (missLocked m) = contents m"
proof -
  from d obtain d' where d': "dirty m = Some d'" by blast
  let ?m = "m\<lparr>misses := Suc (misses m)\<rparr>"
  have s: "soft m ?m" by (simp add: soft_def)
  note same = soft_lookups [OF s]
  have i: "xinv0 ?m" "dirty ?m = Some d'" using inv d' by (simp_all add: misses_step(1))
  have x: "xabs ?m k = xabs m k" for k
    by (simp add: xabs_def same entry_load_def cong: option.case_cong)
  have l: "loses E ?m (promote ?m)" by (rule loses_promote [OF i])
  have "loses E m (promote ?m)"
    using l missLocked_step(2) [OF assms] sh_step_trans [OF misses_step(2) promote_step(2) [OF i]]
    by (auto simp: loses_def same x)
  moreover have "loses E m ?m"
    by (rule losesI) (use misses_step(2) same in auto)
  ultimately show "loses E m (missLocked m)" by (simp add: missLocked_def Let_def)
  show "contents (missLocked m) = contents m"
    using missLocked_correct(2) [OF inv d'] by (simp add: fun_eq_iff contents_def)
qed

lemma loses_drop_miss:
  assumes inv: "xinv0 m" and d: "dirty m = Some d" and k: "map_of (read_m m) k = None"
    and e: "dirty_lookup m k = Some e"
  defines "m' \<equiv> missLocked (m\<lparr>dirty := Some (AList.delete k d)\<rparr>)"
  shows "loses {e} m m'" and "contents m' = (contents m)(k := None)" and "detached m' e"
    and "heap m' = heap m"
proof -
  let ?m = "m\<lparr>dirty := Some (AList.delete k d)\<rparr>"
  note dd = drop_dirty_step [OF inv d k] and de = drop_dirty_entry [OF inv d k]
  have d1: "dirty ?m \<noteq> None" by simp
  note miss = missLocked_step [OF dd(1) d1] and lm = loses_miss [OF dd(1) d1]
  show "heap m' = heap m" by (simp add: m'_def)
  show det: "detached m' e" using miss(2) dd(3) [OF e] by (simp add: m'_def sh_step_def)
  have ek: "entry_of m k = Some e" using dirty_entry [OF k e] .
  show "contents m' = (contents m)(k := None)"
    using lm(2) de(3) by (auto simp: m'_def fun_eq_iff contents_def)
  show "loses {e} m m'"
    unfolding loses_def
  proof (intro conjI allI impI)
    show "sh_step m m'" unfolding m'_def by (rule sh_step_trans [OF dd(2) miss(2)])
    show "e' \<in> {e} \<or> heap m' e' = heap m e'" for e' by (simp add: m'_def)
    show "e' \<in> {e} \<or> heap m' e' = PExpunged \<and> xabs m k' = None"
      if "entry_of m k' = Some e'" "detached m' e'" for k' e'
    proof (cases "k' = k")
      case True
      with that ek show ?thesis by simp
    next
      case False
      with that(1) have "entry_of ?m k' = Some e'" by (simp add: de(2))
      with lm(1) [of "{}"] that(2) have "heap m' e' = PExpunged \<and> xabs ?m k' = None"
        by (auto simp: loses_def m'_def)
      with False show ?thesis by (simp add: de(3))
    qed
  qed
qed

lemma loses_loop_start:
  assumes "xinv0 m" "\<not> amended m"
  shows "loses E m (m\<lparr>dirty := Some []\<rparr>)" and "contents (m\<lparr>dirty := Some []\<rparr>) = contents m"
  using loop_start_step [OF assms] by (auto intro!: losesI contents_same)

lemma loses_loop_copy:
  assumes "loop_ok ((k, e) # xs) m"
  defines "m' \<equiv> m\<lparr>dirty := map_option (AList.update k e) (dirty m)\<rparr>"
  shows "loses E m m'" and "contents m' = contents m"
proof -
  note s = loop_copy_step [OF assms(1), folded m'_def]
  have h: "heap m' = heap m" by (simp add: m'_def)
  show "loses E m m'" by (rule losesI) (simp_all add: s h)
  show "contents m' = contents m" by (rule contents_same) (simp_all add: s h)
qed

lemma loses_loop_expunge:
  assumes "loop_ok ((k, e) # xs) m" "heap m e = PNil"
  shows "loses E m (write_slot e PExpunged m)" and "contents (write_slot e PExpunged m) = contents m"
proof -
  note s = loop_expunge_step [OF assms]
  show "loses E m (write_slot e PExpunged m)"
    using s(2,3) by (intro losesI) (auto dest: detached_entry)
  show "contents (write_slot e PExpunged m) = contents m"
    by (rule contents_same) (simp_all add: assms(2))
qed

lemma loses_loop_end:
  assumes "loop_ok [] m"
  shows "loses E m (m\<lparr>amended := True\<rparr>)" and "contents (m\<lparr>amended := True\<rparr>) = contents m"
proof -
  note s = loop_end_step [OF assms]
  show "loses E m (m\<lparr>amended := True\<rparr>)" by (rule losesI) (simp_all add: s)
  show "contents (m\<lparr>amended := True\<rparr>) = contents m" by (rule contents_same) (simp_all add: s)
qed

lemma loses_trans:
  assumes "loses {} m m1" "loses {} m1 m2" "contents m1 = contents m"
  shows "loses {} m m2"
  unfolding loses_def
proof (intro conjI allI impI)
  have det: "detached m1 e" if "detached m e" for e
    using assms(1) that by (simp add: loses_def sh_step_def)
  show "sh_step m m2" using assms sh_step_trans by (auto simp: loses_def)
  show "e \<in> {} \<or> heap m2 e = heap m e" if "detached m e" for e
    using assms(1,2) det [OF that] that by (simp add: loses_def)
  show "e \<in> {} \<or> heap m2 e = PExpunged \<and> xabs m k = None"
    if "entry_of m k = Some e" "detached m2 e" for k e
  proof (cases "entry_of m1 k = Some e")
    case True
    with assms(2) that(2) have "heap m2 e = PExpunged" "contents m1 k = None"
      by (auto simp: loses_def contents_def)
    then show ?thesis by (simp add: assms(3)) (simp add: contents_def)
  next
    case False
    with assms(1) that(1) have d: "detached m1 e" by (auto simp: loses_def sh_step_def)
    with assms(1,2) that(1) show ?thesis by (auto simp: loses_def)
  qed
qed

lemma contents_insert: "xabs m' = (xabs m)(k \<mapsto> (t, v)) \<Longrightarrow> contents m' = (contents m)(k \<mapsto> v)"
  by (auto simp: fun_eq_iff contents_def)

section \<open>Each step has its place in the log\<close>

definition logged :: "('k, 'v) xsystem \<Rightarrow> ('k, 'v) xevent list \<Rightarrow> bool" where
  "logged \<sigma> log \<longleftrightarrow> (\<exists>log'. lin_inv \<sigma> log' \<and> external log' = external log)"

lemma loggedI: "lin_inv \<sigma> log' \<Longrightarrow> external log' = external log \<Longrightarrow> logged \<sigma> log"
  unfolding logged_def by blast

lemma logged_quiet:
  assumes "xm_inv \<sigma>" "lin_inv \<sigma> log" "calls \<sigma> t = Some (c, pc)" "\<not> responded pc" "\<not> responded pc'"
    and "loses {} (xm \<sigma>) m'" "contents m' = contents (xm \<sigma>)"
    and "effect_log t c (effect_of pc' m') = effect_log t c (effect_of pc (xm \<sigma>))"
    and "\<And>e v. owns (c, pc) e \<Longrightarrow> cell_value (heap (xm \<sigma>) e) = Some v \<Longrightarrow> owns (c, pc') e"
    and "log_facts t c pc' (stepped t c pc' m' mu' \<sigma>) log"
  shows "logged (stepped t c pc' m' mu' \<sigma>) log"
  by (rule loggedI [OF lin_quiet [OF assms(1-6) _ assms(7,8)]]) (use assms in simp_all)

lemma logged_effect:
  assumes "xm_inv \<sigma>" "lin_inv \<sigma> log" "calls \<sigma> t = Some (Op op, pc)" "\<not> responded pc" "\<not> responded pc'"
    and "loses {} (xm \<sigma>) m'" "xop_spec op (contents (xm \<sigma>)) = (r, contents m')"
    and "effect_of pc (xm \<sigma>) = None" "effect_of pc' m' = Some r"
    and "\<And>e v. owns (Op op, pc) e \<Longrightarrow> cell_value (heap (xm \<sigma>) e) = Some v \<Longrightarrow> owns (Op op, pc') e"
    and "\<And>s log. op_log_facts t op pc' s log"
  shows "logged (stepped t (Op op) pc' m' mu' \<sigma>) log"
  by (rule loggedI [OF lin_effect [OF assms(1-6) _ assms(7-9)]]) (use assms in simp_all)

lemma logged_past:
  assumes "xm_inv \<sigma>" "lin_inv \<sigma> log" "calls \<sigma> t = Some (Op op, pc)" "\<not> responded pc" "\<not> responded pc'"
    and "seen t k x log" "\<And>A. A k = x \<Longrightarrow> xop_spec op A = (r, A)"
    and "effect_of pc (xm \<sigma>) = None" "effect_of pc' (xm \<sigma>) = Some r"
    and "\<And>e v. owns (Op op, pc) e \<Longrightarrow> cell_value (heap (xm \<sigma>) e) = Some v \<Longrightarrow> owns (Op op, pc') e"
    and "\<And>s log. op_log_facts t op pc' s log"
  shows "logged (stepped t (Op op) pc' (xm \<sigma>) mu' \<sigma>) log"
  unfolding logged_def by (rule lin_past [OF assms(1-6)]) (use assms in simp_all)

lemma justified_now: "entry_of m' k = Some e \<Longrightarrow> justified t c k e (stepped t c' pc' m' mu' \<sigma>) log"
  by (auto simp: justified_def dest: detached_entry)

lemma justified_stepped:
  assumes inv: "xm_inv \<sigma>" and lin: "lin_inv \<sigma> log" and c: "calls \<sigma> t = Some (c, pc)"
    and l: "loses {} (xm \<sigma>) m'"
    and own: "\<And>e v. owns (c, pc) e \<Longrightarrow> cell_value (heap (xm \<sigma>) e) = Some v \<Longrightarrow> owns (c, pc') e"
    and r: "reads k e (xm \<sigma>)" and j: "justified t c k e \<sigma> log"
  shows "justified t c k e (stepped t c pc' m' mu' \<sigma>) log"
proof (rule justified_carry [where \<sigma> = \<sigma> and S = "{}" and E = "{}" and log = log])
  show "replay log Map.empty = Some (contents (xm \<sigma>))" using lin by (simp add: lin_inv_def)
  show "keeps_owners {} \<sigma> (stepped t c pc' m' mu' \<sigma>)"
    by (rule keeps_owners_stepped [OF c own])
qed (use l r j lin_inv_invoked [OF lin c] in simp_all)

text \<open>An absent result of a call that finds its entry empty.\<close>

fun absent_ret :: "('k, 'v) xop \<Rightarrow> ('k, 'v) xret" where
  "absent_ret (XCompareAndDelete k old) = GotBool False"
| "absent_ret (XCompareAndSwap k old new) = GotBool False"
| "absent_ret _ = GotValue None"

fun absent_reader :: "('k, 'v) xop \<Rightarrow> bool" where
  "absent_reader (XSwap k v) = False" | "absent_reader (XLoadOrStore k v) = False"
| "absent_reader _ = True"

lemma absent_spec:
  "absent_reader op \<Longrightarrow> A (key_of op) = None \<Longrightarrow> xop_spec op A = (absent_ret op, A)"
  by (cases op) (auto simp: fun_upd_idem)

lemma deleted_ret_absent:
  "is_lad (Op op) \<or> is_cad (Op op) \<Longrightarrow> deleted_ret op None = absent_ret op"
  "is_lad (Op op) \<or> is_cad (Op op) \<Longrightarrow> absent_reader op"
  by (cases op; simp)+

lemma logged_absent_now:
  assumes "xm_inv \<sigma>" "lin_inv \<sigma> log" "calls \<sigma> t = Some (Op op, pc)" "\<not> responded pc" "\<not> responded pc'"
    and "loses {} (xm \<sigma>) m'" "contents m' = contents (xm \<sigma>)" "contents (xm \<sigma>) (key_of op) = None"
    and "absent_reader op" "effect_of pc (xm \<sigma>) = None" "effect_of pc' m' = Some (absent_ret op)"
    and "\<And>e v. owns (Op op, pc) e \<Longrightarrow> cell_value (heap (xm \<sigma>) e) = Some v \<Longrightarrow> owns (Op op, pc') e"
    and "\<And>s log. op_log_facts t op pc' s log"
  shows "logged (stepped t (Op op) pc' m' mu' \<sigma>) log"
  by (rule logged_effect [OF assms(1-6), where r = "absent_ret op"]) (use assms absent_spec in simp_all)

text \<open>A call finds the entry it holds empty: now, or since the entry left the map.\<close>

lemma logged_empty_entry:
  assumes inv: "xm_inv \<sigma>" and lin: "lin_inv \<sigma> log" and c: "calls \<sigma> t = Some (Op op, pc)"
    and nd: "\<not> responded pc" "\<not> responded pc'" and r: "reads (key_of op) e (xm \<sigma>)"
    and j: "justified t (Op op) (key_of op) e \<sigma> log" and h: "cell_value (heap (xm \<sigma>) e) = None"
    and op: "absent_reader op" and eff: "effect_of pc (xm \<sigma>) = None" "effect_of pc' (xm \<sigma>) = Some (absent_ret op)"
    and own: "\<And>e v. owns (Op op, pc) e \<Longrightarrow> cell_value (heap (xm \<sigma>) e) = Some v \<Longrightarrow> owns (Op op, pc') e"
    and facts: "\<And>s log. op_log_facts t op pc' s log"
  shows "logged (stepped t (Op op) pc' (xm \<sigma>) mu' \<sigma>) log"
proof (cases "entry_of (xm \<sigma>) (key_of op) = Some e")
  case True
  then have "contents (xm \<sigma>) (key_of op) = None" using h by (simp add: contents_entry)
  then show ?thesis by (intro logged_absent_now [OF inv lin c nd loses_refl]) (use assms in simp_all)
next
  case False
  with r j h have "seen t (key_of op) None log" by (simp add: reads_def justified_def)
  then show ?thesis
    by (intro logged_past [OF inv lin c nd]) (use assms absent_spec in simp_all)
qed

section \<open>The steps of the methods\<close>

lemma keeping_eq [simp]: "keeping mu n = Some (pc', m', mu') \<longleftrightarrow> n = (pc', m') \<and> mu' = mu"
  by (auto simp: keeping_def)

lemma log_first:
  assumes inv: "xm_inv \<sigma>" and lin: "lin_inv \<sigma> log" and c: "calls \<sigma> t = Some (Op op, XStart)"
    and step: "op_step t op XStart (xm \<sigma>) (holder \<sigma>) = Some (pc', m', mu')"
  shows "logged (stepped t (Op op) pc' m' mu' \<sigma>) log"
proof -
  from step have pc': "pc' = op_first op (xm \<sigma>)" and m': "m' = xm \<sigma>" by auto
  have base: "base_ok (xm \<sigma>)" by (rule xm_inv_base [OF inv])
  show ?thesis
  proof (cases "\<exists>r. pc' = XReturn r")
    case True
    then have k: "map_of (read_m (xm \<sigma>)) (key_of op) = None" "\<not> amended (xm \<sigma>)"
      and r: "absent_reader op" "pc' = XReturn (absent_ret op)"
      unfolding pc'
      by (cases op; auto simp: Load_first_def Swap_first_def LoadOrStore_first_def
          LoadAndDelete_first_def CompareAndSwap_first_def CompareAndDelete_first_def
          split: option.splits if_splits)+
    have "contents (xm \<sigma>) (key_of op) = None"
      using base k by (simp add: base_ok_def contents_none)
    with r show ?thesis
      unfolding m' by (intro logged_absent_now [OF inv lin c]) simp_all
  next
    case False
    have now: "justified t (Op op) (key_of op) e (stepped t (Op op) pc' m' mu' \<sigma>) log"
      if "map_of (read_m (xm \<sigma>)) (key_of op) = Some e" for e
      using read_entry [OF that] m' by (intro justified_now) simp
    have f: "op_log_facts t op pc' (stepped t (Op op) pc' m' mu' \<sigma>) log \<and> effect_of pc' m' = None
        \<and> \<not> responded pc'"
      using False now unfolding pc'
      by (cases op; auto simp: Load_first_def Swap_first_def LoadOrStore_first_def
          LoadAndDelete_first_def CompareAndSwap_first_def CompareAndDelete_first_def owned_effect_def
          split: option.splits if_splits)
    then show ?thesis
      using m' by (intro logged_quiet [OF inv lin c]) simp_all
  qed
qed

lemma log_entry_load:
  assumes inv: "xm_inv \<sigma>" and lin: "lin_inv \<sigma> log" and c: "calls \<sigma> t = Some (Op op, XEntryLoad e)"
    and step: "op_step t op (XEntryLoad e) (xm \<sigma>) (holder \<sigma>) = Some (pc', m', mu')"
  shows "logged (stepped t (Op op) pc' m' mu' \<sigma>) log"
proof -
  let ?x = "cell_value (heap (xm \<sigma>) e)"
  from step have pc': "pc' = XReturn (GotValue ?x)" and m': "m' = xm \<sigma>"
    by (auto simp: load_entry_def)
  from xm_inv_call [OF inv c] obtain k where op: "op = XLoad k" and r: "reads k e (xm \<sigma>)"
    using typed_op(1) by fastforce
  show ?thesis
  proof (cases "entry_of (xm \<sigma>) k = Some e")
    case True
    then show ?thesis
      unfolding pc' m' by (intro logged_effect [OF inv lin c]) (simp_all add: op contents_entry)
  next
    case False
    with r have "detached (xm \<sigma>) e" by (simp add: reads_def)
    then have "seen t k ?x log"
      using lin_inv_call [OF lin c] precedes_deletion(1) lin
      by (auto simp: op justified_def lin_inv_def split: option.splits)
    then show ?thesis
      unfolding pc' m' by (intro logged_past [OF inv lin c]) (simp_all add: op)
  qed
qed

lemma log_delete_load:
  assumes inv: "xm_inv \<sigma>" and lin: "lin_inv \<sigma> log" and c: "calls \<sigma> t = Some (Op op, XDelLoad own e)"
    and step: "op_step t op (XDelLoad own e) (xm \<sigma>) (holder \<sigma>) = Some (pc', m', mu')"
  shows "logged (stepped t (Op op) pc' m' mu' \<sigma>) log"
proof -
  from step have pc': "pc' = delete_load op own e (xm \<sigma>)" and m': "m' = xm \<sigma>" by auto
  from xm_inv_call [OF inv c] have ty: "is_lad (Op op) \<or> is_cad (Op op)"
    and fa: "if own then detached (xm \<sigma>) e else reads (key_of op) e (xm \<sigma>)" by auto
  note lf = lin_inv_call [OF lin c]
  show ?thesis
  proof (cases "cell_value (heap (xm \<sigma>) e)")
    case None
    then have p: "pc' = XReturn (absent_ret op)"
      unfolding pc' using deleted_ret_absent(1) [OF ty]
      by (cases "heap (xm \<sigma>) e") (auto simp: delete_load_def)
    note ar = deleted_ret_absent(2) [OF ty]
    show ?thesis
    proof (cases own)
      case True
      with lf None have "seen t (key_of op) None log" by simp
      with None True show ?thesis
        unfolding p m' by (intro logged_past [OF inv lin c])
          (use absent_spec [OF ar] in \<open>simp_all add: owned_effect_def\<close>)
    next
      case False
      with None fa lf ar show ?thesis
        unfolding p m' by (intro logged_empty_entry [OF inv lin c, of _ e])
          (simp_all add: owned_effect_def)
    qed
  next
    case (Some v)
    then have p: "pc' = XDelCas own e (heap (xm \<sigma>) e)"
      unfolding pc' by (cases "heap (xm \<sigma>) e") (auto simp: delete_load_def)
    have "op_log_facts t op pc' (stepped t (Op op) pc' m' mu' \<sigma>) log"
      using fa lf Some justified_stepped [OF inv lin c loses_refl [of "{}"]]
      unfolding m' by (auto simp: p split: if_splits)
    then show ?thesis
      using p m' by (intro logged_quiet [OF inv lin c]) auto
  qed
qed

lemma log_delete_cas:
  assumes inv: "xm_inv \<sigma>" and lin: "lin_inv \<sigma> log" and c: "calls \<sigma> t = Some (Op op, XDelCas own e p)"
    and step: "op_step t op (XDelCas own e p) (xm \<sigma>) (holder \<sigma>) = Some (pc', m', mu')"
  shows "logged (stepped t (Op op) pc' m' mu' \<sigma>) log"
proof -
  from xm_inv_call [OF inv c] have ty: "is_lad (Op op) \<or> is_cad (Op op) \<and> \<not> own" and pv: "p \<noteq> PNil" "p \<noteq> PExpunged"
    and fa: "if own then detached (xm \<sigma>) e else reads (key_of op) e (xm \<sigma>)" by auto
  note lf = lin_inv_call [OF lin c]
  obtain a v where p: "p = PVal (a, v)" using pv by (cases p) auto
  show ?thesis
  proof (cases "heap (xm \<sigma>) e = p")
    case False
    with step have s: "pc' = XDelLoad own e" "m' = xm \<sigma>" by (auto simp: delete_cas_def cas_slot_def)
    have "op_log_facts t op pc' (stepped t (Op op) pc' m' mu' \<sigma>) log"
      using fa lf justified_stepped [OF inv lin c loses_refl [of "{}"]]
      unfolding s by (auto split: if_splits)
    then show ?thesis using s by (intro logged_quiet [OF inv lin c]) auto
  next
    case True
    with step have s: "pc' = XReturn (deleted_ret op (Some v))" "m' = write_slot e PNil (xm \<sigma>)"
      by (auto simp: delete_cas_def cas_slot_def p)
    show ?thesis
    proof (cases own)
      case own: True
      with ty have "pc' = XReturn (GotValue (Some v))" unfolding s by (cases op) auto
      moreover have "calls \<sigma> t = Some (Op op, XDelCas True e p)" using c own by simp
      ultimately show ?thesis
        using lin_orphan_own [OF inv lin, of t op e p a v mu'] True
        by (auto simp: s(2) p intro: loggedI)
    next
      case False
      show ?thesis
      proof (cases "detached (xm \<sigma>) e")
        case d: True
        from lin_orphan_other [OF inv lin _ _ d, of t op p a v mu'] c False True p show ?thesis
          unfolding s logged_def by simp
      next
        case d: False
        with fa False have e: "entry_of (xm \<sigma>) (key_of op) = Some e" by (simp add: reads_def)
        have l: "loses {} (xm \<sigma>) m'"
          unfolding s by (rule loses_soft_write [OF e]) (simp_all add: True p)
        have b: "base_ok (xm \<sigma>)" by (rule xm_inv_base [OF inv])
        have "contents m' = (contents (xm \<sigma>))(key_of op := None)"
          using entry_key [OF b _ e] by (auto simp: fun_eq_iff contents_eq s e split: option.split)
        moreover have "contents (xm \<sigma>) (key_of op) = Some v" by (simp add: contents_entry [OF e] True p)
        ultimately have "xop_spec op (contents (xm \<sigma>)) = (deleted_ret op (Some v), contents m')"
          using ty False by (cases op) auto
        with l show ?thesis
          unfolding s(1) by (intro logged_effect [OF inv lin c]) (simp_all add: owned_effect_def False)
      qed
    qed
  qed
qed

text \<open>A write to the entry of a key is a write to the key.\<close>

lemma current_write:
  assumes inv: "xm_inv \<sigma>" and e: "entry_of (xm \<sigma>) k = Some e" and h: "heap (xm \<sigma>) e \<noteq> PExpunged"
  shows "loses {} (xm \<sigma>) (write_slot e (PVal (t, v)) (xm \<sigma>))"
    and "contents (write_slot e (PVal (t, v)) (xm \<sigma>)) = (contents (xm \<sigma>))(k \<mapsto> v)"
proof -
  show "loses {} (xm \<sigma>) (write_slot e (PVal (t, v)) (xm \<sigma>))"
    by (rule loses_soft_write [OF e h]) simp
  show "contents (write_slot e (PVal (t, v)) (xm \<sigma>)) = (contents (xm \<sigma>))(k \<mapsto> v)"
    using entry_key [OF xm_inv_base [OF inv] _ e]
    by (auto simp: fun_eq_iff contents_eq e split: option.split)
qed

text \<open>The entry of a writer that is not expunged belongs to its key.\<close>

lemma writer_entry:
  "writes k e m \<Longrightarrow> heap m e \<noteq> PExpunged \<Longrightarrow> entry_of m k = Some e"
  by (auto simp: writes_def read_entry)

lemma holder_entry:
  "holds_entry h k e m \<Longrightarrow> heap m e \<noteq> PExpunged \<Longrightarrow> entry_of m k = Some e"
  by (cases h) (auto simp: writer_entry read_entry in_dirty_def dirty_entry)

lemma entry_done_effect [simp]: "effect_of (entry_done h r) m = Some r" "\<not> responded (entry_done h r)"
  by (cases h, simp_all)+

lemma entry_done_log_facts [simp]: "op_log_facts t op (entry_done h r) s log"
  by (cases h) simp_all

lemma log_trySwap:
  assumes inv: "xm_inv \<sigma>" and lin: "lin_inv \<sigma> log" and c: "calls \<sigma> t = Some (Op op, pc)"
    and pc: "pc = XTrySwap e \<or> pc = XTrySwapCas e p"
    and step: "op_step t op pc (xm \<sigma>) (holder \<sigma>) = Some (pc', m', mu')"
  shows "logged (stepped t (Op op) pc' m' mu' \<sigma>) log"
proof (cases "m' = xm \<sigma> \<and> (\<forall>r. pc' \<noteq> XReturn r)")
  case True
  with pc step show ?thesis
    by (intro logged_quiet [OF inv lin c])
      (auto simp: trySwap_load_def trySwap_cas_def cas_slot_def bind_eq_Some_conv split: if_splits)
next
  case False
  with pc step have pc: "pc = XTrySwapCas e p" by (auto simp: trySwap_load_def split: if_splits)
  from xm_inv_call [OF inv c] pc obtain k v where op: "op = XSwap k v" and w: "writes k e (xm \<sigma>)"
    and p: "p \<noteq> PExpunged"
    using typed_op(2) by fastforce
  from False step have s: "heap (xm \<sigma>) e = p" "pc' = XReturn (GotValue (cell_value p))"
    "m' = write_slot e (PVal (t, v)) (xm \<sigma>)"
    by (auto simp: pc op trySwap_cas_def cas_slot_def split: if_splits)
  have e: "entry_of (xm \<sigma>) k = Some e" using writer_entry [OF w] s(1) p by simp
  have "heap (xm \<sigma>) e \<noteq> PExpunged" using s(1) p by simp
  note cw = current_write [OF inv e this, of t v]
  show ?thesis
    using cw contents_entry [OF e] s(1) unfolding s(2,3)
    by (intro logged_effect [OF inv lin c]) (simp_all add: op pc)
qed

lemma log_tryCas:
  assumes inv: "xm_inv \<sigma>" and lin: "lin_inv \<sigma> log" and c: "calls \<sigma> t = Some (Op op, pc)"
    and pc: "pc = XCasLoad h e \<or> pc = XCasCas h e p"
    and step: "op_step t op pc (xm \<sigma>) (holder \<sigma>) = Some (pc', m', mu')"
  shows "logged (stepped t (Op op) pc' m' mu' \<sigma>) log"
proof -
  from xm_inv_call [OF inv c] pc obtain k old new where op: "op = XCompareAndSwap k old new"
    and he: "holds_entry h k e (xm \<sigma>)" and pv: "pc = XCasCas h e p \<Longrightarrow> p \<noteq> PNil \<and> p \<noteq> PExpunged"
    using typed_op(5) by fastforce
  from lin_inv_call [OF lin c] pc have j: "justified t (Op op) k e \<sigma> log" by (auto simp: op)
  have r: "reads k e (xm \<sigma>)" by (rule holds_entry_reads [OF he])
  consider (again) "m' = xm \<sigma>" "\<exists>h e p. pc' = XCasLoad h e \<or> pc' = XCasCas h e p"
      "\<forall>s. op_log_facts t op pc' s log = justified t (Op op) k e s log"
    | (empty) "m' = xm \<sigma>" "cell_value (heap (xm \<sigma>) e) = None" "pc' = entry_done h (GotBool False)"
    | (swap) "pc = XCasCas h e p" "heap (xm \<sigma>) e = p" "pc' = entry_done h (GotBool True)"
        "m' = write_slot e (PVal (t, new)) (xm \<sigma>)"
    using pc step
    by (auto simp: op tryCompareAndSwap_load_def tryCompareAndSwap_cas_def cas_slot_def split: if_splits)
  then show ?thesis
  proof cases
    case again
    have "op_log_facts t op pc' (stepped t (Op op) pc' m' mu' \<sigma>) log"
      using justified_stepped [OF inv lin c loses_refl [of "{}"] _ r j] pc again(1,3) by auto
    then show ?thesis using again(1,2) pc by (intro logged_quiet [OF inv lin c]) auto
  next
    case empty
    show ?thesis
      unfolding empty(1,3) using pc
      by (intro logged_empty_entry [OF inv lin c, where e = e]) (use r j empty in \<open>auto simp: op\<close>)
  next
    case swap
    have alive: "heap (xm \<sigma>) e \<noteq> PExpunged" using swap pv by simp
    have e: "entry_of (xm \<sigma>) k = Some e" by (rule holder_entry [OF he alive])
    note cw = current_write [OF inv e alive, of t new]
    obtain w where "contents (xm \<sigma>) k = Some w"
      using pv [OF swap(1)] swap(2) by (cases p) (auto simp: contents_entry [OF e])
    then show ?thesis
      unfolding swap(3,4) using cw swap(1)
      by (intro logged_effect [OF inv lin c]) (simp_all add: op)
  qed
qed

lemma log_tryLos:
  assumes inv: "xm_inv \<sigma>" and lin: "lin_inv \<sigma> log" and c: "calls \<sigma> t = Some (Op op, pc)"
    and pc: "pc = XLosLoad h e \<or> pc = XLosCas h e"
    and step: "op_step t op pc (xm \<sigma>) (holder \<sigma>) = Some (pc', m', mu')"
  shows "logged (stepped t (Op op) pc' m' mu' \<sigma>) log"
proof -
  note f = xm_inv_call [OF inv c]
  from f pc obtain k v where op: "op = XLoadOrStore k v" and he: "holds_entry h k e (xm \<sigma>)"
    and lk: "op_facts k (XLosLoad h e) (xm \<sigma>)"
    using typed_op(3) by fastforce
  have alive: "heap (xm \<sigma>) e \<noteq> PExpunged" if "h \<noteq> NoLock"
    using f that pc by (intro los_not_expunged [OF lk]) auto
  consider (again) "m' = xm \<sigma>" "pc' = XLock \<or> pc' = XLosLoad h e \<or> pc' = XLosCas h e"
    | (load) a w where "m' = xm \<sigma>" "heap (xm \<sigma>) e = PVal (a, w)" "pc' = entry_done h (GotLoaded (Some w) True)"
    | (store) "heap (xm \<sigma>) e = PNil" "pc' = entry_done h (GotLoaded (Some v) False)"
        "m' = write_slot e (PVal (t, v)) (xm \<sigma>)"
    using pc step alive
    by (cases "heap (xm \<sigma>) e")
      (auto simp: op tryLoadOrStore_load_def tryLoadOrStore_cas_def cas_slot_def split: if_splits)
  then show ?thesis
  proof cases
    case again
    then show ?thesis using pc by (intro logged_quiet [OF inv lin c]) auto
  next
    case (load a w)
    have e: "entry_of (xm \<sigma>) k = Some e" using holder_entry [OF he] load(2) by simp
    show ?thesis
      unfolding load(1,3) using pc
      by (intro logged_effect [OF inv lin c]) (auto simp: op contents_entry [OF e] load(2))
  next
    case store
    have e: "entry_of (xm \<sigma>) k = Some e" using holder_entry [OF he] store(1) by simp
    have "heap (xm \<sigma>) e \<noteq> PExpunged" using store(1) by simp
    note cw = current_write [OF inv e this, of t v]
    show ?thesis
      unfolding store(2,3) using pc cw
      by (intro logged_effect [OF inv lin c]) (auto simp: op contents_entry [OF e] store(1))
  qed
qed

lemma log_swap_entry:
  assumes inv: "xm_inv \<sigma>" and lin: "lin_inv \<sigma> log" and c: "calls \<sigma> t = Some (Op op, XSwapEntry e)"
    and step: "op_step t op (XSwapEntry e) (xm \<sigma>) (holder \<sigma>) = Some (pc', m', mu')"
  shows "logged (stepped t (Op op) pc' m' mu' \<sigma>) log"
proof -
  from xm_inv_call [OF inv c] obtain k v where op: "op = XSwap k v"
    and e: "entry_of (xm \<sigma>) k = Some e" "heap (xm \<sigma>) e \<noteq> PExpunged"
    using typed_op(2) by fastforce
  from step have s: "pc' = XUnlock False (GotValue (cell_value (heap (xm \<sigma>) e)))"
    "m' = write_slot e (PVal (t, v)) (xm \<sigma>)"
    by (auto simp: op swap_step_def)
  show ?thesis
    unfolding s using current_write [OF inv e, of t v]
    by (intro logged_effect [OF inv lin c]) (simp_all add: op contents_entry [OF e(1)])
qed

lemma log_unexpunge:
  assumes inv: "xm_inv \<sigma>" and lin: "lin_inv \<sigma> log" and c: "calls \<sigma> t = Some (Op op, XUnexpunge e)"
    and step: "op_step t op (XUnexpunge e) (xm \<sigma>) (holder \<sigma>) = Some (pc', m', mu')"
  shows "logged (stepped t (Op op) pc' m' mu' \<sigma>) log"
proof -
  from xm_inv_call [OF inv c] have e: "map_of (read_m (xm \<sigma>)) (key_of op) = Some e"
    and i: "xinv0 (xm \<sigma>)" by auto
  obtain m1 where m1: "unexpunge_step op e (xm \<sigma>) =
      Some (case op of XSwap k v \<Rightarrow> XSwapEntry e | _ \<Rightarrow> XLosLoad Locked e, m1)"
    "sh_step (xm \<sigma>) m1" "xabs m1 = xabs (xm \<sigma>)" "entry_of m1 = entry_of (xm \<sigma>)"
    "\<And>e. detached (xm \<sigma>) e \<Longrightarrow> heap m1 e = heap (xm \<sigma>) e"
    by (rule unexpunge_step_effect [OF i e]) blast
  from step m1(1) have s: "m' = m1" "pc' = (case op of XSwap k v \<Rightarrow> XSwapEntry e | _ \<Rightarrow> XLosLoad Locked e)"
    by auto
  have "loses {} (xm \<sigma>) m'" using m1 by (intro losesI) (simp_all add: s)
  moreover have "contents m' = contents (xm \<sigma>)" by (simp add: s fun_eq_iff contents_def m1(3))
  ultimately show ?thesis
    by (intro logged_quiet [OF inv lin c]) (simp_all add: s(2) split: xop.split)
qed

lemma log_unlock:
  assumes inv: "xm_inv \<sigma>" and lin: "lin_inv \<sigma> log" and c: "calls \<sigma> t = Some (Op op, XUnlock miss r)"
    and step: "op_step t op (XUnlock miss r) (xm \<sigma>) (holder \<sigma>) = Some (pc', m', mu')"
  shows "logged (stepped t (Op op) pc' m' mu' \<sigma>) log"
proof -
  from xm_inv_call [OF inv c] have i: "xinv0 (xm \<sigma>)" and d: "miss \<Longrightarrow> dirty (xm \<sigma>) \<noteq> None" by auto
  from step have s: "pc' = XReturn r" "m' = (if miss then missLocked (xm \<sigma>) else xm \<sigma>)"
    by (auto simp: unlock_step_def)
  show ?thesis
    unfolding s(1) using loses_miss [OF i d]
    by (intro logged_quiet [OF inv lin c]) (auto simp: s(2))
qed

lemma log_expunge:
  assumes inv: "xm_inv \<sigma>" and lin: "lin_inv \<sigma> log" and c: "calls \<sigma> t = Some (Op op, pc)"
    and pc: "pc = XExpunge xs \<and> xs \<noteq> [] \<or> pc = XExpungeCas xs"
    and step: "op_step t op pc (xm \<sigma>) (holder \<sigma>) = Some (pc', m', mu')"
  shows "logged (stepped t (Op op) pc' m' mu' \<sigma>) log"
proof -
  from xm_inv_call [OF inv c] pc have ok: "loop_ok xs (xm \<sigma>)" and ne: "xs \<noteq> []" by auto
  then obtain k e rest where xs: "xs = (k, e) # rest" by (cases xs) auto
  note ok = ok [unfolded xs]
  have "(m' = xm \<sigma> \<or> m' = (xm \<sigma>)\<lparr>dirty := map_option (AList.update k e) (dirty (xm \<sigma>))\<rparr> \<or>
      heap (xm \<sigma>) e = PNil \<and> m' = write_slot e PExpunged (xm \<sigma>)) \<and>
    (\<exists>ys. pc' = XExpunge ys \<or> pc' = XExpungeCas ys)"
    using pc step
    by (auto simp: xs expunge_load_def expunge_cas_def cas_slot_def split: slot.splits if_splits)
  moreover from this have "loses {} (xm \<sigma>) m' \<and> contents m' = contents (xm \<sigma>)"
    using loses_loop_copy [OF ok] loses_loop_expunge [OF ok] by auto
  ultimately show ?thesis using pc by (intro logged_quiet [OF inv lin c]) auto
qed

lemma log_insert:
  assumes inv: "xm_inv \<sigma>" and lin: "lin_inv \<sigma> log" and c: "calls \<sigma> t = Some (Op op, pc)"
    and op: "op = XSwap k v \<or> op = XLoadOrStore k v" and pc: "pc = XLock \<or> pc = XExpunge []"
    and m1: "xinv0 m1" "amended m1" "loses {} (xm \<sigma>) m1" "contents m1 = contents (xm \<sigma>)"
    and fresh: "map_of (read_m m1) k = None" "dirty_lookup m1 k = None"
    and step: "insert_entry t k v (added_ret op) m1 = Some (pc', m', mu')"
  shows "logged (stepped t (Op op) pc' m' mu' \<sigma>) log"
proof -
  obtain m2 where m2: "insert_entry t k v (added_ret op) m1 = Some (XReturn (added_ret op), m2, None)"
    "sh_step m1 m2" "xabs m2 = (xabs m1)(k \<mapsto> (t, v))"
    "\<And>k e. entry_of m1 k = Some e \<Longrightarrow> entry_of m2 k = Some e"
    "\<And>e. detached m1 e \<Longrightarrow> heap m2 e = heap m1 e"
    by (rule insert_step [OF m1(1,2) fresh]) blast
  from step m2(1) have s: "pc' = XReturn (added_ret op)" "m' = m2" by auto
  have none: "contents (xm \<sigma>) k = None"
    using fresh by (simp add: m1(4) [symmetric] contents_eq entry_of_def)
  have con: "contents m' = (contents (xm \<sigma>))(k \<mapsto> v)"
    using contents_insert [OF m2(3)] by (simp add: s m1(4))
  have "loses {} (xm \<sigma>) m'"
    unfolding s by (rule loses_trans [OF m1(3) losesI m1(4)]) (use m2 in simp_all)
  then show ?thesis
    using op pc con none unfolding s(1) by (intro logged_effect [OF inv lin c]) auto
qed

lemma log_expunge_end:
  assumes inv: "xm_inv \<sigma>" and lin: "lin_inv \<sigma> log" and c: "calls \<sigma> t = Some (Op op, XExpunge [])"
    and step: "op_step t op (XExpunge []) (xm \<sigma>) (holder \<sigma>) = Some (pc', m', mu')"
  shows "logged (stepped t (Op op) pc' m' mu' \<sigma>) log"
proof -
  from xm_inv_call [OF inv c] have ok: "loop_ok [] (xm \<sigma>)"
    and none: "map_of (read_m (xm \<sigma>)) (key_of op) = None" and ty: "is_swap (Op op) \<or> is_los (Op op)" by auto
  from ty obtain k v where op: "op = XSwap k v \<or> op = XLoadOrStore k v"
    using typed_op(2,3) by fastforce
  have k: "key_of op = k" "new_value op = Some v" using op by auto
  let ?m = "(xm \<sigma>)\<lparr>amended := True\<rparr>"
  note e = loop_end_step [OF ok] and l = loses_loop_end [OF ok]
  have "dirty_lookup ?m k = None" using e(3) none k by (simp add: dirty_lookup_def)
  moreover have "insert_entry t k v (added_ret op) ?m = Some (pc', m', mu')"
    using step k by (simp add: amend_and_insert_def)
  ultimately show ?thesis
    using none k by (intro log_insert [OF inv lin c op _ e(1) _ l]) simp_all
qed

section \<open>Taking the mutex\<close>

lemma log_lock_lookup:
  assumes inv: "xm_inv \<sigma>" and lin: "lin_inv \<sigma> log" and c: "calls \<sigma> t = Some (Op op, XLock)"
    and i: "xinv0 (xm \<sigma>)" and op: "op = XLoad k \<or> op = XCompareAndDelete k old"
    and step: "op_step t op XLock (xm \<sigma>) (holder \<sigma>) = Some (pc', m', mu')"
  shows "logged (stepped t (Op op) pc' m' mu' \<sigma>) log"
proof -
  let ?e = "if map_of (read_m (xm \<sigma>)) k = None \<and> amended (xm \<sigma>) then dirty_lookup (xm \<sigma>) k
    else map_of (read_m (xm \<sigma>)) k"
  have am: "amended (xm \<sigma>) \<Longrightarrow> dirty (xm \<sigma>) \<noteq> None" using xinv0_dirty [OF i] by auto
  have e: "entry_of (xm \<sigma>) k = ?e"
    using not_amended_lookup [OF i, of k] by (auto simp: entry_of_def split: option.split)
  have m': "m' = xm \<sigma> \<or> dirty (xm \<sigma>) \<noteq> None \<and> m' = missLocked (xm \<sigma>)"
    and pc': "pc' = (case ?e of None \<Rightarrow> XReturn (absent_ret op)
      | Some e \<Rightarrow> (case op of XLoad k \<Rightarrow> XEntryLoad e | _ \<Rightarrow> XDelLoad False e))"
    using op step am by (auto simp: Load_locked_def CompareAndDelete_locked_def split: option.splits if_splits)
  have l: "loses {} (xm \<sigma>) m'" "contents m' = contents (xm \<sigma>)"
    using m' loses_miss [OF i] by auto
  have k: "key_of op = k" "absent_reader op" using op by auto
  show ?thesis
  proof (cases ?e)
    case None
    then have "contents (xm \<sigma>) k = None" using e by (simp add: contents_none)
    with None k show ?thesis
      unfolding pc' by (intro logged_absent_now [OF inv lin c _ _ l]) simp_all
  next
    case (Some e')
    then have cur: "entry_of (xm \<sigma>) k = Some e'" using e by simp
    have r: "reads k e' (xm \<sigma>)" and j: "justified t (Op op) k e' \<sigma> log"
      using cur by (auto simp: reads_def justified_def dest: detached_entry)
    have "justified t (Op op) k e' (stepped t (Op op) pc' m' mu' \<sigma>) log"
      by (rule justified_stepped [OF inv lin c l(1) _ r j]) simp
    then show ?thesis
      using op Some by (intro logged_quiet [OF inv lin c _ _ l]) (auto simp: pc' owned_effect_def)
  qed
qed

lemma log_lock_cas:
  assumes inv: "xm_inv \<sigma>" and lin: "lin_inv \<sigma> log"
    and c: "calls \<sigma> t = Some (Op (XCompareAndSwap k old new), XLock)"
    and step: "op_step t (XCompareAndSwap k old new) XLock (xm \<sigma>) (holder \<sigma>) = Some (pc', m', mu')"
  shows "logged (stepped t (Op (XCompareAndSwap k old new)) pc' m' mu' \<sigma>) log"
proof (cases "entry_of (xm \<sigma>) k")
  case None
  then have s: "m' = xm \<sigma>" "pc' = XReturn (GotBool False)"
    using step by (auto simp: CompareAndSwap_locked_def entry_of_def split: option.splits)
  show ?thesis
    unfolding s using contents_none [OF None]
    by (intro logged_absent_now [OF inv lin c _ _ loses_refl]) simp_all
next
  case (Some e)
  then have s: "m' = xm \<sigma>" "\<exists>h. pc' = XCasLoad h e"
    using step by (auto simp: CompareAndSwap_locked_def entry_of_def split: option.splits)
  then show ?thesis
    using justified_now [OF Some] by (intro logged_quiet [OF inv lin c]) auto
qed

lemma log_lock_store:
  assumes inv: "xm_inv \<sigma>" and lin: "lin_inv \<sigma> log" and c: "calls \<sigma> t = Some (Op op, XLock)"
    and i: "xinv0 (xm \<sigma>)" and op: "op = XSwap k v \<or> op = XLoadOrStore k v"
    and step: "op_step t op XLock (xm \<sigma>) (holder \<sigma>) = Some (pc', m', mu')"
  shows "logged (stepped t (Op op) pc' m' mu' \<sigma>) log"
proof (cases "map_of (read_m (xm \<sigma>)) k = None \<and> dirty_lookup (xm \<sigma>) k = None")
  case True
  then have add: "add_locked t k v (added_ret op) (xm \<sigma>) = Some (pc', m', mu')"
    using op step by (auto simp: Swap_locked_def LoadOrStore_locked_def)
  show ?thesis
  proof (cases "amended (xm \<sigma>)")
    case am: True
    then show ?thesis
      using add True
      by (intro log_insert [OF inv lin c op _ i am loses_refl]) (simp_all add: add_locked_def)
  next
    case False
    have "pc' = XExpunge (read_m (xm \<sigma>)) \<and> m' = (xm \<sigma>)\<lparr>dirty := Some []\<rparr>"
      using add False loop_start_step(3) [OF i False] by (simp add: add_locked_def)
    then show ?thesis
      using loses_loop_start [OF i False] by (intro logged_quiet [OF inv lin c]) auto
  qed
next
  case False
  then have "m' = xm \<sigma> \<and> (\<exists>e. pc' = XUnexpunge e \<or> pc' = XSwapEntry e \<or> pc' = XLosLoad LockedMiss e)"
    using op step by (auto simp: Swap_locked_def LoadOrStore_locked_def split: option.splits)
  then show ?thesis by (intro logged_quiet [OF inv lin c]) auto
qed

lemma log_lock_delete:
  assumes inv: "xm_inv \<sigma>" and lin: "lin_inv \<sigma> log"
    and c: "calls \<sigma> t = Some (Op (XLoadAndDelete k), XLock)" and i: "xinv0 (xm \<sigma>)"
    and step: "op_step t (XLoadAndDelete k) XLock (xm \<sigma>) (holder \<sigma>) = Some (pc', m', mu')"
  shows "logged (stepped t (Op (XLoadAndDelete k)) pc' m' mu' \<sigma>) log"
proof (cases "map_of (read_m (xm \<sigma>)) k = None \<and> amended (xm \<sigma>)")
  case False
  show ?thesis
  proof (cases "map_of (read_m (xm \<sigma>)) k")
    case None
    with False have "entry_of (xm \<sigma>) k = None"
      using not_amended_lookup [OF i, of k] by (simp add: entry_of_def)
    moreover have "m' = xm \<sigma> \<and> pc' = XReturn (GotValue None)"
      using None False step by (auto simp: LoadAndDelete_locked_def)
    ultimately show ?thesis
      using contents_none by (intro logged_absent_now [OF inv lin c]) auto
  next
    case (Some e)
    then have "m' = xm \<sigma> \<and> pc' = XDelLoad False e"
      using step by (auto simp: LoadAndDelete_locked_def)
    then show ?thesis
      using justified_now [OF read_entry [OF Some]]
      by (intro logged_quiet [OF inv lin c]) (auto simp: owned_effect_def)
  qed
next
  case True
  obtain d where d: "dirty (xm \<sigma>) = Some d" using xinv0_dirty [OF i] True by blast
  from True have k: "map_of (read_m (xm \<sigma>)) k = None" by simp
  let ?m = "(xm \<sigma>)\<lparr>dirty := Some (AList.delete k d)\<rparr>"
  have m': "m' = missLocked ?m"
    and pc': "pc' = (case dirty_lookup (xm \<sigma>) k of None \<Rightarrow> XReturn (GotValue None) | Some e \<Rightarrow> XDelLoad True e)"
    using step True d by (auto simp: LoadAndDelete_locked_def Let_def split: option.splits)
  show ?thesis
  proof (cases "dirty_lookup (xm \<sigma>) k")
    case None
    note dd = drop_dirty_step [OF i d k] and de = drop_dirty_entry [OF i d k]
    have none: "entry_of (xm \<sigma>) k = None" using k None by (simp add: entry_of_def)
    have eo: "entry_of ?m = entry_of (xm \<sigma>)" using none by (simp add: fun_eq_iff de(2))
    have l1: "loses {} (xm \<sigma>) ?m" by (rule losesI) (simp_all add: dd(2) eo)
    have c1: "contents ?m = contents (xm \<sigma>)" by (rule contents_same) (simp_all add: eo)
    have d1: "dirty ?m \<noteq> None" by simp
    note lm = loses_miss [OF dd(1) d1]
    have "loses {} (xm \<sigma>) m'" "contents m' = contents (xm \<sigma>)"
      unfolding m' using loses_trans [OF l1 lm(1) c1] lm(2) c1 by simp_all
    then show ?thesis
      using contents_none [OF none] None pc'
      by (intro logged_absent_now [OF inv lin c]) simp_all
  next
    case (Some e)
    note ldm = loses_drop_miss [OF i d k Some, folded m']
    have e: "entry_of (xm \<sigma>) k = Some e" by (rule dirty_entry [OF k Some])
    have nd: "\<not> detached (xm \<sigma>) e'" if "e' \<in> {e}" for e' using that e by (auto dest: detached_entry)
    have p: "pc' = XDelLoad True e" by (simp add: pc' Some)
    have key: "k1 = k" if "entry_of (xm \<sigma>) k1 = Some e" for k1
      using entry_key [OF xm_inv_base [OF inv] e that] .
    have legal: "replay log Map.empty = Some (contents (xm \<sigma>))" using lin by (simp add: lin_inv_def)
    show ?thesis
    proof (cases "cell_value (heap (xm \<sigma>) e)")
      case None
      then have abs: "contents (xm \<sigma>) k = None" by (simp add: contents_entry [OF e])
      have seen: "seen t1 k None log" if "Invoke t1 c1 \<in> set log" for t1 c1
        by (rule seen_now [OF that legal abs])
      have "lost_justified {e} t \<sigma> (stepped t (Op (XLoadAndDelete k)) pc' m' mu' \<sigma>) log log"
        unfolding lost_justified_def
        using seen key nd ldm(4) None by (auto simp: justified_def reads_def)
      then have "lin_inv (stepped t (Op (XLoadAndDelete k)) pc' m' mu' \<sigma>) log"
        using ldm abs None seen [OF lin_inv_invoked [OF lin c]]
        by (intro lin_quiet [OF inv lin c _ _ ldm(1) nd]) (simp_all add: p owned_effect_def fun_upd_idem)
      then show ?thesis by (rule loggedI) simp
    next
      case (Some v)
      then have val: "contents (xm \<sigma>) k = Some v" by (simp add: contents_entry [OF e])
      let ?E = "Effect t (XLoadAndDelete k) (GotValue (Some v))"
      have "lost_justified {e} t \<sigma> (stepped t (Op (XLoadAndDelete k)) pc' m' mu' \<sigma>) log (log @ [?E])"
        unfolding lost_justified_def
      proof (intro allI impI)
        fix t1 c1 e1 k1
        assume a: "t1 \<noteq> t" "e1 \<in> {e}" "Invoke t1 c1 \<in> set log" "reads k1 e1 (xm \<sigma>)"
        then have "k1 = k" using nd key by (auto simp: reads_def)
        with a Some show "justified t1 c1 k1 e1
            (stepped t (Op (XLoadAndDelete k)) pc' m' mu' \<sigma>) (log @ [?E])"
          unfolding justified_def
          by (auto simp: ldm(4) p intro!: exI [of _ t] precedes_last)
      qed
      then have "lin_inv (stepped t (Op (XLoadAndDelete k)) pc' m' mu' \<sigma>) (log @ [?E])"
        using ldm val Some
        by (intro lin_effect [OF inv lin c _ _ ldm(1) nd]) (simp_all add: p owned_effect_def)
      then show ?thesis by (rule loggedI) simp
    qed
  qed
qed

section \<open>Range\<close>

lemma range_entries_justified:
  assumes "wf_map (read_m m')" "ord_ok ord"
  shows "\<forall>(k, e) \<in> set (ord (read_m m')). justified t c k e (stepped t c' pc' m' mu' \<sigma>) log"
  using assms by (auto simp: ord_ok_set wf_map_def intro!: justified_now read_entry)

lemma log_range:
  assumes inv: "xm_inv \<sigma>" and lin: "lin_inv \<sigma> log" and c: "calls \<sigma> t = Some (XRange ord f, pc)"
    and cs: "can_step pc (holder \<sigma>)" and i: "pc = XLock \<Longrightarrow> xinv0 (xm \<sigma>)"
    and step: "range_step ord f pc (xm \<sigma>) (holder \<sigma>) = Some (pc', m', mu')"
  shows "logged (stepped t (XRange ord f) pc' m' mu' \<sigma>) log"
proof -
  from xm_inv_call [OF inv c] have ord: "ord_ok ord" by simp
  show ?thesis
  proof (cases pc)
    case XStart
    have "wf_map (read_m (xm \<sigma>))" using xm_inv_base [OF inv] by (simp add: base_ok_def)
    from range_entries_justified [OF this ord] step XStart show ?thesis
      by (intro logged_quiet [OF inv lin c])
        (auto simp: Range_first_def pairs_seen_def split: if_splits)
  next
    case XLock
    note i = i [OF XLock]
    from step XLock have m': "m' = (if amended (xm \<sigma>) then promote (xm \<sigma>) else xm \<sigma>)"
      and pc': "pc' = XRangeLoop (ord (read_m m')) []" by (auto simp: Range_locked_def Let_def)
    have l: "loses {} (xm \<sigma>) m'" "contents m' = contents (xm \<sigma>)"
      using loses_promote [OF i] xinv0_dirty [OF i] by (auto simp: m')
    have "wf_map (read_m m')"
      using i promote_step(1) [OF i] xinv0_dirty [OF i] by (auto simp: m' xinv0_def)
    from range_entries_justified [OF this ord] show ?thesis
      using XLock by (intro logged_quiet [OF inv lin c _ _ l]) (auto simp: pc' pairs_seen_def)
  next
    case (XRangeLoop xs acc)
    from step XRangeLoop have m': "m' = xm \<sigma>" and pc': "pc' = Range_visit f xs acc (xm \<sigma>)" by auto
    have legal: "replay log Map.empty = Some (contents (xm \<sigma>))" using lin by (simp add: lin_inv_def)
    note fa = xm_inv_call [OF inv c] and lf = lin_inv_call [OF lin c]
    have vis: "seen t k (Some v) log"
      if "(k, e) \<in> set xs" "cell_value (heap (xm \<sigma>) e) = Some v" for k e v
    proof (cases "entry_of (xm \<sigma>) k = Some e")
      case True
      show ?thesis
        using contents_entry [OF True] that(2)
        by (intro seen_now [OF lin_inv_invoked [OF lin c] legal]) simp
    next
      case False
      with fa that(1) have "detached (xm \<sigma>) e" by (auto simp: XRangeLoop reads_def)
      with lf that show ?thesis
        by (auto simp: XRangeLoop justified_def dest!: bspec [of _ _ "(k, e)"]
            intro: precedes_deletion(1) [OF _ legal])
    qed
    have carry: "justified t (XRange ord f) k e (stepped t (XRange ord f) pc' m' mu' \<sigma>) log"
      if "(k, e) \<in> set xs" for k e
      unfolding m' using fa lf that
      by (intro justified_stepped [OF inv lin c loses_refl]) (auto simp: XRangeLoop)
    have acc: "pairs_seen t acc log" using lf by (simp add: XRangeLoop)
    have nr: "\<not> responded pc'"
      unfolding pc' Range_visit_def by (auto split: list.split option.split prod.split)
    have "log_facts t (XRange ord f) pc' (stepped t (XRange ord f) pc' m' mu' \<sigma>) log"
    proof (cases xs)
      case Nil
      then show ?thesis using acc by (simp add: pc' Range_visit_def)
    next
      case (Cons x rest)
      obtain k e where x: "x = (k, e)" by (cases x)
      have "pairs_seen t (acc @ [(k, v)]) log" if "cell_value (heap (xm \<sigma>) e) = Some v" for v
        using acc vis [of k e v] that by (auto simp: pairs_seen_def Cons x)
      then show ?thesis
        using acc carry unfolding pc' Range_visit_def
        by (cases "cell_value (heap (xm \<sigma>) e)") (auto simp: Cons x)
    qed
    then show ?thesis
      using m' nr XRangeLoop by (intro logged_quiet [OF inv lin c]) auto
  qed (use step in auto)
qed

section \<open>Every step of a run\<close>

lemma log_op:
  assumes inv: "xm_inv \<sigma>" and lin: "lin_inv \<sigma> log" and c: "calls \<sigma> t = Some (Op op, pc)"
    and i: "pc = XLock \<Longrightarrow> xinv0 (xm \<sigma>)"
    and step: "op_step t op pc (xm \<sigma>) (holder \<sigma>) = Some (pc', m', mu')"
  shows "logged (stepped t (Op op) pc' m' mu' \<sigma>) log"
proof (cases pc)
  case XLock
  note i = i [OF XLock] and c = c [unfolded XLock] and step = step [unfolded XLock]
  show ?thesis
  proof (cases op)
    case (XCompareAndSwap k old new)
    then show ?thesis using log_lock_cas [OF inv lin] c step by simp
  next
    case (XLoadAndDelete k)
    then show ?thesis using log_lock_delete [OF inv lin _ i] c step by simp
  qed (use log_lock_lookup [OF inv lin c i _ step] log_lock_store [OF inv lin c i _ step] in auto)
next
  case (XExpunge xs)
  then show ?thesis
    using log_expunge_end [OF inv lin] log_expunge [OF inv lin c _ step] c step by (cases "xs = []") auto
next
  case (XExpungeCas xs)
  then show ?thesis using log_expunge [OF inv lin c _ step] by simp
next
  case (XTrySwap e)
  then show ?thesis using log_trySwap [OF inv lin c _ step] by simp
next
  case (XTrySwapCas e p)
  then show ?thesis using log_trySwap [OF inv lin c _ step] by simp
next
  case (XCasLoad h e)
  then show ?thesis using log_tryCas [OF inv lin c _ step] by simp
next
  case (XCasCas h e p)
  then show ?thesis using log_tryCas [OF inv lin c _ step] by simp
next
  case (XLosLoad h e)
  then show ?thesis using log_tryLos [OF inv lin c _ step] by simp
next
  case (XLosCas h e)
  then show ?thesis using log_tryLos [OF inv lin c _ step] by simp
next
  case XStart
  show ?thesis by (rule log_first [OF inv lin c [unfolded XStart] step [unfolded XStart]])
next
  case (XEntryLoad e)
  show ?thesis by (rule log_entry_load [OF inv lin c [unfolded XEntryLoad] step [unfolded XEntryLoad]])
next
  case (XDelLoad own e)
  show ?thesis by (rule log_delete_load [OF inv lin c [unfolded XDelLoad] step [unfolded XDelLoad]])
next
  case (XDelCas own e p)
  show ?thesis by (rule log_delete_cas [OF inv lin c [unfolded XDelCas] step [unfolded XDelCas]])
next
  case (XUnexpunge e)
  show ?thesis by (rule log_unexpunge [OF inv lin c [unfolded XUnexpunge] step [unfolded XUnexpunge]])
next
  case (XSwapEntry e)
  show ?thesis by (rule log_swap_entry [OF inv lin c [unfolded XSwapEntry] step [unfolded XSwapEntry]])
next
  case (XUnlock miss r)
  show ?thesis by (rule log_unlock [OF inv lin c [unfolded XUnlock] step [unfolded XUnlock]])
qed (use step in auto)

text \<open>A step that changes only its own program point.\<close>

lemma lin_inv_point:
  assumes inv: "xm_inv \<sigma>" and lin: "lin_inv \<sigma> log"
    and old: "\<And>p e. calls \<sigma> t = Some p \<Longrightarrow> \<not> owns p e"
    and ev: "event_call y = t" "is_external y"
    and mine: "events_of t log @ [y] = call_log t c pc' (xm \<sigma>)"
      "log_facts t c pc' (set_pc t c pc' \<sigma>) (log @ [y])"
  shows "lin_inv (set_pc t c pc' \<sigma>) (log @ [y])"
proof -
  let ?s = "set_pc t c pc' \<sigma>"
  have k: "keeps_owners {} \<sigma> ?s" using old by (auto simp: keeps_owners_def)
  have "events_of t1 (log @ [y]) = call_log t1 c1 pc1 (xm ?s) \<and> log_facts t1 c1 pc1 ?s (log @ [y])"
    if "calls ?s t1 = Some (c1, pc1)" for t1 c1 pc1
  proof (cases "t1 = t")
    case True
    with that mine ev show ?thesis by simp
  next
    case False
    with that have "calls \<sigma> t1 = Some (c1, pc1)" by simp
    from others_carry [OF inv lin this False, of "{}" "{}" ?s "log @ [y]"] k ev False
    show ?thesis by simp
  qed
  moreover have "events_of t1 (log @ [y]) = []" if "calls ?s t1 = None" for t1
    using that ev lin by (auto simp: lin_inv_def split: if_splits)
  moreover have "replay (log @ [y]) Map.empty = Some (contents (xm ?s))"
    using lin ev(2) by (cases y) (auto simp: lin_inv_def replay_append)
  ultimately show ?thesis by (simp add: lin_inv_def)
qed

lemma lin_step:
  assumes step: "xm_step call_ok \<sigma> l \<sigma>'" and inv: "xm_inv \<sigma>" and lin: "lin_inv \<sigma> log"
  shows "\<exists>log'. lin_inv \<sigma>' log' \<and> external log' = external log @ l"
  using step
proof cases
  case (invoke t c)
  have "events_of t log = []" using lin invoke(3) by (simp add: lin_inv_def)
  moreover have "log_facts t c XStart (set_pc t c XStart \<sigma>) (log @ [Invoke t c])" by (cases c) auto
  ultimately have "lin_inv (set_pc t c XStart \<sigma>) (log @ [Invoke t c])"
    using invoke(3) by (intro lin_inv_point [OF inv lin]) (auto simp: call_log_def)
  with invoke show ?thesis by (intro exI [of _ "log @ [Invoke t c]"]) simp
next
  case (respond t c r)
  note f = lin_inv_call [OF lin respond(3)]
  have "log_facts t c (XDone r) (set_pc t c (XDone r) \<sigma>) (log @ [Respond t r])"
    using f ret_seen_grows [OF log_grows_append] by (cases c) auto
  moreover have "events_of t log @ [Respond t r] = call_log t c (XDone r) (xm \<sigma>)"
    using f by (simp add: call_log_def)
  ultimately have "lin_inv (set_pc t c (XDone r) \<sigma>) (log @ [Respond t r])"
    using respond(3) by (intro lin_inv_point [OF inv lin]) auto
  with respond show ?thesis by (intro exI [of _ "log @ [Respond t r]"]) simp
next
  case (access t c pc pc' m' mu')
  have i: "xinv0 (xm \<sigma>)" if "pc = XLock"
    using access(4) inv that by (simp add: xm_inv_def)
  have "logged (stepped t c pc' m' mu' \<sigma>) log"
  proof (cases c)
    case (Op op)
    then show ?thesis using log_op [OF inv lin _ i] access(3,5) by simp
  next
    case (XRange ord f)
    then show ?thesis using log_range [OF inv lin _ _ i] access(3-5) by simp
  qed
  with access show ?thesis by (simp add: logged_def stepped_def)
qed

lemma xm_run_log:
  assumes "xm_run call_ok h \<sigma>"
  shows "\<exists>log. lin_inv \<sigma> log \<and> external log = h"
  using assms
proof (induction rule: xm_run.induct)
  case run_init
  show ?case using lin_inv_init by (intro exI [of _ "[]"]) simp
next
  case (run_step h \<sigma> l \<sigma>')
  then obtain log where "lin_inv \<sigma> log" "external log = h" by blast
  with lin_step [OF run_step(2) xm_run_inv [OF run_step(1)]] show ?case by auto
qed

end
