(* ===== verification/XsyncConcAlone.thy ===== *)
theory XsyncConcAlone
  imports XsyncConcInv
begin

text \<open>
  A goroutine that is not disturbed: it finishes its call after a number of steps that is
  linear in the size of the two maps, from every state in which no other goroutine has the
  mutex; and from the start of a call it does what the whole-method definitions of
  \<open>XsyncMap\<close> say.
\<close>

section \<open>The number of steps left\<close>

definition lock_rank :: "('k, 'v) xmap \<Rightarrow> nat" where
  "lock_rank m = 6 + 2 * length (read_m m) + dirty_len m"

fun rank :: "('k, 'v) shared \<Rightarrow> ('k, 'v) xpc \<Rightarrow> nat" where
  "rank m XStart = lock_rank m + 2"
| "rank m XLock = lock_rank m"
| "rank m (XEntryLoad e) = 2"
| "rank m (XDelLoad own e) = 3"
| "rank m (XDelCas own e p) = (if heap m e = p then 2 else 4)"
| "rank m (XTrySwap e) = lock_rank m + 1"
| "rank m (XTrySwapCas e p) = (if heap m e = p then 2 else lock_rank m + 2)"
| "rank m (XCasLoad h e) = 4"
| "rank m (XCasCas h e p) = (if heap m e = p then 3 else 5)"
| "rank m (XLosLoad h e) = (if h = NoLock then lock_rank m + 1 else 4)"
| "rank m (XLosCas h e) = (if heap m e = PNil then 3 else if h = NoLock then lock_rank m + 2 else 5)"
| "rank m (XUnexpunge e) = 5"
| "rank m (XSwapEntry e) = 3"
| "rank m (XExpunge xs) = 2 + 2 * length xs"
| "rank m (XExpungeCas xs) = (if heap m (snd (hd xs)) = PNil then 1 else 3) + 2 * length xs"
| "rank m (XUnlock miss r) = 2"
| "rank m (XRangeLoop xs acc) = 2 + length xs"
| "rank m (XReturn r) = 1"
| "rank m (XDone r) = 0"

lemma lock_rank_ge: "6 \<le> lock_rank m" "2 * length (read_m m) + 6 \<le> lock_rank m"
  by (simp_all add: lock_rank_def)

lemma rank_entry_done [simp]: "3 \<le> n \<Longrightarrow> rank m (entry_done h r) < n"
  by (cases h) auto

lemma rank_bound: "rank m XStart \<le> 8 + 2 * length (read_m m) + dirty_len m"
  by (simp add: lock_rank_def)

lemma op_rank_unlocked:
  assumes "op_step t op pc m mu = Some (pc', m', mu')" "pc \<noteq> XLock" "pc_typed (Op op) pc"
  shows "rank m' pc' < rank m pc"
proof (cases pc)
  case XStart
  with assms lock_rank_ge [of m] show ?thesis
    by (cases op) (auto simp: keeping_def Load_first_def Swap_first_def LoadOrStore_first_def
        LoadAndDelete_first_def CompareAndSwap_first_def CompareAndDelete_first_def
        split: option.splits if_splits)
next
  case (XCasLoad h e)
  with assms show ?thesis
    by (auto simp: keeping_def tryCompareAndSwap_load_def split: if_splits)
next
  case (XCasCas h e p)
  with assms show ?thesis
    by (cases h) (auto simp: keeping_def tryCompareAndSwap_cas_def cas_slot_def bind_eq_Some_conv split: if_splits)
next
  case (XLosLoad h e)
  with assms lock_rank_ge [of m] show ?thesis
    by (auto simp: keeping_def tryLoadOrStore_load_def split: slot.splits if_splits)
next
  case (XLosCas h e)
  with assms lock_rank_ge [of m] show ?thesis
    by (cases h) (auto simp: keeping_def tryLoadOrStore_cas_def cas_slot_def bind_eq_Some_conv split: if_splits)
next
  case (XUnexpunge e)
  with assms show ?thesis
    by (cases op) (auto simp: keeping_def unexpunge_step_def bind_eq_Some_conv split: prod.splits if_splits)
next
  case (XExpunge xs)
  with assms show ?thesis
    by (cases xs) (auto simp: keeping_def amend_and_insert_def insert_entry_def newEntry_def expunge_load_def
        bind_eq_Some_conv split: prod.splits slot.splits)
next
  case (XExpungeCas xs)
  with assms show ?thesis
    by (cases xs) (auto simp: keeping_def expunge_cas_def cas_slot_def split: if_splits)
qed (use assms lock_rank_ge [of m] in \<open>auto simp: keeping_def load_entry_def delete_load_def delete_cas_def
    cas_slot_def trySwap_load_def trySwap_cas_def swap_step_def unlock_step_def bind_eq_Some_conv
    split: if_splits\<close>)

lemma op_rank_lock:
  assumes "op_step t op XLock m mu = Some (pc', m', mu')"
  shows "rank m' pc' < rank m XLock"
  using assms lock_rank_ge [of m]
  by (cases op) (auto simp: Load_locked_def Swap_locked_def LoadOrStore_locked_def
      LoadAndDelete_locked_def CompareAndSwap_locked_def CompareAndDelete_locked_def add_locked_def
      insert_entry_def newEntry_def Let_def bind_eq_Some_conv
      split: option.splits if_splits prod.splits)

lemma ord_ok_length: "ord_ok ord \<Longrightarrow> length (ord xs) = length xs"
  by (metis ord_ok_def size_mset)

lemma range_rank:
  assumes "range_step ord f pc m mu = Some (pc', m', mu')" "ord_ok ord"
  shows "rank m' pc' < rank m pc"
proof (cases pc)
  case XLock
  have "length (read_m (promote m)) = dirty_len m"
    by (simp add: promote_def dirty_len_def split: option.split)
  with assms XLock show ?thesis
    by (auto simp: Range_locked_def Let_def lock_rank_def ord_ok_length split: if_splits)
qed (use assms lock_rank_ge [of m] in \<open>auto simp: keeping_def Range_first_def Range_visit_def
    ord_ok_length split: if_splits list.splits option.splits\<close>)

lemma call_rank:
  assumes "call_step t c pc m mu = Some (pc', m', mu')" "call_ok c" "pc_typed c pc"
  shows "rank m' pc' < rank m pc"
proof (cases c)
  case (Op op)
  with assms show ?thesis using op_rank_unlocked op_rank_lock by (cases "pc = XLock") auto
next
  case (XRange ord f)
  with assms range_rank show ?thesis by auto
qed

section \<open>A call that runs alone finishes\<close>

lemma xm_exec_go:
  assumes "calls \<sigma> t = Some (c, pc)" "can_step pc (holder \<sigma>)"
    and "call_step t c pc (xm \<sigma>) (holder \<sigma>) = Some (pc', m', mu')"
  shows "xm_exec (XGo t) \<sigma> = Some ([], (set_pc t c pc' \<sigma>)\<lparr>xm := m', holder := mu'\<rparr>)"
  using assms by (cases pc) (auto split: option.splits)

fun unfinished :: "('k, 'v) xpc \<Rightarrow> bool" where
  "unfinished (XDone r) = False" | "unfinished _ = True"

text \<open>The only thing that stops a goroutine is another one that has the mutex.\<close>

lemma xm_inv_holder:
  "xm_inv \<sigma> \<Longrightarrow> holder \<sigma> = Some t \<Longrightarrow> \<exists>c pc. calls \<sigma> t = Some (c, pc) \<and> held pc"
  by (simp add: xm_inv_def)

lemma not_blocked:
  assumes inv: "xm_inv \<sigma>" and c: "calls \<sigma> t = Some (c, pc)" and u: "unfinished pc"
    and mu: "pc = XLock \<Longrightarrow> holder \<sigma> = None"
  obtains l \<sigma>' pc' where "xm_exec (XGo t) \<sigma> = Some (l, \<sigma>')" and "calls \<sigma>' t = Some (c, pc')"
    and "xm_inv \<sigma>'" and "rank (xm \<sigma>') pc' < rank (xm \<sigma>) pc"
    and "holder \<sigma>' = holder \<sigma> \<or> holder \<sigma>' = Some t \<or> holder \<sigma>' = None"
    and "(\<exists>r. pc = XReturn r \<and> pc' = XDone r \<and> l = [Respond t r]) \<or>
      l = [] \<and> call_step t c pc (xm \<sigma>) (holder \<sigma>) = Some (pc', xm \<sigma>', holder \<sigma>')"
proof (cases "\<exists>r. pc = XReturn r")
  case True
  then obtain r where r: "pc = XReturn r" by blast
  have e: "xm_exec (XGo t) \<sigma> = Some ([Respond t r], set_pc t c (XDone r) \<sigma>)" by (simp add: c r)
  from xm_step_inv [OF xm_exec_step [OF e, of call_ok] inv] have "xm_inv (set_pc t c (XDone r) \<sigma>)" by simp
  with e r that show ?thesis by simp
next
  case False
  then have cs: "can_step pc (holder \<sigma>)" using u mu by (cases pc) auto
  from xm_inv_good [OF inv c cs] obtain pc' m' mu' where
    s: "call_step t c pc (xm \<sigma>) (holder \<sigma>) = Some (pc', m', mu')"
    and h: "mu' = holder \<sigma> \<or> mu' = Some t \<or> mu' = None"
    by (auto simp: good_next_def split: option.splits if_splits)
  note f = xm_inv_call [OF inv c]
  have "rank m' pc' < rank (xm \<sigma>) pc" using call_rank [OF s] f by blast
  then show ?thesis
    by (intro that [OF xm_exec_go [OF c cs s] _ access_inv [OF inv c cs s]]) (use s h in simp_all)
qed

lemma can_go:
  assumes "xm_inv \<sigma>" "calls \<sigma> t = Some (c, pc)" "unfinished pc" "pc = XLock \<Longrightarrow> holder \<sigma> = None"
  shows "xm_exec (XGo t) \<sigma> \<noteq> None"
  by (rule not_blocked [OF assms(1-4)]) (assumption | simp only: option.distinct not_False_eq_True)+

lemma alone_finishes:
  assumes "xm_inv \<sigma>" "calls \<sigma> t = Some (c, pc)" "holder \<sigma> = None \<or> holder \<sigma> = Some t"
  shows "\<exists>n\<le>rank (xm \<sigma>) pc. \<exists>h \<sigma>' r. xm_replay (replicate n (XGo t)) \<sigma> = Some (h, \<sigma>') \<and>
           calls \<sigma>' t = Some (c, XDone r)"
  using assms
proof (induction "rank (xm \<sigma>) pc" arbitrary: \<sigma> pc rule: less_induct)
  case less
  show ?case
  proof (cases "unfinished pc")
    case False
    then obtain r where "pc = XDone r" by (cases pc) auto
    with less.prems(2) show ?thesis
      by (intro exI [of _ 0] conjI exI [of _ "[]"] exI [of _ \<sigma>] exI [of _ r]) simp_all
  next
    case True
    have free: "holder \<sigma> = None" if "pc = XLock"
      using less.prems(2,3) xm_inv_holder [OF less.prems(1)] that by auto
    obtain l \<sigma>' pc' where s: "xm_exec (XGo t) \<sigma> = Some (l, \<sigma>')" "calls \<sigma>' t = Some (c, pc')"
      "xm_inv \<sigma>'" "rank (xm \<sigma>') pc' < rank (xm \<sigma>) pc"
      "holder \<sigma>' = holder \<sigma> \<or> holder \<sigma>' = Some t \<or> holder \<sigma>' = None"
      using not_blocked [OF less.prems(1,2) True free] by blast
    have "holder \<sigma>' = None \<or> holder \<sigma>' = Some t" using s(5) less.prems(3) by auto
    from less.hyps [OF s(4,3,2) this] obtain n h \<sigma>'' r where
      n: "n \<le> rank (xm \<sigma>') pc'" "xm_replay (replicate n (XGo t)) \<sigma>' = Some (h, \<sigma>'')"
        "calls \<sigma>'' t = Some (c, XDone r)" by blast
    have "xm_replay (replicate (Suc n) (XGo t)) \<sigma> = Some (l @ h, \<sigma>'')"
      using n(2) by (simp only: replicate_Suc xm_replay.simps s(1)) simp
    with n(1,3) s(4) show ?thesis by (intro exI [of _ "Suc n"]) auto
  qed
qed

section \<open>Undisturbed, the machine does what the whole methods do\<close>

fun run_alone ::
  "nat \<Rightarrow> nat \<Rightarrow> ('k, 'v) xop \<Rightarrow> ('k, 'v) xpc \<Rightarrow> ('k, 'v) shared \<Rightarrow> nat option \<Rightarrow>
   (('k, 'v) xret \<times> ('k, 'v) shared \<times> nat option) option" where
  "run_alone 0 t op pc m mu = None"
| "run_alone (Suc n) t op pc m mu =
     (case pc of XReturn r \<Rightarrow> Some (r, m, mu)
      | _ \<Rightarrow> if can_step pc mu
        then (case op_step t op pc m mu of None \<Rightarrow> None
              | Some (pc', m', mu') \<Rightarrow> run_alone n t op pc' m' mu')
        else None)"

definition returns ::
  "nat \<Rightarrow> ('k, 'v) xop \<Rightarrow> ('k, 'v) xpc \<Rightarrow> ('k, 'v) shared \<Rightarrow> nat option \<Rightarrow>
   ('k, 'v) xret \<times> ('k, 'v) shared \<times> nat option \<Rightarrow> bool" where
  "returns t op pc m mu res \<longleftrightarrow> (\<exists>n. run_alone n t op pc m mu = Some res)"

lemma returns_return [simp]: "returns t op (XReturn r) m mu res \<longleftrightarrow> res = (r, m, mu)"
proof
  assume "returns t op (XReturn r) m mu res"
  then obtain n where "run_alone n t op (XReturn r) m mu = Some res" unfolding returns_def by blast
  then show "res = (r, m, mu)" by (cases n) auto
next
  assume "res = (r, m, mu)"
  then show "returns t op (XReturn r) m mu res" unfolding returns_def by (intro exI [of _ 1]) simp
qed

lemma run_alone_step:
  "can_step pc mu \<Longrightarrow> run_alone (Suc n) t op pc m mu =
     (case op_step t op pc m mu of None \<Rightarrow> None
      | Some (pc', m', mu') \<Rightarrow> run_alone n t op pc' m' mu')"
  by (cases pc) auto

lemma returns_step:
  assumes "can_step pc mu"
  shows "returns t op pc m mu res =
    (case op_step t op pc m mu of None \<Rightarrow> False
     | Some (pc', m', mu') \<Rightarrow> returns t op pc' m' mu' res)"
proof
  assume "returns t op pc m mu res"
  then obtain n where n: "run_alone n t op pc m mu = Some res" unfolding returns_def by blast
  then obtain n' where "n = Suc n'" by (cases n) auto
  with n assms show "case op_step t op pc m mu of None \<Rightarrow> False
     | Some (pc', m', mu') \<Rightarrow> returns t op pc' m' mu' res"
    unfolding returns_def by (auto simp: run_alone_step simp del: run_alone.simps split: option.splits)
next
  assume "case op_step t op pc m mu of None \<Rightarrow> False
     | Some (pc', m', mu') \<Rightarrow> returns t op pc' m' mu' res"
  then obtain pc' m' mu' n where "op_step t op pc m mu = Some (pc', m', mu')"
    "run_alone n t op pc' m' mu' = Some res"
    unfolding returns_def by (auto split: option.splits)
  with assms show "returns t op pc m mu res"
    unfolding returns_def by (intro exI [of _ "Suc n"]) (simp add: run_alone_step del: run_alone.simps)
qed

text \<open>The whole methods, on a map whose values are the cells that the call numbers address.\<close>

fun whole :: "nat \<Rightarrow> ('k, 'v) xop \<Rightarrow> ('k, 'v) shared \<Rightarrow> (('k, 'v) xret \<times> ('k, 'v) shared) option" where
  "whole t (XLoad k) m = (let (v, m) = Load k m in Some (GotValue (map_option snd v), m))"
| "whole t (XSwap k v) m =
     map_option (\<lambda>(p, m). (GotValue (map_option snd p), m)) (Swap k (t, v) m)"
| "whole t (XLoadOrStore k v) m =
     map_option (\<lambda>((a, l), m). (GotLoaded (map_option snd a) l, m)) (LoadOrStore k (t, v) m)"
| "whole t (XLoadAndDelete k) m =
     (let (v, m) = LoadAndDelete k m in Some (GotValue (map_option snd v), m))"
| "whole t (XCompareAndSwap k old new) m =
     (let (b, m) = CompareAndSwap k (t, old) (t, new) m in Some (GotBool b, m))"
| "whole t (XCompareAndDelete k old) m =
     (let (b, m) = CompareAndDelete k (t, old) m in Some (GotBool b, m))"

lemma cell_value_load: "cell_value (heap m e) = map_option snd (entry_load e m)"
  by (cases "heap m e") (auto simp: entry_load_def)

lemma returns_unfold:
  "can_step pc mu \<Longrightarrow> op_step t op pc m mu = Some (pc', m', mu') \<Longrightarrow>
   returns t op pc' m' mu' res \<Longrightarrow> returns t op pc m mu res"
  by (simp add: returns_step)

lemma expunge_loop_alone:
  assumes "returns t op (XExpunge []) (dirty_loop xs m) mu res"
  shows "returns t op (XExpunge xs) m mu res"
  using assms
proof (induction xs m rule: dirty_loop.induct)
  case (2 k e xs m)
  show ?case
  proof (cases "heap m e")
    case PNil
    let ?m = "write_slot e PExpunged m"
    have "returns t op (XExpunge xs) ?m mu res"
      using "2.IH" [of "(True, ?m)" True ?m] "2.prems" PNil by (simp add: tryExpungeLocked_def)
    from returns_unfold [OF _ _ this, of "XExpungeCas ((k, e) # xs)" mu m]
    have "returns t op (XExpungeCas ((k, e) # xs)) m mu res"
      by (simp add: PNil expunge_cas_def cas_slot_def keeping_def)
    from returns_unfold [OF _ _ this, of "XExpunge ((k, e) # xs)" mu m]
    show ?thesis by (simp add: PNil expunge_load_def keeping_def)
  next
    case PExpunged
    have "returns t op (XExpunge xs) m mu res"
      using "2.IH" [of "(True, m)" True m] "2.prems" PExpunged by (simp add: tryExpungeLocked_def)
    from returns_unfold [OF _ _ this, of "XExpunge ((k, e) # xs)" mu m]
    show ?thesis by (simp add: PExpunged expunge_load_def keeping_def)
  next
    case (PVal p)
    let ?m = "m\<lparr>dirty := map_option (AList.update k e) (dirty m)\<rparr>"
    have "returns t op (XExpunge xs) ?m mu res"
      using "2.IH" [of "(False, m)" False m] "2.prems" PVal by (simp add: tryExpungeLocked_def)
    from returns_unfold [OF _ _ this, of "XExpunge ((k, e) # xs)" mu m]
    show ?thesis by (simp add: PVal expunge_load_def keeping_def)
  qed
qed simp

text \<open>Adding a key that neither map has.\<close>

lemma add_alone:
  assumes op: "op = XSwap k v \<or> op = XLoadOrStore k v"
    and abs: "map_of (read_m m) k = None" "dirty_lookup m k = None"
    and w: "add_new k (t, v) m = Some m'"
  shows "returns t op XLock m None (added_ret op, m', None)"
proof -
  have lock: "op_step t op XLock m None = add_locked t k v (added_ret op) m"
    using op abs by (auto simp: Swap_locked_def LoadOrStore_locked_def)
  have k: "key_of op = k" "new_value op = Some v" using op by auto
  show ?thesis
  proof (cases "amended m")
    case True
    with w have l: "add_locked t k v (added_ret op) m = Some (XReturn (added_ret op), m', None)"
      by (simp add: add_locked_def add_new_def insert_entry_def split_beta)
    show ?thesis by (rule returns_unfold [OF _ trans [OF lock l]]) simp_all
  next
    case False
    let ?m = "if dirty m \<noteq> None then m else m\<lparr>dirty := Some []\<rparr>"
      and ?xs = "if dirty m \<noteq> None then [] else read_m m"
    have l: "add_locked t k v (added_ret op) m = Some (XExpunge ?xs, ?m, Some t)"
      using False by (simp add: add_locked_def)
    have "dirtyLocked m = dirty_loop ?xs ?m" by (simp add: dirtyLocked_def)
    with w False have "op_step t op (XExpunge []) (dirty_loop ?xs ?m) (Some t) =
        Some (XReturn (added_ret op), m', None)"
      using k by (simp add: amend_and_insert_def add_new_def insert_entry_def split_beta Let_def)
    then have "returns t op (XExpunge []) (dirty_loop ?xs ?m) (Some t) (added_ret op, m', None)"
      by (simp add: returns_step)
    from returns_unfold [OF _ trans [OF lock l] expunge_loop_alone [OF this]] show ?thesis
      by simp
  qed
qed

lemmas method_defs = keeping_def Load_first_def Swap_first_def LoadOrStore_first_def
  LoadAndDelete_first_def CompareAndSwap_first_def CompareAndDelete_first_def
  Load_locked_def Swap_locked_def LoadOrStore_locked_def LoadAndDelete_locked_def
  CompareAndSwap_locked_def CompareAndDelete_locked_def load_entry_def delete_load_def
  delete_cas_def cas_slot_def trySwap_load_def trySwap_cas_def tryCompareAndSwap_load_def
  tryCompareAndSwap_cas_def tryLoadOrStore_load_def tryLoadOrStore_cas_def swap_step_def
  unlock_step_def

lemma load_alone:
  assumes "xinv0 m"
  shows "returns t (XLoad k) XStart m None (GotValue (map_option snd (fst (Load k m))), snd (Load k m), None)"
  by (simp add: returns_step Load_def method_defs cell_value_load Let_def split: option.split)

lemma delete_alone:
  "returns t (XLoadAndDelete k) XStart m None
     (GotValue (map_option snd (fst (LoadAndDelete k m))), snd (LoadAndDelete k m), None)"
  by (simp add: returns_step LoadAndDelete_def method_defs entry_delete_def Let_def
      split: option.split slot.split)

lemma compare_delete_alone:
  "returns t (XCompareAndDelete k old) XStart m None
     (GotBool (fst (CompareAndDelete k old' m)), snd (CompareAndDelete k old' m), None)"
  by (simp add: returns_step CompareAndDelete_def method_defs Let_def split: option.split slot.split)

lemma compare_swap_alone:
  "returns t (XCompareAndSwap k old new) XStart m None
     (GotBool (fst (CompareAndSwap k old' (t, new) m)), snd (CompareAndSwap k old' (t, new) m), None)"
  by (simp add: returns_step CompareAndSwap_def method_defs tryCompareAndSwap_def Let_def
      split: option.split slot.split)

text \<open>Where the key of a storing call is found.\<close>

lemma store_cases [consumes 1, case_names read expunged dirty_only absent]:
  assumes inv: "xinv0 m"
  obtains (read) e where "map_of (read_m m) k = Some e" "heap m e \<noteq> PExpunged"
    | (expunged) e d where "map_of (read_m m) k = Some e" "heap m e = PExpunged" "dirty m = Some d"
    | (dirty_only) e where "map_of (read_m m) k = None" "dirty_lookup m k = Some e" "heap m e \<noteq> PExpunged"
    | (absent) "map_of (read_m m) k = None" "dirty_lookup m k = None"
proof (cases "map_of (read_m m) k")
  case (Some e)
  show ?thesis
  proof (cases "heap m e = PExpunged")
    case True
    with inv Some have "dirty m \<noteq> None" by (auto simp: xinv0_def clean_ok_def split: option.splits)
    with True Some expunged show ?thesis by blast
  qed (use Some read in blast)
next
  case None
  then show ?thesis
    using dirty_not_expunged [OF inv] dirty_only absent by (cases "dirty_lookup m k") auto
qed

lemma swap_alone:
  assumes inv: "xinv0 m" and w: "Swap k (t, v) m = Some (p, m')"
  shows "returns t (XSwap k v) XStart m None (GotValue (map_option snd p), m', None)"
  using inv
proof (cases rule: store_cases [where k = k])
  case (read e)
  with w show ?thesis
    by (cases "heap m e") (auto simp: returns_step Swap_def method_defs trySwap_def)
next
  case (expunged e d)
  with w show ?thesis
    by (auto simp: returns_step Swap_def method_defs trySwap_def unexpungeLocked_def swapLocked_def
        dirty_put_def unexpunge_step_def write_slot_def)
next
  case (dirty_only e)
  with w show ?thesis
    by (cases "heap m e") (auto simp: returns_step Swap_def method_defs swapLocked_def)
next
  case absent
  with w have "add_new k (t, v) m = Some m'" "p = None"
    by (auto simp: Swap_def bind_eq_Some_conv)
  with add_alone [of "XSwap k v" k v m t m'] absent show ?thesis
    by (simp add: returns_step [of XStart] Swap_first_def keeping_def)
qed

lemma los_alone:
  assumes inv: "xinv0 m" and w: "LoadOrStore k (t, v) m = Some ((a, l), m')"
  shows "returns t (XLoadOrStore k v) XStart m None (GotLoaded (map_option snd a) l, m', None)"
  using inv
proof (cases rule: store_cases [where k = k])
  case (read e)
  with w show ?thesis
    by (cases "heap m e") (auto simp: returns_step LoadOrStore_def method_defs tryLoadOrStore_def)
next
  case (expunged e d)
  with w show ?thesis
    by (auto simp: returns_step LoadOrStore_def method_defs tryLoadOrStore_def unexpungeLocked_def
        dirty_put_def unexpunge_step_def write_slot_def)
next
  case (dirty_only e)
  with w show ?thesis
    by (cases "heap m e") (auto simp: returns_step LoadOrStore_def method_defs tryLoadOrStore_def)
next
  case absent
  with w have "add_new k (t, v) m = Some m'" "a = Some (t, v)" "l = False"
    by (auto simp: LoadOrStore_def bind_eq_Some_conv)
  with add_alone [of "XLoadOrStore k v" k v m t m'] absent show ?thesis
    by (simp add: returns_step [of XStart] LoadOrStore_first_def keeping_def)
qed

lemma whole_alone:
  assumes inv: "xinv0 m" and w: "whole t op m = Some (r, m')"
  shows "returns t op XStart m None (r, m', None)"
proof (cases op)
  case (XLoad k)
  with w load_alone [OF inv, of t k] show ?thesis by (auto simp: split_beta)
next
  case (XSwap k v)
  with w swap_alone [OF inv, of k t v] show ?thesis by auto
next
  case (XLoadOrStore k v)
  with w los_alone [OF inv, of k t v] show ?thesis by auto
next
  case (XLoadAndDelete k)
  with w delete_alone [of t k m] show ?thesis by (auto simp: split_beta)
next
  case (XCompareAndSwap k old new)
  with w compare_swap_alone [of t k old new m "(t, old)"] show ?thesis by (auto simp: split_beta)
next
  case (XCompareAndDelete k old)
  with w compare_delete_alone [of t k old m "(t, old)"] show ?thesis by (auto simp: split_beta)
qed

lemma dirty_loop_dirty: "dirty m \<noteq> None \<Longrightarrow> dirty (dirty_loop xs m) \<noteq> None"
proof (induction xs arbitrary: m)
  case (Cons x xs)
  obtain k e where "x = (k, e)" by (cases x)
  with Cons show ?case by (cases "heap m e") (simp_all add: tryExpungeLocked_def)
qed simp

lemma add_new_total:
  assumes "xinv0 m"
  shows "\<exists>m'. add_new k v m = Some m'"
proof -
  define m1 where "m1 = (if \<not> amended m then (dirtyLocked m)\<lparr>amended := True\<rparr> else m)"
  have "dirty (dirtyLocked m) \<noteq> None"
    using dirty_loop_dirty [of "m\<lparr>dirty := Some []\<rparr>" "read_m m"] by (simp add: dirtyLocked_def)
  then have "dirty m1 \<noteq> None" using xinv0_dirty [OF assms] by (simp add: m1_def)
  then show ?thesis
    by (auto simp: add_new_def m1_def [symmetric] newEntry_def dirty_put_def)
qed

lemma whole_total:
  assumes inv: "xinv0 m"
  shows "\<exists>r m'. whole t op m = Some (r, m')"
proof (cases op)
  case (XSwap k v)
  from inv show ?thesis
  proof (cases rule: store_cases [where k = k])
    case absent
    with add_new_total [OF inv, of k "(t, v)"] show ?thesis by (auto simp: XSwap Swap_def)
  next
    case (read e)
    then show ?thesis by (cases "heap m e") (auto simp: XSwap Swap_def trySwap_def)
  next
    case (expunged e d)
    then show ?thesis
      by (auto simp: XSwap Swap_def trySwap_def unexpungeLocked_def swapLocked_def dirty_put_def
          write_slot_def)
  next
    case (dirty_only e)
    then show ?thesis by (cases "heap m e") (auto simp: XSwap Swap_def swapLocked_def)
  qed
next
  case (XLoadOrStore k v)
  from inv show ?thesis
  proof (cases rule: store_cases [where k = k])
    case absent
    with add_new_total [OF inv, of k "(t, v)"] show ?thesis by (auto simp: XLoadOrStore LoadOrStore_def)
  next
    case (read e)
    then show ?thesis by (cases "heap m e") (auto simp: XLoadOrStore LoadOrStore_def tryLoadOrStore_def)
  next
    case (expunged e d)
    then show ?thesis
      by (auto simp: XLoadOrStore LoadOrStore_def tryLoadOrStore_def unexpungeLocked_def dirty_put_def
          write_slot_def)
  next
    case (dirty_only e)
    then show ?thesis by (cases "heap m e") (auto simp: XLoadOrStore LoadOrStore_def tryLoadOrStore_def)
  qed
qed (auto simp: split_beta)

text \<open>The same in the system, with the response.\<close>

lemma run_alone_replay:
  assumes "run_alone n t op pc (xm \<sigma>) (holder \<sigma>) = Some (r, m', mu')" "calls \<sigma> t = Some (Op op, pc)"
  shows "\<exists>k \<sigma>'. xm_replay (replicate k (XGo t)) \<sigma> = Some ([Respond t r], \<sigma>') \<and> xm \<sigma>' = m' \<and> holder \<sigma>' = mu'"
  using assms
proof (induction n arbitrary: pc \<sigma>)
  case 0
  then show ?case by simp
next
  case (Suc n)
  show ?case
  proof (cases "\<exists>r. pc = XReturn r")
    case True
    with Suc.prems show ?thesis
      by (intro exI [of _ 1] exI [of _ "set_pc t (Op op) (XDone r) \<sigma>"]) auto
  next
    case False
    then have cs: "can_step pc (holder \<sigma>)" using Suc.prems(1) by (cases pc) (auto split: if_splits)
    from Suc.prems(1) obtain pc1 m1 mu1 where s: "op_step t op pc (xm \<sigma>) (holder \<sigma>) = Some (pc1, m1, mu1)"
      "run_alone n t op pc1 m1 mu1 = Some (r, m', mu')"
      unfolding run_alone_step [OF cs] by (auto split: option.splits)
    let ?s = "(set_pc t (Op op) pc1 \<sigma>)\<lparr>xm := m1, holder := mu1\<rparr>"
    have e: "xm_exec (XGo t) \<sigma> = Some ([], ?s)"
      by (rule xm_exec_go [OF Suc.prems(2) cs]) (simp add: s(1))
    from Suc.IH [of pc1 ?s] s(2) obtain k \<sigma>' where
      k: "xm_replay (replicate k (XGo t)) ?s = Some ([Respond t r], \<sigma>')" "xm \<sigma>' = m'" "holder \<sigma>' = mu'"
      by auto
    have "xm_replay (replicate (Suc k) (XGo t)) \<sigma> = Some ([Respond t r], \<sigma>')"
      using k(1) by (simp only: replicate_Suc xm_replay.simps e) simp
    with k(2,3) show ?thesis by blast
  qed
qed

end
