(* ===== verification/XsyncConcRuns.thy ===== *)
theory XsyncConcRuns
  imports XsyncConcLin XsyncConcAlone
begin

text \<open>
  The properties of the concurrent map of \<open>pkgs/xsync/map.go\<close> for every run of its machine,
  and runs of concrete goroutines for their witnesses.
\<close>

section \<open>Demonstration runs\<close>

text \<open>
  Three keys are stored; a Load and a CompareAndDelete of key 2 take its entry from the dirty
  map and stop; a LoadAndDelete takes the entry out of the dirty map and stops. Then the
  CompareAndDelete wins the value, and the other two find nothing.
\<close>

definition fill_acts :: "(nat, nat) xaction list" where
  "fill_acts = XCall 0 (Op (XSwap 1 10)) # replicate 4 (XGo 0) @
     XCall 1 (Op (XSwap 2 20)) # replicate 3 (XGo 1) @
     XCall 2 (Op (XSwap 3 30)) # replicate 3 (XGo 2)"



lemma run_of_replay:
  assumes "xm_replay acts xsystem_init = Some (h, \<sigma>)"
    and "list_all (\<lambda>a. case a of XCall t (XRange ord f) \<Rightarrow> False | _ \<Rightarrow> True) acts"
  shows "xm_run call_ok h \<sigma>"
proof -
  have "call_ok c" if "XCall t c \<in> set acts" for t c
    using assms(2) that by (cases c) (auto simp: list_all_iff)
  then show ?thesis using xm_replay_run [OF run_init assms(1), of call_ok] by simp
qed



text \<open>A Range that a LoadAndDelete overtakes: it promotes, visits key 1, and then finds key 2 gone.\<close>

definition range_acts :: "(nat, nat) xaction list" where
  "range_acts = fill_acts @ XCall 3 (XRange (\<lambda>xs. xs) (\<lambda>k v. True)) # replicate 3 (XGo 3) @
     XCall 4 (Op (XLoadAndDelete 2)) # replicate 4 (XGo 4) @ replicate 4 (XGo 3)"

definition range_run :: "((nat, nat) xevent list \<times> (nat, nat) xsystem) option" where
  "range_run = xm_replay range_acts xsystem_init"

lemma range_run_facts:
  "range_run \<noteq> None"
  "list_ex (\<lambda>e. case e of Respond t r \<Rightarrow> t = 3 \<and> r = GotPairs [(1, 10), (3, 30)] | _ \<Rightarrow> False)
     (fst (the range_run))"
  unfolding range_run_def range_acts_def fill_acts_def by code_simp+

lemma range_run_ok: "xm_run call_ok (fst (the range_run)) (snd (the range_run))"
proof -
  have "xm_replay range_acts xsystem_init = Some (fst (the range_run), snd (the range_run))"
    using range_run_facts(1) by (auto simp: range_run_def)
  moreover have "call_ok c" if "XCall t c \<in> set range_acts" for t c
    using that by (auto simp: range_acts_def fill_acts_def ord_ok_def)
  ultimately show ?thesis using xm_replay_run [OF run_init, of range_acts] by simp
qed

lemma range_run_response: "Respond 3 (GotPairs [(1, 10), (3, 30)]) \<in> set (fst (the range_run))"
proof -
  obtain e where e: "e \<in> set (fst (the range_run))"
    "case e of Respond t r \<Rightarrow> t = 3 \<and> r = GotPairs [(1, 10), (3, 30)] | _ \<Rightarrow> False"
    using range_run_facts(2) by (auto simp: list_ex_iff)
  from e(2) have "e = Respond 3 (GotPairs [(1, 10), (3, 30)])" by (cases e) simp_all
  with e(1) show ?thesis by simp
qed

text \<open>A Swap that waits for the mutex of another one.\<close>

definition blocked_acts :: "(nat, nat) xaction list" where
  "blocked_acts = [XCall 0 (Op (XSwap 1 10)), XGo 0, XGo 0, XCall 1 (Op (XSwap 2 20)), XGo 1]"

definition blocked_run :: "((nat, nat) xevent list \<times> (nat, nat) xsystem) option" where
  "blocked_run = xm_replay blocked_acts xsystem_init"

lemma blocked_run_facts:
  "blocked_run \<noteq> None"
  "(case calls (snd (the blocked_run)) 1 of Some (c, pc) \<Rightarrow> pc = XLock | None \<Rightarrow> False)"
  "(case calls (snd (the blocked_run)) 0 of Some (c, pc) \<Rightarrow> pc = XExpunge [] | None \<Rightarrow> False)"
  "holder (snd (the blocked_run)) = Some 0"
  unfolding blocked_run_def blocked_acts_def by code_simp+

lemma blocked_run_ok: "xm_run call_ok (fst (the blocked_run)) (snd (the blocked_run))"
proof (rule run_of_replay [where acts = blocked_acts])
  show "xm_replay blocked_acts xsystem_init = Some (fst (the blocked_run), snd (the blocked_run))"
    using blocked_run_facts(1) by (auto simp: blocked_run_def)
qed (simp add: blocked_acts_def)




section \<open>Linearizability\<close>

text \<open>
  The events of one call in a log: it is invoked, takes effect once with the result that it
  returns, and responds; a Range has no single effect.
\<close>

fun effect_placed :: "('k, 'v) xevent list \<Rightarrow> bool" where
  "effect_placed [] = True"
| "effect_placed [Invoke t c] = True"
| "effect_placed [Invoke t (Op op), Effect t' op' r] = (op' = op)"
| "effect_placed [Invoke t (Op op), Effect t' op' r, Respond t'' r'] = (op' = op \<and> r' = r)"
| "effect_placed [Invoke t (XRange ord f), Respond t' r] = True"
| "effect_placed _ = False"

text \<open>
  \<open>log\<close> explains the history \<open>h\<close> with the final contents \<open>A\<close>: the events of \<open>h\<close> in their order,
  one effect of each call between its invocation and its response, and the effects are what
  a plain map does.
\<close>

definition explains ::
  "('k, 'v) xevent list \<Rightarrow> ('k, 'v) xevent list \<Rightarrow> ('k \<rightharpoonup> 'v) \<Rightarrow> bool" where
  "explains log h A \<longleftrightarrow> external log = h \<and> replay log Map.empty = Some A \<and>
     (\<forall>t. effect_placed (events_of t log))"

lemma done_effect: "\<not> unfinished pc \<Longrightarrow> \<exists>r. pc = XDone r"
  by (cases pc) auto

lemma call_log_placed: "effect_placed (call_log t c pc m)"
proof (cases "unfinished pc")
  case True
  then have "done_log t pc = []" by (cases pc) auto
  then show ?thesis by (cases c; cases "effect_of pc m") (auto simp: call_log_def)
next
  case False
  then obtain r where "pc = XDone r" using done_effect by blast
  then show ?thesis by (cases c) (auto simp: call_log_def)
qed

lemma lin_inv_explains:
  assumes lin: "lin_inv \<sigma> log" and h: "external log = h"
  shows "explains log h (contents (xm \<sigma>))"
  unfolding explains_def
proof (intro conjI allI)
  show "effect_placed (events_of t log)" for t
  proof (cases "calls \<sigma> t")
    case None
    then show ?thesis using lin by (simp add: lin_inv_def)
  next
    case (Some p)
    then show ?thesis using lin_inv_call [OF lin, of t "fst p" "snd p"] call_log_placed by simp
  qed
qed (use lin h in \<open>simp_all add: lin_inv_def\<close>)

lemma responded_done:
  assumes inv: "xm_inv \<sigma>" and lin: "lin_inv \<sigma> log" and r: "Respond t r \<in> set (external log)"
  obtains c where "calls \<sigma> t = Some (c, XDone r)" "ret_typed c r" "Invoke t c \<in> set (external log)"
proof -
  have ev: "Respond t r \<in> set (events_of t log)" using r by simp
  have "calls \<sigma> t \<noteq> None"
  proof
    assume "calls \<sigma> t = None"
    then have "events_of t log = []" using lin by (simp add: lin_inv_def)
    with ev show False by (metis list.set(1) empty_iff)
  qed
  then obtain c pc where c: "calls \<sigma> t = Some (c, pc)" by auto
  have "Respond t r \<in> set (call_log t c pc (xm \<sigma>))" using ev lin_inv_call [OF lin c] by simp
  moreover have "Respond t r \<notin> set (effect_log t c x)" for x by (cases c; cases x) auto
  ultimately have "Respond t r \<in> set (done_log t pc)" by (auto simp: call_log_def)
  then have pc: "pc = XDone r" by (cases pc) auto
  from xm_inv_call [OF inv c] have "ret_typed c r" by (simp add: pc)
  with c pc lin_inv_invoked [OF lin c] that show ?thesis by simp
qed



text \<open>C13. Range under concurrent use: no key is reported twice, and every reported pair was in the
  map at some moment between the call of Range and its return, in the same log that explains
  the other calls.\<close>

theorem Range_reports_moments_of_the_map:
  assumes "xm_run call_ok h \<sigma>" and "Respond t (GotPairs ps) \<in> set h"
  shows "\<exists>log. explains log h (contents (xm \<sigma>)) \<and> distinct (map fst ps) \<and>
           (\<forall>(k, v) \<in> set ps. seen t k (Some v) log)"
proof -
  obtain log where log: "lin_inv \<sigma> log" "external log = h" using xm_run_log [OF assms(1)] by blast
  obtain c where c: "calls \<sigma> t = Some (c, XDone (GotPairs ps))" "ret_typed c (GotPairs ps)"
    using responded_done [OF xm_run_inv [OF assms(1)] log(1)] assms(2) log(2) by blast
  then obtain ord f where r: "c = XRange ord f" "distinct (map fst ps)"
    by (cases "(c, GotPairs ps)" rule: ret_typed.cases) auto
  have "pairs_seen t ps log" using lin_inv_call [OF log(1) c(1)] by (simp add: r)
  then show ?thesis
    using lin_inv_explains [OF log] r(2) by (intro exI [of _ log]) (simp add: pairs_seen_def)
qed

theorem Range_reports_moments_of_the_map_witness:
  "\<exists>log. explains log (fst (the range_run)) (contents (xm (snd (the range_run)))) \<and>
     distinct (map fst [(1 :: nat, 10 :: nat), (3, 30)]) \<and>
     seen 3 1 (Some 10) log \<and> seen 3 3 (Some 30) log"
  using Range_reports_moments_of_the_map [OF range_run_ok range_run_response] by simp

section \<open>Typing and progress\<close>



text \<open>C14. No deadlock and no panic: in every reachable state a goroutine whose call is not finished
  can make its next step, or it is about to lock the mutex and the goroutine that holds it can
  make its next step (a write to a nil dirty map never happens).\<close>

theorem xsync_calls_progress:
  assumes "xm_run call_ok h \<sigma>" and "calls \<sigma> t = Some (c, pc)" and "unfinished pc"
  shows "xm_exec (XGo t) \<sigma> \<noteq> None \<or>
    pc = XLock \<and> (\<exists>T. T \<noteq> t \<and> holder \<sigma> = Some T \<and> xm_exec (XGo T) \<sigma> \<noteq> None)"
proof (cases "pc = XLock \<and> holder \<sigma> \<noteq> None")
  case False
  then have free: "holder \<sigma> = None" if "pc = XLock" using that by simp
  have "xm_exec (XGo t) \<sigma> \<noteq> None"
    by (rule can_go [OF xm_run_inv [OF assms(1)] assms(2,3) free])
  then show ?thesis by blast
next
  case True
  note inv = xm_run_inv [OF assms(1)]
  from True obtain T where T: "holder \<sigma> = Some T" by auto
  obtain c' pc' where c': "calls \<sigma> T = Some (c', pc')" "held pc'" using xm_inv_holder [OF inv T] by blast
  have "T \<noteq> t" using c' True assms(2) by auto
  have u: "unfinished pc'" and free: "pc' = XLock \<Longrightarrow> holder \<sigma> = None" using c'(2) by (cases pc'; simp)+
  have "xm_exec (XGo T) \<sigma> \<noteq> None" by (rule can_go [OF inv c'(1) u free])
  with True T \<open>T \<noteq> t\<close> show ?thesis by blast
qed

theorem xsync_calls_progress_witness:
  "\<exists>c T. calls (snd (the blocked_run)) 1 = Some (c, XLock) \<and> T \<noteq> 1 \<and>
     holder (snd (the blocked_run)) = Some T \<and> xm_exec (XGo T) (snd (the blocked_run)) \<noteq> None"
proof -
  obtain c where c: "calls (snd (the blocked_run)) 1 = Some (c, XLock)"
    using blocked_run_facts(2) by (auto split: option.splits)
  have u: "unfinished (XLock :: (nat, nat) xpc)" by simp
  have "xm_exec (XGo 1) (snd (the blocked_run)) = None" using c blocked_run_facts(4) by simp
  with xsync_calls_progress [OF blocked_run_ok c u] c show ?thesis by blast
qed

text \<open>C15. A call that is left alone finishes: from every reachable state in which the mutex is free
  or its own, a goroutine that runs without interference returns after at most \<open>rank\<close> steps,
  which is linear in the sizes of the read and the dirty map: no compare-and-swap loop repeats
  more than once without a change by another goroutine.\<close>

theorem xsync_call_alone_finishes:
  assumes "xm_run call_ok h \<sigma>" and "calls \<sigma> t = Some (c, pc)" and "holder \<sigma> = None \<or> holder \<sigma> = Some t"
  shows "\<exists>n\<le>rank (xm \<sigma>) pc. \<exists>h \<sigma>' r. xm_replay (replicate n (XGo t)) \<sigma> = Some (h, \<sigma>') \<and>
           calls \<sigma>' t = Some (c, XDone r)"
  by (rule alone_finishes [OF xm_run_inv [OF assms(1)] assms(2,3)])

theorem xsync_call_alone_finishes_witness:
  "\<exists>c. calls (snd (the blocked_run)) 0 = Some (c, XExpunge []) \<and>
     (\<exists>n\<le>rank (xm (snd (the blocked_run))) (XExpunge [] :: (nat, nat) xpc). \<exists>h \<sigma>' r.
        xm_replay (replicate n (XGo 0)) (snd (the blocked_run)) = Some (h, \<sigma>') \<and>
        calls \<sigma>' 0 = Some (c, XDone r))"
proof -
  obtain c where c: "calls (snd (the blocked_run)) 0 = Some (c, XExpunge [])"
    using blocked_run_facts(3) by (auto split: option.splits)
  from xsync_call_alone_finishes [OF blocked_run_ok c] blocked_run_facts(4) c show ?thesis by blast
qed



end
