(* ===== verification/Pool.thy ===== *)
theory Pool
  imports NH_Prelude
begin

text \<open>
  Object pools: \<open>sync.Pool\<close> and its typed wrapper \<open>pkgs/xpool/xpool.go\<close>. Both pools of
  the program hold pointers (\<open>*IPPacket\<close>, \<open>*Payload\<close>), so the model has the store of
  the objects behind these pointers: \<open>cells\<close> gives the object at an address, \<open>idle\<close> the
  addresses that are in the pool, \<open>next_cell\<close> the first address never allocated and
  \<open>new_value\<close> what the pool's \<open>New\<close> function builds.

  \<open>sync.Pool\<close> may return any idle object or allocate (its documentation promises no more:
  it may drop idle objects at any time); that choice is an argument of \<open>Get\<close>. A choice that
  is no index of the idle list stands for the pool calling \<open>New\<close>.
\<close>

record 'a xpool =
  cells :: "nat \<Rightarrow> 'a"
  idle :: "nat list"
  next_cell :: nat
  new_value :: 'a

definition xpool_New :: "'a \<Rightarrow> 'a xpool" where
  "xpool_New fn = \<lparr>cells = (\<lambda>_. fn), idle = [], next_cell = 0, new_value = fn\<rparr>"

definition pool_Get :: "nat \<Rightarrow> 'a xpool \<Rightarrow> nat \<times> 'a xpool" where
  "pool_Get choice p =
     (if choice < length (idle p)
      then (idle p ! choice, p\<lparr>idle := take choice (idle p) @ drop (Suc choice) (idle p)\<rparr>)
      else (next_cell p, p\<lparr>cells := (cells p)(next_cell p := new_value p),
                          next_cell := Suc (next_cell p)\<rparr>))"

definition pool_Put :: "nat \<Rightarrow> 'a xpool \<Rightarrow> 'a xpool" where
  "pool_Put a p = p\<lparr>idle := a # idle p\<rparr>"

text \<open>Writing a field of an object the caller holds.\<close>

definition cell_set :: "nat \<Rightarrow> 'a \<Rightarrow> 'a xpool \<Rightarrow> 'a xpool" where
  "cell_set a v p = p\<lparr>cells := (cells p)(a := v)\<rparr>"

text \<open>
  \<open>pool_inv L p\<close>: the objects in the set \<open>L\<close> are held by callers, none of them is in the
  pool, no object is in the pool twice and everything was allocated.
\<close>

definition pool_inv :: "nat set \<Rightarrow> 'a xpool \<Rightarrow> bool" where
  "pool_inv L p \<longleftrightarrow>
     distinct (idle p) \<and> set (idle p) \<inter> L = {} \<and> set (idle p) \<union> L \<subseteq> {..<next_cell p}"

section \<open>What a client of a pool relies on\<close>

locale object_pool =
  fixes get :: "nat \<Rightarrow> 's \<Rightarrow> nat \<times> 's"
    and put :: "nat \<Rightarrow> 's \<Rightarrow> 's"
    and deref :: "'s \<Rightarrow> nat \<Rightarrow> 'a"
    and assign :: "nat \<Rightarrow> 'a \<Rightarrow> 's \<Rightarrow> 's"
    and held :: "nat set \<Rightarrow> 's \<Rightarrow> bool"
  assumes get_fresh: "held L s \<Longrightarrow> get c s = (a, s') \<Longrightarrow> a \<notin> L"
    and get_held: "held L s \<Longrightarrow> get c s = (a, s') \<Longrightarrow> held (insert a L) s'"
    and get_frame: "held L s \<Longrightarrow> get c s = (a, s') \<Longrightarrow> b \<in> L \<Longrightarrow> deref s' b = deref s b"
    and put_held: "held L s \<Longrightarrow> a \<in> L \<Longrightarrow> held (L - {a}) (put a s)"
    and put_frame: "deref (put a s) b = deref s b"
    and assign_held: "held L s \<Longrightarrow> held L (assign a v s)"
    and assign_same: "deref (assign a v s) a = v"
    and assign_frame: "b \<noteq> a \<Longrightarrow> deref (assign a v s) b = deref s b"
begin

text \<open>A call that takes an object, writes it and gives it back leaves the callers' objects alone.\<close>

lemma borrow_held:
  assumes "held L s" "get c s = (a, s')"
  shows "held L (put a (assign a v s'))"
proof -
  from assms have new: "a \<notin> L" and h: "held (insert a L) s'"
    by (auto dest: get_fresh get_held)
  from h have "held (insert a L) (assign a v s')" by (rule assign_held)
  then have "held (insert a L - {a}) (put a (assign a v s'))" by (rule put_held) simp
  with new show ?thesis by simp
qed

lemma borrow_frame:
  assumes "held L s" "get c s = (a, s')" "b \<in> L"
  shows "deref (put a (assign a v s')) b = deref s b"
proof -
  from assms have "b \<noteq> a" by (auto dest: get_fresh)
  with assms show ?thesis by (simp add: put_frame assign_frame get_frame)
qed

text \<open>A call that takes an object, writes it and keeps it.\<close>

lemma take_held:
  assumes "held L s" "get c s = (a, s')"
  shows "held (insert a L) (assign a v s')"
  using assms by (intro assign_held get_held)

lemma take_frame:
  assumes "held L s" "get c s = (a, s')" "b \<in> L"
  shows "deref (assign a v s') b = deref s b"
  using assms by (metis get_fresh get_frame assign_frame)

end

lemma pool_inv_New [simp]: "pool_inv {} (xpool_New fn)"
  by (simp add: pool_inv_def xpool_New_def)

lemma remove_nth_set:
  assumes "distinct xs" "i < length xs"
  shows "set (take i xs @ drop (Suc i) xs) = set xs - {xs ! i}"
    and "distinct (take i xs @ drop (Suc i) xs)"
proof -
  have xs: "xs = take i xs @ xs ! i # drop (Suc i) xs" using assms(2) by (rule id_take_nth_drop)
  with assms(1) have d: "distinct (take i xs @ xs ! i # drop (Suc i) xs)" by simp
  have "set xs = set (take i xs @ xs ! i # drop (Suc i) xs)" using xs by simp
  with d show "set (take i xs @ drop (Suc i) xs) = set xs - {xs ! i}" by auto
  from d show "distinct (take i xs @ drop (Suc i) xs)" by auto
qed

interpretation xpool: object_pool pool_Get pool_Put cells cell_set pool_inv
proof (unfold_locales, goal_cases)
  case (1 L s c a s')
  then show ?case
    by (auto simp: pool_Get_def pool_inv_def dest: nth_mem split: if_splits)
next
  case (2 L s c a s')
  show ?case
  proof (cases "c < length (idle s)")
    case True
    moreover from True 2 have "distinct (idle s)" by (simp add: pool_inv_def)
    ultimately show ?thesis
      using 2 remove_nth_set [of "idle s" c] nth_mem [of c "idle s"]
      by (auto simp: pool_Get_def pool_inv_def)
  next
    case False
    with 2 show ?thesis by (auto simp: pool_Get_def pool_inv_def)
  qed
next
  case (3 L s c a s' b)
  then show ?case by (auto simp: pool_Get_def pool_inv_def split: if_splits)
qed (auto simp: pool_Put_def pool_inv_def cell_set_def)

end
