(* ===== verification/IPPacket.thy ===== *)
theory IPPacket
  imports Netip Pool
begin

text \<open>
  \<open>core/protocol/ip.go\<close>: reading the version and the addresses of an IP packet into an
  object of \<open>ipPacketPool\<close>. \<open>ParseIP\<close> works on the pool and returns the address of the
  object it filled; \<open>ReleaseIP\<close> gives it back.
\<close>

datatype ip_error = ErrInvalidIPPacket

record IPPacket =
  version :: int
  src :: ipaddr
  dst :: ipaddr

definition empty_IPPacket :: IPPacket where
  "empty_IPPacket = \<lparr>version = 0, src = ZeroAddr, dst = ZeroAddr\<rparr>"

definition ipPacketPool :: "IPPacket xpool" where
  "ipPacketPool = xpool_New empty_IPPacket"

definition parseIPv4 :: "IPPacket \<Rightarrow> byte list \<Rightarrow> (IPPacket \<times> ip_error option) option" where
  "parseIPv4 ip buff = do {
     s \<leftarrow> go_slice buff 12 16;
     let (a, ok) = AddrFromSlice s;
     let ip = ip\<lparr>src := a\<rparr>;
     if \<not> ok \<or> \<not> addr_IsValid (src ip) then Some (ip, Some ErrInvalidIPPacket)
     else do {
       d \<leftarrow> go_slice buff 16 20;
       let (b, ok) = AddrFromSlice d;
       let ip = ip\<lparr>dst := b\<rparr>;
       if \<not> ok \<or> \<not> addr_IsValid (dst ip) then Some (ip, Some ErrInvalidIPPacket)
       else Some (ip, None)
     }
   }"

definition parseIPv6 :: "IPPacket \<Rightarrow> byte list \<Rightarrow> (IPPacket \<times> ip_error option) option" where
  "parseIPv6 ip buff =
     (if length buff < 40 then Some (ip, Some ErrInvalidIPPacket)
      else do {
        s \<leftarrow> go_slice buff 8 24;
        let (a, ok) = AddrFromSlice s;
        let ip = ip\<lparr>src := a\<rparr>;
        if \<not> ok \<or> \<not> addr_IsValid (src ip) then Some (ip, Some ErrInvalidIPPacket)
        else do {
          d \<leftarrow> go_slice buff 24 40;
          let (b, ok) = AddrFromSlice d;
          let ip = ip\<lparr>dst := b\<rparr>;
          if \<not> ok \<or> \<not> addr_IsValid (dst ip) then Some (ip, Some ErrInvalidIPPacket)
          else Some (ip, None)
        }
      })"

definition ParseIP ::
  "nat \<Rightarrow> IPPacket xpool \<Rightarrow> byte list \<Rightarrow> ((ip_error + nat) \<times> IPPacket xpool) option" where
  "ParseIP choice p buff =
     (if length buff < 20 then Some (Inl ErrInvalidIPPacket, p)
      else do {
        b0 \<leftarrow> index_at buff 0;
        let v = uint (drop_bit 4 b0);
        let (a, p) = pool_Get choice p;
        let ip = (cells p a)\<lparr>version := v\<rparr>;
        if v \<noteq> 4 \<and> v \<noteq> 6 then Some (Inl ErrInvalidIPPacket, pool_Put a (cell_set a ip p))
        else do {
          (ip, err) \<leftarrow> (if v = 4 then parseIPv4 ip buff else parseIPv6 ip buff);
          let p = cell_set a ip p;
          case err of Some e \<Rightarrow> Some (Inl e, pool_Put a p) | None \<Rightarrow> Some (Inr a, p)
        }
      })"

definition ReleaseIP :: "nat \<Rightarrow> IPPacket xpool \<Rightarrow> IPPacket xpool" where
  "ReleaseIP a p = pool_Put a p"

section \<open>The header fields, as the IP standards lay them out\<close>

text \<open>
  \<open>ip_fields buff\<close> is what a packet says of itself: the version nibble, and the source and
  destination at offsets 12 and 16 (IPv4, at least 20 bytes) or 8 and 24 (IPv6, at least 40).
\<close>

definition ip_fields :: "byte list \<Rightarrow> (int \<times> ipaddr \<times> ipaddr) option" where
  "ip_fields buff =
     (if length buff < 20 then None
      else let v = uint (drop_bit 4 (hd buff)) in
      if v = 4 then
        Some (4, Addr4 (be_word (take 4 (drop 12 buff))), Addr4 (be_word (take 4 (drop 16 buff))))
      else if v = 6 \<and> 40 \<le> length buff then
        Some (6, Addr6 (be_word (take 16 (drop 8 buff))) [], Addr6 (be_word (take 16 (drop 24 buff))) [])
      else None)"

lemma IPPacket_overwrite [simp]:
  "ip\<lparr>version := v, src := s, dst := d\<rparr> = \<lparr>version = v, src = s, dst = d\<rparr>" for ip :: IPPacket
  by (cases ip) simp

lemma slice_const:
  "length xs \<ge> n \<Longrightarrow> m \<le> n \<Longrightarrow> go_slice xs (int m) (int n) = Some (take (n - m) (drop m xs))"
  by (simp add: slice_ok)

lemma parseIPv4_ok:
  assumes "20 \<le> length buff"
  shows "parseIPv4 ip buff =
    Some (ip\<lparr>src := Addr4 (be_word (take 4 (drop 12 buff))),
             dst := Addr4 (be_word (take 4 (drop 16 buff)))\<rparr>, None)"
proof -
  have "go_slice buff 12 16 = Some (take 4 (drop 12 buff))"
    "go_slice buff 16 20 = Some (take 4 (drop 16 buff))"
    using assms slice_const [of 16 buff 12] slice_const [of 20 buff 16] by simp_all
  then show ?thesis using assms by (simp add: parseIPv4_def)
qed

lemma parseIPv6_short:
  "length buff < 40 \<Longrightarrow> parseIPv6 ip buff = Some (ip, Some ErrInvalidIPPacket)"
  by (simp add: parseIPv6_def)

lemma parseIPv6_ok:
  assumes "40 \<le> length buff"
  shows "parseIPv6 ip buff =
    Some (ip\<lparr>src := Addr6 (be_word (take 16 (drop 8 buff))) [],
             dst := Addr6 (be_word (take 16 (drop 24 buff))) []\<rparr>, None)"
proof -
  have "go_slice buff 8 24 = Some (take 16 (drop 8 buff))"
    "go_slice buff 24 40 = Some (take 16 (drop 24 buff))"
    using assms slice_const [of 24 buff 8] slice_const [of 40 buff 24] by simp_all
  then show ?thesis using assms by (simp add: parseIPv6_def)
qed

text \<open>One equation per outcome of \<open>ParseIP\<close>: it depends on the packet alone.\<close>

lemma ParseIP_cases:
  assumes "pool_Get c p = (a, p')"
  shows "ip_fields buff = Some (v, sa, da) \<Longrightarrow>
      ParseIP c p buff = Some (Inr a, cell_set a \<lparr>version = v, src = sa, dst = da\<rparr> p')"
    and "ip_fields buff = None \<Longrightarrow> 20 \<le> length buff \<Longrightarrow>
      \<exists>ip. ParseIP c p buff = Some (Inl ErrInvalidIPPacket, pool_Put a (cell_set a ip p'))"
    and "length buff < 20 \<Longrightarrow> ParseIP c p buff = Some (Inl ErrInvalidIPPacket, p)"
proof -
  have b0: "index_at buff 0 = Some (hd buff)" if "20 \<le> length buff"
    using that by (cases buff) (auto simp: index_at_def)
  show "ParseIP c p buff = Some (Inr a, cell_set a \<lparr>version = v, src = sa, dst = da\<rparr> p')"
    if "ip_fields buff = Some (v, sa, da)"
    using that assms b0
    by (auto simp: ip_fields_def ParseIP_def Let_def parseIPv4_ok parseIPv6_ok split: if_splits)
  show "\<exists>ip. ParseIP c p buff = Some (Inl ErrInvalidIPPacket, pool_Put a (cell_set a ip p'))"
    if "ip_fields buff = None" "20 \<le> length buff"
    using that assms b0
    by (auto simp: ip_fields_def ParseIP_def Let_def parseIPv6_short split: if_splits)
  show "ParseIP c p buff = Some (Inl ErrInvalidIPPacket, p)" if "length buff < 20"
    using that by (simp add: ParseIP_def)
qed

text \<open>
  \<open>ip_header mid s d\<close> builds a header with these addresses, the remaining header bytes
  \<open>mid\<close> being arbitrary; there is none when the address families differ.
\<close>

fun ip_header :: "byte list \<Rightarrow> ipaddr \<Rightarrow> ipaddr \<Rightarrow> byte list option" where
  "ip_header mid (Addr4 s) (Addr4 d) =
     (if length mid = 11 then Some (0x45 # mid @ be_bytes 4 s @ be_bytes 4 d) else None)"
| "ip_header mid (Addr6 s zs) (Addr6 d zd) =
     (if length mid = 7 \<and> zs = [] \<and> zd = []
      then Some (0x60 # mid @ be_bytes 16 s @ be_bytes 16 d) else None)"
| "ip_header mid _ _ = None"

lemma ip_fields_v4:
  assumes "length mid = 11"
  shows "ip_fields (0x45 # mid @ be_bytes 4 s @ be_bytes 4 d @ payload) = Some (4, Addr4 s, Addr4 d)"
proof -
  let ?b = "0x45 # mid @ be_bytes 4 s @ be_bytes 4 d @ payload"
  have "take 4 (drop 12 ?b) = be_bytes 4 s"
    using field_at [of "0x45 # mid" 12 "be_bytes 4 s" 4 "be_bytes 4 d @ payload"] assms by simp
  moreover have "take 4 (drop 16 ?b) = be_bytes 4 d"
    using field_at [of "0x45 # mid @ be_bytes 4 s" 16 "be_bytes 4 d" 4 payload] assms by simp
  moreover have "uint (drop_bit 4 (0x45 :: byte)) = 4" by (simp add: drop_bit_eq_div)
  moreover have "20 \<le> length ?b" using assms by simp
  ultimately show ?thesis by (simp add: ip_fields_def be_word_bytes Let_def)
qed

lemma ip_fields_v6:
  assumes "length mid = 7"
  shows "ip_fields (0x60 # mid @ be_bytes 16 s @ be_bytes 16 d @ payload) = Some (6, Addr6 s [], Addr6 d [])"
proof -
  let ?b = "0x60 # mid @ be_bytes 16 s @ be_bytes 16 d @ payload"
  have "take 16 (drop 8 ?b) = be_bytes 16 s"
    using field_at [of "0x60 # mid" 8 "be_bytes 16 s" 16 "be_bytes 16 d @ payload"] assms by simp
  moreover have "take 16 (drop 24 ?b) = be_bytes 16 d"
    using field_at [of "0x60 # mid @ be_bytes 16 s" 24 "be_bytes 16 d" 16 payload] assms by simp
  moreover have "uint (drop_bit 4 (0x60 :: byte)) = 6" by (simp add: drop_bit_eq_div)
  moreover have "40 \<le> length ?b" using assms by simp
  ultimately show ?thesis by (simp add: ip_fields_def be_word_bytes Let_def)
qed

lemma ip_fields_header:
  assumes "ip_header mid s d = Some h"
  shows "\<exists>v. ip_fields (h @ payload) = Some (v, s, d)"
proof (cases s)
  case ZeroAddr
  with assms show ?thesis by simp
next
  case s: (Addr4 v)
  show ?thesis
  proof (cases d)
    case (Addr4 w)
    with s assms have len: "length mid = 11" and h: "h = 0x45 # mid @ be_bytes 4 v @ be_bytes 4 w"
      by (auto split: if_splits)
    show ?thesis using ip_fields_v4 [OF len, of v w payload] by (simp add: h s Addr4)
  qed (use s assms in simp_all)
next
  case s: (Addr6 v z)
  show ?thesis
  proof (cases d)
    case (Addr6 w z')
    with s assms have len: "length mid = 7" and h: "h = 0x60 # mid @ be_bytes 16 v @ be_bytes 16 w"
      and z: "z = []" "z' = []"
      by (auto split: if_splits)
    show ?thesis using ip_fields_v6 [OF len, of v w payload] by (simp add: h s Addr6 z)
  qed (use s assms in simp_all)
qed

section \<open>Properties\<close>

text \<open>C34. ParseIP never panics and never reads stale data: whatever object the pool hands out,
  the result is the header's version and addresses when the packet is long enough and its
  version is 4 or 6, and ErrInvalidIPPacket on every other byte string.\<close>

theorem ParseIP_fields:
  "\<exists>r p'. ParseIP c p buff = Some (r, p') \<and>
     (case ip_fields buff of
        Some (v, sa, da) \<Rightarrow> \<exists>a. r = Inr a \<and> cells p' a = \<lparr>version = v, src = sa, dst = da\<rparr>
      | None \<Rightarrow> r = Inl ErrInvalidIPPacket)"
proof -
  obtain a p' where get: "pool_Get c p = (a, p')" by fastforce
  show ?thesis
  proof (cases "ip_fields buff")
    case None
    then obtain p'' where "ParseIP c p buff = Some (Inl ErrInvalidIPPacket, p'')"
      using ParseIP_cases(2) [OF get None] ParseIP_cases(3) [OF get, of buff]
      by (cases "length buff < 20") auto
    with None show ?thesis by simp
  next
    case (Some f)
    obtain v sa da where f: "f = (v, sa, da)" by (cases f)
    from ParseIP_cases(1) [OF get Some [unfolded f]] show ?thesis
      by (simp add: Some f xpool.assign_same)
  qed
qed

text \<open>Round trip: a header built from a source and a destination address, followed by any
  payload, is parsed back to these two addresses.\<close>

theorem ParseIP_header_roundtrip:
  assumes "ip_header mid s d = Some h"
  shows "\<exists>a p'. ParseIP c p (h @ payload) = Some (Inr a, p') \<and>
           src (cells p' a) = s \<and> dst (cells p' a) = d"
proof -
  obtain a p' where get: "pool_Get c p = (a, p')" by fastforce
  obtain v where "ip_fields (h @ payload) = Some (v, s, d)" using ip_fields_header [OF assms] ..
  from ParseIP_cases(1) [OF get this] show ?thesis
    by (simp add: xpool.assign_same)
qed

theorem ParseIP_header_roundtrip_witness:
  "\<exists>a p'. ParseIP 0 ipPacketPool
       ((0x45 # replicate 11 7 @ be_bytes 4 (0xC0A8A801 :: 32 word) @ be_bytes 4 (0xC0A8A802 :: 32 word)) @ [1, 2])
       = Some (Inr a, p') \<and> src (cells p' a) = Addr4 0xC0A8A801 \<and> dst (cells p' a) = Addr4 0xC0A8A802"
  by (rule ParseIP_header_roundtrip [of "replicate 11 7"]) simp

text \<open>Pool discipline: ParseIP never hands out an object that some caller still holds, it
  never touches those objects, on an error it returns the object it took, and on success the
  caller holds exactly one more object, which ReleaseIP gives back.\<close>

theorem ParseIP_ownership:
  assumes "pool_inv L p" and "ParseIP c p buff = Some (r, p')"
  shows "(case r of
      Inl e \<Rightarrow> pool_inv L p'
    | Inr a \<Rightarrow> a \<notin> L \<and> pool_inv (insert a L) p' \<and> pool_inv L (ReleaseIP a p'))
    \<and> (\<forall>b\<in>L. cells p' b = cells p b)"
proof -
  obtain a q where get: "pool_Get c p = (a, q)" by fastforce
  have new: "a \<notin> L" using assms(1) get by (rule xpool.get_fresh)
  consider (ok) v where "r = Inr a" "p' = cell_set a v q"
    | (bad) v where "r = Inl ErrInvalidIPPacket" "p' = pool_Put a (cell_set a v q)"
    | (short) "r = Inl ErrInvalidIPPacket" "p' = p"
  proof (cases "ip_fields buff")
    case None
    show ?thesis
    proof (cases "length buff < 20")
      case True
      with ParseIP_cases(3) [OF get] assms(2) show ?thesis by (intro short) simp_all
    next
      case False
      with ParseIP_cases(2) [OF get None] assms(2) obtain ip
        where "r = Inl ErrInvalidIPPacket" "p' = pool_Put a (cell_set a ip q)" by auto
      then show ?thesis by (rule bad)
    qed
  next
    case (Some f)
    with ParseIP_cases(1) [OF get] assms(2) ok show ?thesis by (cases f) auto
  qed
  then show ?thesis
  proof cases
    case ok
    with assms(1) get new show ?thesis
      by (simp add: ReleaseIP_def xpool.take_held xpool.borrow_held xpool.take_frame)
  next
    case bad
    with assms(1) get show ?thesis by (simp add: xpool.borrow_held xpool.borrow_frame)
  next
    case short
    with assms(1) show ?thesis by simp
  qed
qed

theorem ParseIP_ownership_witness:
  "\<exists>r p'. ParseIP 0 (xpool_New empty_IPPacket) [0x45, 0] = Some (r, p') \<and>
     (case r of
        Inl e \<Rightarrow> pool_inv {} p'
      | Inr a \<Rightarrow> a \<notin> {} \<and> pool_inv (insert a {}) p' \<and> pool_inv {} (ReleaseIP a p'))
     \<and> (\<forall>b\<in>{}. cells p' b = cells (xpool_New empty_IPPacket) b)"
proof -
  have run: "ParseIP 0 (xpool_New empty_IPPacket) [0x45, 0] =
      Some (Inl ErrInvalidIPPacket, xpool_New empty_IPPacket)"
    by (simp add: ParseIP_def)
  show ?thesis using ParseIP_ownership [OF pool_inv_New run] run by fastforce
qed

end
