(* ===== verification/Engine.thy ===== *)
theory Engine
  imports IPPacket XsyncMapCorrect
begin

text \<open>
  \<open>core/engine\<close>: the packet path of the VPN. The goroutines are the loops of \<open>routine.go\<close> (one
  TUN reader, one TUN writer, one router), the connection goroutines of \<open>conn.go\<close>, the
  handlers of incoming streams of \<open>engine.go\<close>, and the stream readers both start. They share
  the routing tables (three \<open>xsync.Map\<close>s), the payload pool and the bounded channels.

  A section is what a goroutine does between two accesses to shared state; what the outside
  world decides in it (the device, the network, the pools' and maps' free choices) is the
  argument \<open>env\<close>. \<open>None\<close> is a panic. Payloads are pointers into the payload pool; the byte
  slices of \<open>go-buffer-pool\<close> are values, so that only payloads have an owner in the model.
\<close>

section \<open>Data\<close>

text \<open>\<open>ChanSize\<close> and \<open>BuffSize\<close>.\<close>

definition ChanSize :: nat where "ChanSize = 15000"

definition BuffSize :: nat where "BuffSize = 1500"

record payload =
  pl_src :: ipaddr
  pl_dst :: ipaddr
  pl_data :: "byte list"

definition empty_payload :: payload where
  "empty_payload = \<lparr>pl_src = ZeroAddr, pl_dst = ZeroAddr, pl_data = []\<rparr>"

type_synonym peer_id = string
type_synonym chan = nat
type_synonym pointer = nat

record engine =
  broadcast :: bool
  devReader :: "pointer list"
  devWriter :: "pointer list"
  ipPool :: "IPPacket xpool"
  payloadPool :: "payload xpool"
  table_m :: "(peer_id, prefix) xmap"
  table_id :: "(peer_id, chan) xmap"
  table_addr :: "(ipaddr, chan) xmap"
  chans :: "chan \<Rightarrow> pointer list"
  next_chan :: nat

record env =
  tun_in :: "byte list option"
  pick_ip :: nat
  pick_payload :: nat
  range_order :: "(peer_id \<times> nat) list \<Rightarrow> (peer_id \<times> nat) list"
  found_stream :: bool
  device_ok :: bool
  stream_ok :: bool
  msg_in :: "byte list option"

text \<open>What the map, the device and the stream reader guarantee about their free choices.\<close>

definition env_ok :: "env \<Rightarrow> bool" where
  "env_ok v \<longleftrightarrow> (\<forall>ys. mset (range_order v ys) = mset ys) \<and>
     (\<forall>pkt. tun_in v = Some pkt \<longrightarrow> length pkt \<le> BuffSize)"

datatype label =
    Tau
  | ReadTun "byte list"
  | SentTo peer_id payload
  | Received peer_id "byte list"
  | Queued peer_id "byte list"
  | WroteTun "byte list"
  | Logged "byte list"
  | Ignored peer_id

abbreviation pl_at :: "engine \<Rightarrow> pointer \<Rightarrow> payload" where
  "pl_at e q \<equiv> cells (payloadPool e) q"

text \<open>A payload from the pool with some of its fields set, and giving one back.\<close>

definition new_payload :: "nat \<Rightarrow> (payload \<Rightarrow> payload) \<Rightarrow> engine \<Rightarrow> pointer \<times> engine" where
  "new_payload pick f e =
     (let (q, p) = pool_Get pick (payloadPool e)
      in (q, e\<lparr>payloadPool := cell_set q (f (cells p q)) p\<rparr>))"

definition put_payload :: "pointer \<Rightarrow> engine \<Rightarrow> engine" where
  "put_payload q e = e\<lparr>payloadPool := pool_Put q (payloadPool e)\<rparr>"

text \<open>\<open>select \<dots> case c <- x: \<dots> default:\<close> on a channel of capacity \<open>ChanSize\<close>.\<close>

definition try_send :: "pointer \<Rightarrow> pointer list \<Rightarrow> pointer list option" where
  "try_send q c = (if length c < ChanSize then Some (c @ [q]) else None)"

definition is_broadcast :: "ipaddr \<Rightarrow> bool" where
  "is_broadcast a \<longleftrightarrow> addr_IsLinkLocalMulticast a \<or> addr_IsMulticast a"

section \<open>\<open>RoutineTUNReader\<close>: one round of the loop\<close>

definition RoutineTUNReader :: "env \<Rightarrow> engine \<Rightarrow> (engine \<times> label) option" where
  "RoutineTUNReader v e =
     (case tun_in v of
        None \<Rightarrow> Some (e, Tau)
      | Some pkt \<Rightarrow> do {
          (r, ips) \<leftarrow> ParseIP (pick_ip v) (ipPool e) pkt;
          let e = e\<lparr>ipPool := ips\<rparr>;
          case r of
            Inl err \<Rightarrow> Some (e, ReadTun pkt)
          | Inr a \<Rightarrow>
              let d = dst (cells ips a) in
              if is_broadcast d \<and> \<not> broadcast e then Some (e, ReadTun pkt)
              else do {
                let (q, e) = new_payload (pick_payload v) (\<lambda>p. p\<lparr>pl_dst := d, pl_data := pkt\<rparr>) e;
                let e = e\<lparr>ipPool := ReleaseIP a (ipPool e)\<rparr>;
                case try_send q (devReader e) of
                  Some c \<Rightarrow> Some (e\<lparr>devReader := c\<rparr>, ReadTun pkt)
                | None \<Rightarrow> Some (put_payload q e, ReadTun pkt)
              }
        })"

section \<open>\<open>RoutineTUNWriter\<close>\<close>

datatype wpc = WIdle | WLog pointer

definition RoutineTUNWriter :: "env \<Rightarrow> engine \<Rightarrow> wpc \<times> engine \<times> label" where
  "RoutineTUNWriter v e =
     (case devWriter e of
        [] \<Rightarrow> (WIdle, e, Tau)
      | q # qs \<Rightarrow>
        let data = pl_data (pl_at e q);
            e = put_payload q (e\<lparr>devWriter := qs\<rparr>)
        in (if device_ok v then WIdle else WLog q, e, WroteTun data))"

text \<open>The error message of a failed write prints the payload after it went back to the pool.\<close>

fun writer_section :: "env \<Rightarrow> wpc \<Rightarrow> engine \<Rightarrow> wpc \<times> engine \<times> label" where
  "writer_section v WIdle e = RoutineTUNWriter v e"
| "writer_section v (WLog q) e = (WIdle, e, Logged (pl_data (pl_at e q)))"

section \<open>\<open>RoutineRouteTableWriter\<close> and \<open>addConnByDst\<close>\<close>

datatype rpc =
    RIdle
  | RAddr pointer
  | RAddr2 pointer
  | RRange pointer
  | RStoreAddr pointer peer_id
  | RStoreId pointer peer_id chan
  | RSpawn pointer peer_id chan
  | RSend pointer chan

text \<open>The other goroutines, at the points where they touch shared state.\<close>

datatype ppc =
    CStart chan peer_id ipaddr
  | CRun chan peer_id ipaddr
  | CDelAddr chan peer_id ipaddr
  | CDelId chan peer_id
  | PReader peer_id
  | PSend peer_id pointer
  | HStart peer_id
  | HId peer_id
  | HRun peer_id chan
  | Finished

definition route_receive :: "engine \<Rightarrow> rpc \<times> engine" where
  "route_receive e =
     (case devReader e of
        [] \<Rightarrow> (RIdle, e)
      | q # qs \<Rightarrow>
        let e = e\<lparr>devReader := qs\<rparr>
        in (if is_broadcast (pl_dst (pl_at e q)) \<and> broadcast e then RIdle else RAddr q, e))"

definition addr_load :: "pointer \<Rightarrow> rpc \<Rightarrow> engine \<Rightarrow> rpc \<times> engine" where
  "addr_load q miss e =
     (let (c, m) = Load (pl_dst (pl_at e q)) (table_addr e);
          e = e\<lparr>table_addr := m\<rparr>
      in case c of Some c \<Rightarrow> (RSend q c, e) | None \<Rightarrow> (miss, e))"

text \<open>The callback of \<open>Range\<close> up to its first lookup: it stops at the first peer with that address.\<close>

definition same_addr :: "ipaddr \<Rightarrow> peer_id \<Rightarrow> prefix \<Rightarrow> peer_id option \<Rightarrow> bool \<times> peer_id option" where
  "same_addr d key value r = (if addr_Compare (prefix_Addr value) d \<noteq> 0 then (True, r) else (False, Some key))"

definition find_peer :: "env \<Rightarrow> ipaddr \<Rightarrow> engine \<Rightarrow> peer_id option \<times> engine" where
  "find_peer v d e =
     (let (m, r) = Range (range_order v) (lift_callback (same_addr d)) (table_m e) None
      in (r, e\<lparr>table_m := m\<rparr>))"

definition addConnByDst_range :: "env \<Rightarrow> pointer \<Rightarrow> engine \<Rightarrow> rpc \<times> engine" where
  "addConnByDst_range v q e =
     (let (r, e) = find_peer v (pl_dst (pl_at e q)) e
      in case r of
           None \<Rightarrow> (RIdle, e)
         | Some key \<Rightarrow>
             let (c, m) = Load key (table_id e);
                 e = e\<lparr>table_id := m\<rparr>
             in case c of Some c \<Rightarrow> (RSend q c, e) | None \<Rightarrow> (RStoreAddr q key, e))"

definition addConnByDst_store_addr :: "pointer \<Rightarrow> peer_id \<Rightarrow> engine \<Rightarrow> (rpc \<times> engine) option" where
  "addConnByDst_store_addr q key e = do {
     let c = next_chan e;
     m \<leftarrow> Store (pl_dst (pl_at e q)) c (table_addr e);
     Some (RStoreId q key c, e\<lparr>table_addr := m, chans := (chans e)(c := []), next_chan := c + 1\<rparr>)
   }"

definition addConnByDst_store_id :: "pointer \<Rightarrow> peer_id \<Rightarrow> chan \<Rightarrow> engine \<Rightarrow> (rpc \<times> engine) option" where
  "addConnByDst_store_id q key c e = do {
     m \<leftarrow> Store key c (table_id e);
     Some (RSpawn q key c, e\<lparr>table_id := m\<rparr>)
   }"

definition route_send :: "pointer \<Rightarrow> chan \<Rightarrow> engine \<Rightarrow> rpc \<times> engine" where
  "route_send q c e =
     (case try_send q (chans e c) of
        Some qs \<Rightarrow> (RIdle, e\<lparr>chans := (chans e)(c := qs)\<rparr>)
      | None \<Rightarrow> (RIdle, put_payload q e))"

fun router_section :: "env \<Rightarrow> rpc \<Rightarrow> engine \<Rightarrow> (rpc \<times> engine \<times> ppc option) option" where
  "router_section v RIdle e = (let (r, e) = route_receive e in Some (r, e, None))"
| "router_section v (RAddr q) e = (let (r, e) = addr_load q (RAddr2 q) e in Some (r, e, None))"
| "router_section v (RAddr2 q) e = (let (r, e) = addr_load q (RRange q) e in Some (r, e, None))"
| "router_section v (RRange q) e = (let (r, e) = addConnByDst_range v q e in Some (r, e, None))"
| "router_section v (RStoreAddr q key) e =
     map_option (\<lambda>(r, e). (r, e, None)) (addConnByDst_store_addr q key e)"
| "router_section v (RStoreId q key c) e =
     map_option (\<lambda>(r, e). (r, e, None)) (addConnByDst_store_id q key c e)"
| "router_section v (RSpawn q key c) e = Some (RSend q c, e, Some (CStart c key (pl_dst (pl_at e q))))"
| "router_section v (RSend q c) e = (let (r, e) = route_send q c e in Some (r, e, None))"

fun router_enabled :: "rpc \<Rightarrow> engine \<Rightarrow> bool" where
  "router_enabled RIdle e = (devReader e \<noteq> [])"
| "router_enabled r e = True"

section \<open>Connections, handlers and stream readers\<close>

text \<open>
  \<open>addConn\<close>: the search for a stream, then the loop that sends what arrives in the channel.
\<close>

definition addConn_search :: "env \<Rightarrow> chan \<Rightarrow> peer_id \<Rightarrow> ipaddr \<Rightarrow> ppc \<times> ppc option" where
  "addConn_search v c key d =
     (if found_stream v then (CRun c key d, Some (PReader key)) else (CDelAddr c key d, None))"

definition addConn_send :: "env \<Rightarrow> chan \<Rightarrow> peer_id \<Rightarrow> ipaddr \<Rightarrow> engine \<Rightarrow> ppc \<times> engine \<times> label" where
  "addConn_send v c key d e =
     (case chans e c of
        [] \<Rightarrow> (CRun c key d, e, Tau)
      | q # qs \<Rightarrow>
        let p = pl_at e q;
            e = put_payload q (e\<lparr>chans := (chans e)(c := qs)\<rparr>)
        in (if stream_ok v then CRun c key d else CDelAddr c key d, e, SentTo key p))"

text \<open>The reader of a stream, started by \<open>addConn\<close> and by \<open>VPNHandler\<close>.\<close>

definition stream_read :: "env \<Rightarrow> peer_id \<Rightarrow> engine \<Rightarrow> ppc \<times> engine \<times> label" where
  "stream_read v key e =
     (case msg_in v of
        None \<Rightarrow> (Finished, e, Tau)
      | Some msg \<Rightarrow>
        let (q, e) = new_payload (pick_payload v) (\<lambda>p. p\<lparr>pl_data := msg\<rparr>) e
        in (PSend key q, e, Received key msg))"

definition stream_deliver :: "peer_id \<Rightarrow> pointer \<Rightarrow> engine \<Rightarrow> ppc \<times> engine \<times> label" where
  "stream_deliver key q e =
     (PReader key, e\<lparr>devWriter := devWriter e @ [q]\<rparr>, Queued key (pl_data (pl_at e q)))"

text \<open>\<open>VPNHandler\<close>: the two lookups, then the loop that sends.\<close>

definition VPNHandler_start :: "peer_id \<Rightarrow> engine \<Rightarrow> ppc \<times> engine" where
  "VPNHandler_start key e =
     (let (r, m) = Load key (table_m e);
          e = e\<lparr>table_m := m\<rparr>
      in (if r = None then Finished else HId key, e))"

definition VPNHandler_id :: "peer_id \<Rightarrow> engine \<Rightarrow> ppc \<times> engine \<times> ppc option \<times> label" where
  "VPNHandler_id key e =
     (let (c, m) = Load key (table_id e);
          e = e\<lparr>table_id := m\<rparr>
      in case c of
           None \<Rightarrow> (Finished, e, None, Ignored key)
         | Some c \<Rightarrow> (HRun key c, e, Some (PReader key), Tau))"

definition VPNHandler_send :: "env \<Rightarrow> peer_id \<Rightarrow> chan \<Rightarrow> engine \<Rightarrow> ppc \<times> engine \<times> label" where
  "VPNHandler_send v key c e =
     (case chans e c of
        [] \<Rightarrow> (HRun key c, e, Tau)
      | q # qs \<Rightarrow>
        let p = pl_at e q
        in (HRun key c, put_payload q (e\<lparr>chans := (chans e)(c := qs)\<rparr>), SentTo key p))"

fun proc_section :: "env \<Rightarrow> ppc \<Rightarrow> engine \<Rightarrow> ppc \<times> engine \<times> ppc option \<times> label" where
  "proc_section v (CStart c key d) e = (let (p, sp) = addConn_search v c key d in (p, e, sp, Tau))"
| "proc_section v (CRun c key d) e = (let (p, e, l) = addConn_send v c key d e in (p, e, None, l))"
| "proc_section v (CDelAddr c key d) e =
     (CDelId c key, e\<lparr>table_addr := Delete d (table_addr e)\<rparr>, None, Tau)"
| "proc_section v (CDelId c key) e =
     (Finished, e\<lparr>table_id := Delete key (table_id e)\<rparr>, None, Tau)"
| "proc_section v (PReader key) e = (let (p, e, l) = stream_read v key e in (p, e, None, l))"
| "proc_section v (PSend key q) e = (let (p, e, l) = stream_deliver key q e in (p, e, None, l))"
| "proc_section v (HStart key) e = (let (p, e) = VPNHandler_start key e in (p, e, None, Tau))"
| "proc_section v (HId key) e = VPNHandler_id key e"
| "proc_section v (HRun key c) e = (let (p, e, l) = VPNHandler_send v key c e in (p, e, None, l))"
| "proc_section v Finished e = (Finished, e, None, Tau)"

fun proc_enabled :: "ppc \<Rightarrow> engine \<Rightarrow> bool" where
  "proc_enabled (CRun c key d) e = (chans e c \<noteq> [])"
| "proc_enabled (HRun key c) e = (chans e c \<noteq> [])"
| "proc_enabled (PSend key q) e = (length (devWriter e) < ChanSize)"
| "proc_enabled Finished e = False"
| "proc_enabled p e = True"

section \<open>The system\<close>

record esys =
  eng :: engine
  router :: rpc
  writer :: wpc
  procs :: "nat \<rightharpoonup> ppc"

definition spawn :: "nat \<Rightarrow> ppc option \<Rightarrow> (nat \<rightharpoonup> ppc) \<Rightarrow> (nat \<rightharpoonup> ppc)" where
  "spawn t sp P = (case sp of None \<Rightarrow> P | Some p \<Rightarrow> P(t \<mapsto> p))"

inductive estep :: "esys \<Rightarrow> label \<Rightarrow> esys \<Rightarrow> bool" where
  tun_read: "env_ok v \<Longrightarrow> RoutineTUNReader v (eng \<sigma>) = Some (e, l) \<Longrightarrow> estep \<sigma> l (\<sigma>\<lparr>eng := e\<rparr>)"
| tun_write: "env_ok v \<Longrightarrow> writer \<sigma> = WIdle \<longrightarrow> devWriter (eng \<sigma>) \<noteq> [] \<Longrightarrow>
     writer_section v (writer \<sigma>) (eng \<sigma>) = (w, e, l) \<Longrightarrow> estep \<sigma> l (\<sigma>\<lparr>eng := e, writer := w\<rparr>)"
| route: "env_ok v \<Longrightarrow> router_enabled (router \<sigma>) (eng \<sigma>) \<Longrightarrow> procs \<sigma> t = None \<Longrightarrow>
     router_section v (router \<sigma>) (eng \<sigma>) = Some (r, e, sp) \<Longrightarrow>
     estep \<sigma> Tau (\<sigma>\<lparr>eng := e, router := r, procs := spawn t sp (procs \<sigma>)\<rparr>)"
| proc: "env_ok v \<Longrightarrow> procs \<sigma> u = Some p \<Longrightarrow> proc_enabled p (eng \<sigma>) \<Longrightarrow> procs \<sigma> t = None \<Longrightarrow>
     proc_section v p (eng \<sigma>) = (p', e, sp, l) \<Longrightarrow>
     estep \<sigma> l (\<sigma>\<lparr>eng := e, procs := spawn t sp ((procs \<sigma>)(u \<mapsto> p'))\<rparr>)"
| incoming: "procs \<sigma> t = None \<Longrightarrow> estep \<sigma> Tau (\<sigma>\<lparr>procs := (procs \<sigma>)(t \<mapsto> HStart key)\<rparr>)"

inductive_cases estep_cases: "estep \<sigma> l \<sigma>'"

inductive erun :: "esys \<Rightarrow> label list \<Rightarrow> esys \<Rightarrow> bool" where
  erun_refl: "erun \<sigma> [] \<sigma>"
| erun_step: "erun \<sigma> tr \<sigma>' \<Longrightarrow> estep \<sigma>' l \<sigma>'' \<Longrightarrow> erun \<sigma> (tr @ [l]) \<sigma>''"

section \<open>The start\<close>

text \<open>\<open>for id, prefix := range e.cfg.PeersRouteTable \<dots> e.routeTable.m.Store(id, prefix)\<close>.\<close>

fun store_routes :: "(peer_id \<times> prefix) list \<Rightarrow> (peer_id, prefix) xmap \<Rightarrow> (peer_id, prefix) xmap option" where
  "store_routes [] m = Some m"
| "store_routes ((k, p) # rs) m = do { m \<leftarrow> Store k p m; store_routes rs m }"

definition engine_new :: "bool \<Rightarrow> (peer_id, prefix) xmap \<Rightarrow> engine" where
  "engine_new bc m =
     \<lparr>broadcast = bc, devReader = [], devWriter = [], ipPool = ipPacketPool,
      payloadPool = xpool_New empty_payload, table_m = m, table_id = empty_xmap, table_addr = empty_xmap,
      chans = (\<lambda>_. []), next_chan = 0\<rparr>"

definition esys_start :: "bool \<Rightarrow> (peer_id \<times> prefix) list \<Rightarrow> esys option" where
  "esys_start bc routes = do {
     m \<leftarrow> store_routes routes empty_xmap;
     Some \<lparr>eng = engine_new bc m, router = RIdle, writer = WIdle, procs = Map.empty\<rparr>
   }"

end
