(* ===== verification/EngineCorrect.thy ===== *)
theory EngineCorrect
  imports Engine
begin

text \<open>
  Correctness of the packet path: the invariant that every payload pointer is in one place and
  carries what that place promises, that the routing tables only name channels of the peer and
  address they are for, and what follows for every run of the goroutines.
\<close>

section \<open>Places of payloads\<close>

datatype place = AtReader | AtWriter | AtChan chan | AtRouter | AtProc nat

fun rpc_holds :: "rpc \<Rightarrow> pointer list" where
  "rpc_holds RIdle = []"
| "rpc_holds (RAddr q) = [q]"
| "rpc_holds (RAddr2 q) = [q]"
| "rpc_holds (RRange q) = [q]"
| "rpc_holds (RStoreAddr q key) = [q]"
| "rpc_holds (RStoreId q key c) = [q]"
| "rpc_holds (RSpawn q key c) = [q]"
| "rpc_holds (RSend q c) = [q]"

fun ppc_holds :: "ppc \<Rightarrow> pointer list" where
  "ppc_holds (PSend key q) = [q]"
| "ppc_holds p = []"

definition proc_holds :: "(nat \<rightharpoonup> ppc) \<Rightarrow> nat \<Rightarrow> pointer list" where
  "proc_holds P t = (case P t of None \<Rightarrow> [] | Some p \<Rightarrow> ppc_holds p)"

fun placed :: "esys \<Rightarrow> place \<Rightarrow> pointer list" where
  "placed \<sigma> AtReader = devReader (eng \<sigma>)"
| "placed \<sigma> AtWriter = devWriter (eng \<sigma>)"
| "placed \<sigma> (AtChan c) = chans (eng \<sigma>) c"
| "placed \<sigma> AtRouter = rpc_holds (router \<sigma>)"
| "placed \<sigma> (AtProc t) = proc_holds (procs \<sigma>) t"

definition held :: "(place \<Rightarrow> pointer list) \<Rightarrow> pointer set" where
  "held f = (\<Union>x. set (f x))"

text \<open>Every pointer in at most one place, at most once there, and not in the pool.\<close>

definition linear :: "(place \<Rightarrow> pointer list) \<Rightarrow> payload xpool \<Rightarrow> bool" where
  "linear f p \<longleftrightarrow> (\<forall>x. distinct (f x)) \<and> (\<forall>x y. x \<noteq> y \<longrightarrow> set (f x) \<inter> set (f y) = {}) \<and>
     pool_inv (held f) p"

lemma pool_inv_mono: "pool_inv L p \<Longrightarrow> L' \<subseteq> L \<Longrightarrow> pool_inv L' p"
  by (auto simp: pool_inv_def)

lemma linear_disjoint: "linear f p \<Longrightarrow> q \<in> set (f x) \<Longrightarrow> q \<in> set (f y) \<Longrightarrow> x = y"
  unfolding linear_def by blast

lemma heldI: "q \<in> set (f x) \<Longrightarrow> q \<in> held f"
  by (auto simp: held_def)

lemma held_shrink: "set xs \<subseteq> set (f x) \<Longrightarrow> held (f(x := xs)) \<subseteq> held f"
proof
  fix q assume "set xs \<subseteq> set (f x)" "q \<in> held (f(x := xs))"
  then obtain y where "q \<in> set ((f(x := xs)) y)" by (auto simp only: held_def)
  with \<open>set xs \<subseteq> set (f x)\<close> have "q \<in> set (f y)" by (cases "y = x") auto
  then show "q \<in> held f" by (rule heldI)
qed

lemma linear_drop:
  assumes "linear f p" "f x = us @ q # vs"
  shows "linear (f(x := us @ vs)) p" "q \<notin> held (f(x := us @ vs))"
proof -
  have d: "distinct (us @ q # vs)" using assms by (metis linear_def)
  have sub: "set (us @ vs) \<subseteq> set (f x)" using assms(2) by auto
  have "held (f(x := us @ vs)) \<subseteq> held f"
    using sub by (rule held_shrink)
  then have "pool_inv (held (f(x := us @ vs))) p"
    using assms(1) pool_inv_mono unfolding linear_def by blast
  then show "linear (f(x := us @ vs)) p"
    using assms(1) d sub unfolding linear_def by (simp add: disjoint_iff) blast
  have "q \<notin> set (f y)" if "y \<noteq> x" for y
    using that linear_disjoint [OF assms(1), of q x y] assms(2) by auto
  then show "q \<notin> held (f(x := us @ vs))" using d by (auto simp: held_def split: if_splits)
qed

lemma linear_add:
  assumes "linear f p" "q \<notin> held f" "pool_inv (insert q (held f)) p'"
  shows "linear (f(y := f y @ [q])) p'"
proof -
  have "held (f(y := f y @ [q])) = insert q (held f)"
    by (auto simp: held_def split: if_splits)
  moreover have "q \<notin> set (f z)" for z using assms(2) by (auto simp: held_def)
  ultimately show ?thesis
    using assms(1,3) unfolding linear_def by (auto simp: disjoint_iff)
qed

lemma linear_move:
  assumes "linear f p" "f x = us @ q # vs" "x \<noteq> y"
  shows "linear (f(x := us @ vs, y := f y @ [q])) p"
proof -
  note drop = linear_drop [OF assms(1,2)]
  have "q \<in> set (f x)" using assms(2) by simp
  then have "insert q (held (f(x := us @ vs))) \<subseteq> held f"
    using held_shrink [of "us @ vs" f x] heldI [of q f x] assms(2) by auto
  then have "pool_inv (insert q (held (f(x := us @ vs)))) p"
    using assms(1) pool_inv_mono unfolding linear_def by blast
  from linear_add [OF drop this, of y] show ?thesis using assms(3) by simp
qed

lemma linear_put:
  assumes "linear f p" "f x = us @ q # vs"
  shows "linear (f(x := us @ vs)) (pool_Put q p)"
proof -
  note drop = linear_drop [OF assms]
  have "q \<in> held f" using assms(2) by (intro heldI [of q f x]) simp
  moreover have "held (f(x := us @ vs)) \<subseteq> held f - {q}"
  proof -
    have "held (f(x := us @ vs)) \<subseteq> held f"
      using assms(2) by (intro held_shrink) auto
    with drop(2) show ?thesis by blast
  qed
  ultimately have "pool_inv (held (f(x := us @ vs))) (pool_Put q p)"
    using xpool.put_held [of "held f" p q] assms(1) pool_inv_mono unfolding linear_def by blast
  with drop(1) show ?thesis unfolding linear_def by blast
qed

lemma linear_new:
  assumes "linear f p" "pool_Get pick p = (q, p')"
  shows "linear (f(y := f y @ [q])) (cell_set q w p')" "q \<notin> held f"
    "r \<in> held f \<Longrightarrow> cells (cell_set q w p') r = cells p r"
    "linear f (pool_Put q (cell_set q w p'))"
proof -
  have inv: "pool_inv (held f) p" using assms(1) by (simp add: linear_def)
  show new: "q \<notin> held f" using inv assms(2) by (rule xpool.get_fresh)
  have "pool_inv (insert q (held f)) (cell_set q w p')" using inv assms(2) by (rule xpool.take_held)
  with linear_add [OF assms(1) new] show "linear (f(y := f y @ [q])) (cell_set q w p')" by blast
  show "cells (cell_set q w p') r = cells p r" if "r \<in> held f"
    using inv assms(2) that by (rule xpool.take_frame)
  have "pool_inv (held f) (pool_Put q (cell_set q w p'))" using inv assms(2) by (rule xpool.borrow_held)
  then show "linear f (pool_Put q (cell_set q w p'))" using assms(1) by (simp add: linear_def)
qed

section \<open>The invariant\<close>

text \<open>Peer \<open>k\<close> is configured with the address \<open>d\<close>.\<close>

definition routed :: "(peer_id \<rightharpoonup> prefix) \<Rightarrow> peer_id \<Rightarrow> ipaddr \<Rightarrow> bool" where
  "routed M k d \<longleftrightarrow> (\<exists>p. M k = Some p \<and> prefix_Addr p = d)"

text \<open>The payload is a packet that was read from the TUN device, and carries its destination.\<close>

definition from_tun :: "label list \<Rightarrow> payload \<Rightarrow> bool" where
  "from_tun tr p \<longleftrightarrow> ReadTun (pl_data p) \<in> set tr \<and> (\<exists>v s. ip_fields (pl_data p) = Some (v, s, pl_dst p))"

text \<open>The payload is a message received from a configured peer.\<close>

definition from_peer :: "(peer_id \<rightharpoonup> prefix) \<Rightarrow> label list \<Rightarrow> payload \<Rightarrow> bool" where
  "from_peer M tr p \<longleftrightarrow> (\<exists>k. M k \<noteq> None \<and> Received k (pl_data p) \<in> set tr)"

type_synonym owners = "chan \<Rightarrow> peer_id \<times> ipaddr"

fun router_ok :: "(peer_id \<rightharpoonup> prefix) \<Rightarrow> owners \<Rightarrow> nat \<Rightarrow> rpc \<Rightarrow> ipaddr \<Rightarrow> bool" where
  "router_ok M own n (RStoreAddr q k) d = routed M k d"
| "router_ok M own n (RStoreId q k c) d = (c < n \<and> own c = (k, d))"
| "router_ok M own n (RSpawn q k c) d = (c < n \<and> own c = (k, d))"
| "router_ok M own n (RSend q c) d = (c < n \<and> snd (own c) = d)"
| "router_ok M own n r d = True"

fun place_ok ::
  "(peer_id \<rightharpoonup> prefix) \<Rightarrow> owners \<Rightarrow> label list \<Rightarrow> nat \<Rightarrow> rpc \<Rightarrow> place \<Rightarrow> payload \<Rightarrow> bool" where
  "place_ok M own tr n r AtReader p = from_tun tr p"
| "place_ok M own tr n r AtWriter p = from_peer M tr p"
| "place_ok M own tr n r (AtChan c) p = (from_tun tr p \<and> pl_dst p = snd (own c))"
| "place_ok M own tr n r AtRouter p = (from_tun tr p \<and> router_ok M own n r (pl_dst p))"
| "place_ok M own tr n r (AtProc t) p = from_peer M tr p"

fun proc_ok :: "(peer_id \<rightharpoonup> prefix) \<Rightarrow> owners \<Rightarrow> nat \<Rightarrow> ppc \<Rightarrow> bool" where
  "proc_ok M own n (CStart c k d) = (c < n \<and> own c = (k, d))"
| "proc_ok M own n (CRun c k d) = (c < n \<and> own c = (k, d))"
| "proc_ok M own n (CDelAddr c k d) = (c < n \<and> own c = (k, d))"
| "proc_ok M own n (CDelId c k) = (c < n \<and> fst (own c) = k)"
| "proc_ok M own n (PReader k) = (M k \<noteq> None \<and> (\<exists>c<n. fst (own c) = k))"
| "proc_ok M own n (PSend k q) = (M k \<noteq> None \<and> (\<exists>c<n. fst (own c) = k))"
| "proc_ok M own n (HId k) = (M k \<noteq> None)"
| "proc_ok M own n (HRun k c) = (M k \<noteq> None \<and> c < n \<and> fst (own c) = k)"
| "proc_ok M own n p = True"

definition tables_ok :: "(peer_id \<rightharpoonup> prefix) \<Rightarrow> owners \<Rightarrow> engine \<Rightarrow> bool" where
  "tables_ok M own e \<longleftrightarrow>
     xinv (table_m e) \<and> xinv (table_id e) \<and> xinv (table_addr e) \<and> xabs (table_m e) = M \<and>
     (\<forall>d c. xabs (table_addr e) d = Some c \<longrightarrow> c < next_chan e \<and> snd (own c) = d) \<and>
     (\<forall>k c. xabs (table_id e) k = Some c \<longrightarrow> c < next_chan e \<and> fst (own c) = k) \<and>
     (\<forall>c<next_chan e. routed M (fst (own c)) (snd (own c))) \<and>
     (\<forall>c\<ge>next_chan e. chans e c = [])"

definition payloads_ok :: "(place \<Rightarrow> payload \<Rightarrow> bool) \<Rightarrow> (place \<Rightarrow> pointer list) \<Rightarrow> (pointer \<Rightarrow> payload) \<Rightarrow> bool" where
  "payloads_ok P f c \<longleftrightarrow> (\<forall>x. \<forall>q\<in>set (f x). P x (c q))"

text \<open>Every channel was made for the destination of a packet read from the TUN device.\<close>

definition asked_for :: "label list \<Rightarrow> ipaddr \<Rightarrow> bool" where
  "asked_for tr d \<longleftrightarrow> (\<exists>p. from_tun tr p \<and> pl_dst p = d)"

definition einv :: "(peer_id \<rightharpoonup> prefix) \<Rightarrow> owners \<Rightarrow> label list \<Rightarrow> esys \<Rightarrow> bool" where
  "einv M own tr \<sigma> \<longleftrightarrow>
     linear (placed \<sigma>) (payloadPool (eng \<sigma>)) \<and>
     payloads_ok (place_ok M own tr (next_chan (eng \<sigma>)) (router \<sigma>)) (placed \<sigma>) (pl_at (eng \<sigma>)) \<and>
     tables_ok M own (eng \<sigma>) \<and>
     (\<forall>c<next_chan (eng \<sigma>). asked_for tr (snd (own c))) \<and>
     (\<forall>t p. procs \<sigma> t = Some p \<longrightarrow> proc_ok M own (next_chan (eng \<sigma>)) p)"

lemma from_tun_mono: "from_tun tr p \<Longrightarrow> from_tun (tr @ [l]) p"
  by (auto simp: from_tun_def)

lemma from_peer_mono: "from_peer M tr p \<Longrightarrow> from_peer M (tr @ [l]) p"
  by (auto simp: from_peer_def)

lemma place_ok_mono: "place_ok M own tr n r x p \<Longrightarrow> place_ok M own (tr @ [l]) n r x p"
  by (cases x) (auto intro: from_tun_mono from_peer_mono)

lemma einvD:
  assumes "einv M own tr \<sigma>"
  shows "linear (placed \<sigma>) (payloadPool (eng \<sigma>))" "tables_ok M own (eng \<sigma>)"
    "q \<in> set (placed \<sigma> x) \<Longrightarrow> place_ok M own tr (next_chan (eng \<sigma>)) (router \<sigma>) x (pl_at (eng \<sigma>) q)"
    "procs \<sigma> t = Some p \<Longrightarrow> proc_ok M own (next_chan (eng \<sigma>)) p"
    "c < next_chan (eng \<sigma>) \<Longrightarrow> asked_for tr (snd (own c))"
  using assms by (auto simp: einv_def payloads_ok_def)

text \<open>
  Re-establishing the invariant: a pointer of the new state is either an old one with the same
  payload, in the same place with no new demand, or its place's promise is shown afresh.
\<close>

lemma einvI:
  assumes inv: "einv M own tr \<sigma>"
    and lin: "linear (placed \<sigma>') (payloadPool (eng \<sigma>'))"
    and pay: "\<And>x q. q \<in> set (placed \<sigma>' x) \<Longrightarrow>
      (q \<in> set (placed \<sigma> x) \<and> pl_at (eng \<sigma>') q = pl_at (eng \<sigma>) q \<and> (x = AtRouter \<longrightarrow> router \<sigma>' = router \<sigma>)) \<or>
      place_ok M own' (tr @ [l]) (next_chan (eng \<sigma>')) (router \<sigma>') x (pl_at (eng \<sigma>') q)"
    and own: "\<And>c. c < next_chan (eng \<sigma>) \<Longrightarrow> own' c = own c" "next_chan (eng \<sigma>) \<le> next_chan (eng \<sigma>')"
    and tab: "tables_ok M own' (eng \<sigma>')"
    and procs: "\<And>t p. procs \<sigma>' t = Some p \<Longrightarrow> procs \<sigma> t = Some p \<or> proc_ok M own' (next_chan (eng \<sigma>')) p"
    and asked: "\<And>c. next_chan (eng \<sigma>) \<le> c \<Longrightarrow> c < next_chan (eng \<sigma>') \<Longrightarrow> asked_for tr (snd (own' c))"
  shows "einv M own' (tr @ [l]) \<sigma>'"
proof -
  have "place_ok M own' (tr @ [l]) (next_chan (eng \<sigma>')) (router \<sigma>') x (pl_at (eng \<sigma>') q)"
    if q: "q \<in> set (placed \<sigma>' x)" for x q
    using pay [OF q]
  proof
    assume old: "q \<in> set (placed \<sigma> x) \<and> pl_at (eng \<sigma>') q = pl_at (eng \<sigma>) q \<and>
      (x = AtRouter \<longrightarrow> router \<sigma>' = router \<sigma>)"
    have chan: "c < next_chan (eng \<sigma>)" if "x = AtChan c" for c
      using old that einvD(2) [OF inv] by (auto simp: tables_ok_def not_le [symmetric])
    have "place_ok M own (tr @ [l]) (next_chan (eng \<sigma>)) (router \<sigma>) x (pl_at (eng \<sigma>) q)"
      using einvD(3) [OF inv, of q x] old place_ok_mono by blast
    moreover have "router_ok M own (next_chan (eng \<sigma>)) r d \<Longrightarrow>
        router_ok M own' (next_chan (eng \<sigma>')) r d" for r d
      using own by (cases r) auto
    ultimately show ?thesis using old own(1) chan by (cases x) auto
  qed
  moreover have "proc_ok M own' (next_chan (eng \<sigma>')) p" if "procs \<sigma>' t = Some p" for t p
    using procs [OF that]
  proof
    assume "procs \<sigma> t = Some p"
    with einvD(4) [OF inv] have "proc_ok M own (next_chan (eng \<sigma>)) p" by blast
    with own show ?thesis by (cases p) (auto intro: less_le_trans)
  qed
  moreover have "asked_for (tr @ [l]) (snd (own' c))" if "c < next_chan (eng \<sigma>')" for c
  proof -
    have "asked_for tr (snd (own' c))"
      using that own(1) [of c] einvD(5) [OF inv, of c] asked [of c] by (cases "c < next_chan (eng \<sigma>)") auto
    then show ?thesis unfolding asked_for_def using from_tun_mono by blast
  qed
  ultimately show ?thesis using lin tab by (simp add: einv_def payloads_ok_def)
qed

lemma tables_ok_cong:
  assumes "tables_ok M own e" "table_m e' = table_m e" "table_id e' = table_id e" "table_addr e' = table_addr e"
    "next_chan e' = next_chan e" "\<forall>c\<ge>next_chan e. chans e' c = []"
  shows "tables_ok M own e'"
  using assms by (simp add: tables_ok_def)

lemma tables_chans: "tables_ok M own e \<Longrightarrow> \<forall>c\<ge>next_chan e. chans e c = []"
  by (simp add: tables_ok_def)

lemma placed_heldI: "q \<in> set (placed \<sigma> x) \<Longrightarrow> q \<in> held (placed \<sigma>)"
  by (rule heldI)

section \<open>Each section keeps the invariant\<close>

subsection \<open>Steps that move, drop or give back one payload\<close>

lemma placed_router: "placed \<sigma> AtRouter = us @ q # vs \<Longrightarrow> us = [] \<and> vs = []"
  by (cases "router \<sigma>") (auto simp: Cons_eq_append_conv)

text \<open>The payload leaves its place: it goes back to the pool or is forgotten.\<close>

lemma einv_shrink:
  assumes inv: "einv M own tr \<sigma>"
    and x: "placed \<sigma> x = us @ q # vs" and pl: "placed \<sigma>' = (placed \<sigma>)(x := us @ vs)"
    and pool: "payloadPool (eng \<sigma>') = payloadPool (eng \<sigma>) \<or> payloadPool (eng \<sigma>') = pool_Put q (payloadPool (eng \<sigma>))"
    and r: "x = AtRouter \<or> router \<sigma>' = router \<sigma>"
    and n: "next_chan (eng \<sigma>') = next_chan (eng \<sigma>)" and tab: "tables_ok M own (eng \<sigma>')"
    and procs: "\<And>t p. procs \<sigma>' t = Some p \<Longrightarrow> procs \<sigma> t = Some p \<or> proc_ok M own (next_chan (eng \<sigma>')) p"
  shows "einv M own (tr @ [l]) \<sigma>'"
proof (rule einvI [OF inv])
  show "linear (placed \<sigma>') (payloadPool (eng \<sigma>'))"
    using pool linear_drop(1) [OF einvD(1) [OF inv] x] linear_put [OF einvD(1) [OF inv] x]
    unfolding pl by auto
  fix y s assume s: "s \<in> set (placed \<sigma>' y)"
  have "s \<in> set (placed \<sigma> y)" using s x by (auto simp: pl split: if_splits)
  moreover have "y = AtRouter \<longrightarrow> router \<sigma>' = router \<sigma>"
    using s r placed_router [of \<sigma> us q vs] x by (auto simp: pl)
  moreover have "pl_at (eng \<sigma>') s = pl_at (eng \<sigma>) s" using pool by (auto simp: xpool.put_frame)
  ultimately show "s \<in> set (placed \<sigma> y) \<and> pl_at (eng \<sigma>') s = pl_at (eng \<sigma>) s \<and>
      (y = AtRouter \<longrightarrow> router \<sigma>' = router \<sigma>) \<or>
    place_ok M own (tr @ [l]) (next_chan (eng \<sigma>')) (router \<sigma>') y (pl_at (eng \<sigma>') s)" by blast
qed (use n tab procs in auto)

lemma einv_move:
  assumes inv: "einv M own tr \<sigma>"
    and x: "placed \<sigma> x = us @ q # vs" "x \<noteq> y"
    and pl: "placed \<sigma>' = (placed \<sigma>)(x := us @ vs, y := placed \<sigma> y @ [q])"
    and pool: "payloadPool (eng \<sigma>') = payloadPool (eng \<sigma>)"
    and r: "x = AtRouter \<or> (y = AtRouter \<and> placed \<sigma> AtRouter = []) \<or> router \<sigma>' = router \<sigma>"
    and y: "place_ok M own (tr @ [l]) (next_chan (eng \<sigma>')) (router \<sigma>') y (pl_at (eng \<sigma>') q)"
    and n: "next_chan (eng \<sigma>') = next_chan (eng \<sigma>)" and tab: "tables_ok M own (eng \<sigma>')"
    and procs: "\<And>t p. procs \<sigma>' t = Some p \<Longrightarrow> procs \<sigma> t = Some p \<or> proc_ok M own (next_chan (eng \<sigma>')) p"
  shows "einv M own (tr @ [l]) \<sigma>'"
proof (rule einvI [OF inv])
  show "linear (placed \<sigma>') (payloadPool (eng \<sigma>'))"
    unfolding pl pool by (rule linear_move [OF einvD(1) [OF inv] x])
  fix z s assume s: "s \<in> set (placed \<sigma>' z)"
  show "s \<in> set (placed \<sigma> z) \<and> pl_at (eng \<sigma>') s = pl_at (eng \<sigma>) s \<and>
      (z = AtRouter \<longrightarrow> router \<sigma>' = router \<sigma>) \<or>
    place_ok M own (tr @ [l]) (next_chan (eng \<sigma>')) (router \<sigma>') z (pl_at (eng \<sigma>') s)"
  proof (cases "z = y \<and> s = q")
    case True with y show ?thesis by simp
  next
    case False
    then have "s \<in> set (placed \<sigma> z)" using s x by (auto simp: pl split: if_splits)
    moreover have "z = AtRouter \<longrightarrow> router \<sigma>' = router \<sigma>"
      using s r False placed_router [of \<sigma> us q vs] x by (auto simp: pl split: if_splits)
    ultimately show ?thesis using pool by simp
  qed
qed (use n tab procs in auto)

text \<open>No payload moves; the router may learn where its payload goes.\<close>

lemma einv_keep:
  assumes inv: "einv M own tr \<sigma>"
    and pl: "placed \<sigma>' = placed \<sigma>" and pool: "payloadPool (eng \<sigma>') = payloadPool (eng \<sigma>)"
    and r: "\<And>q. router \<sigma>' \<noteq> router \<sigma> \<Longrightarrow> placed \<sigma> AtRouter = [q] \<Longrightarrow>
      router_ok M own' (next_chan (eng \<sigma>')) (router \<sigma>') (pl_dst (pl_at (eng \<sigma>) q))"
    and own: "\<And>c. c < next_chan (eng \<sigma>) \<Longrightarrow> own' c = own c" "next_chan (eng \<sigma>) \<le> next_chan (eng \<sigma>')"
    and tab: "tables_ok M own' (eng \<sigma>')"
    and procs: "\<And>t p. procs \<sigma>' t = Some p \<Longrightarrow> procs \<sigma> t = Some p \<or> proc_ok M own' (next_chan (eng \<sigma>')) p"
    and asked: "\<And>c. next_chan (eng \<sigma>) \<le> c \<Longrightarrow> c < next_chan (eng \<sigma>') \<Longrightarrow> asked_for tr (snd (own' c))"
  shows "einv M own' (tr @ [l]) \<sigma>'"
proof (rule einvI [OF inv _ _ own tab procs asked])
  show "linear (placed \<sigma>') (payloadPool (eng \<sigma>'))" unfolding pl pool by (rule einvD(1) [OF inv])
  fix z s assume "s \<in> set (placed \<sigma>' z)"
  then have s: "s \<in> set (placed \<sigma> z)" by (simp add: pl)
  show "s \<in> set (placed \<sigma> z) \<and> pl_at (eng \<sigma>') s = pl_at (eng \<sigma>) s \<and>
      (z = AtRouter \<longrightarrow> router \<sigma>' = router \<sigma>) \<or>
    place_ok M own' (tr @ [l]) (next_chan (eng \<sigma>')) (router \<sigma>') z (pl_at (eng \<sigma>') s)"
  proof (cases "z = AtRouter \<and> router \<sigma>' \<noteq> router \<sigma>")
    case True
    then obtain us vs where "placed \<sigma> AtRouter = us @ s # vs" using s by (meson split_list)
    with placed_router [OF this] have "placed \<sigma> AtRouter = [s]" by simp
    with True r [of s] einvD(3) [OF inv s] show ?thesis by (simp add: pool from_tun_mono)
  next
    case False with s pool show ?thesis by auto
  qed
qed

text \<open>A payload comes fresh from the pool.\<close>

lemma einv_new:
  assumes inv: "einv M own tr \<sigma>" and get: "pool_Get pick (payloadPool (eng \<sigma>)) = (q, p)"
    and pl: "placed \<sigma>' = (placed \<sigma>)(y := placed \<sigma> y @ [q])" and y: "y \<noteq> AtRouter"
    and pool: "payloadPool (eng \<sigma>') = cell_set q w p"
    and r: "router \<sigma>' = router \<sigma>"
    and ok: "place_ok M own (tr @ [l]) (next_chan (eng \<sigma>')) (router \<sigma>') y w"
    and n: "next_chan (eng \<sigma>') = next_chan (eng \<sigma>)" and tab: "tables_ok M own (eng \<sigma>')"
    and procs: "\<And>t p. procs \<sigma>' t = Some p \<Longrightarrow> procs \<sigma> t = Some p \<or> proc_ok M own (next_chan (eng \<sigma>')) p"
  shows "einv M own (tr @ [l]) \<sigma>'"
proof (rule einvI [OF inv])
  note new = linear_new [OF einvD(1) [OF inv] get]
  show "linear (placed \<sigma>') (payloadPool (eng \<sigma>'))" unfolding pl pool by (rule new(1))
  fix z s assume s: "s \<in> set (placed \<sigma>' z)"
  show "s \<in> set (placed \<sigma> z) \<and> pl_at (eng \<sigma>') s = pl_at (eng \<sigma>) s \<and>
      (z = AtRouter \<longrightarrow> router \<sigma>' = router \<sigma>) \<or>
    place_ok M own (tr @ [l]) (next_chan (eng \<sigma>')) (router \<sigma>') z (pl_at (eng \<sigma>') s)"
  proof (cases "s = q")
    case True
    with s new(2) placed_heldI [of q \<sigma> z] have "z = y" by (auto simp: pl split: if_splits)
    with True ok show ?thesis by (simp add: pool xpool.assign_same)
  next
    case False
    with s have "s \<in> set (placed \<sigma> z)" by (auto simp: pl split: if_splits)
    with new(3) [of s w] placed_heldI r show ?thesis by (auto simp: pool)
  qed
qed (use n tab procs in auto)

subsection \<open>The TUN reader\<close>

lemma ParseIP_result:
  "\<exists>ips. (case ip_fields pkt of
       None \<Rightarrow> ParseIP c p pkt = Some (Inl ErrInvalidIPPacket, ips)
     | Some (v, s, d) \<Rightarrow> \<exists>a. ParseIP c p pkt = Some (Inr a, ips) \<and> dst (cells ips a) = d)"
proof -
  obtain a p' where get: "pool_Get c p = (a, p')" by fastforce
  show ?thesis
  proof (cases "ip_fields pkt")
    case None
    with ParseIP_cases(2,3) [OF get, of pkt] show ?thesis by (cases "length pkt < 20") auto
  next
    case (Some f)
    obtain v s d where f: "f = (v, s, d)" by (cases f)
    from ParseIP_cases(1) [OF get Some [unfolded f]] show ?thesis
      by (simp add: Some f xpool.assign_same)
  qed
qed

text \<open>What one round of the reader does, branch by branch.\<close>

lemma reader_cases:
  obtains (error) "tun_in v = None" "RoutineTUNReader v e = Some (e, Tau)"
    | (drop) pkt ips where "tun_in v = Some pkt"
        "ip_fields pkt = None \<or> (\<exists>n s d. ip_fields pkt = Some (n, s, d) \<and> is_broadcast d \<and> \<not> broadcast e)"
        "RoutineTUNReader v e = Some (e\<lparr>ipPool := ips\<rparr>, ReadTun pkt)"
    | (send) pkt n s d q p ips where "tun_in v = Some pkt" "ip_fields pkt = Some (n, s, d)"
        "\<not> (is_broadcast d \<and> \<not> broadcast e)" "pool_Get (pick_payload v) (payloadPool e) = (q, p)"
        "RoutineTUNReader v e = Some
          (let p = cell_set q ((cells p q)\<lparr>pl_dst := d, pl_data := pkt\<rparr>) p
           in if length (devReader e) < ChanSize
              then e\<lparr>ipPool := ips, payloadPool := p, devReader := devReader e @ [q]\<rparr>
              else e\<lparr>ipPool := ips, payloadPool := pool_Put q p\<rparr>, ReadTun pkt)"
proof (cases "tun_in v")
  case None
  then show thesis by (intro error) (simp_all add: RoutineTUNReader_def)
next
  case (Some pkt)
  show thesis
  proof (cases "ip_fields pkt")
    case None
    with ParseIP_result [where pkt = pkt and c = "pick_ip v" and p = "ipPool e"] obtain ips where
      "ParseIP (pick_ip v) (ipPool e) pkt = Some (Inl ErrInvalidIPPacket, ips)" by auto
    with Some None show thesis by (intro drop) (auto simp: RoutineTUNReader_def)
  next
    case f: (Some f)
    obtain n s d where [simp]: "f = (n, s, d)" by (cases f)
    from ParseIP_result [where pkt = pkt and c = "pick_ip v" and p = "ipPool e"] f obtain ips a where
      ips: "ParseIP (pick_ip v) (ipPool e) pkt = Some (Inr a, ips)" "dst (cells ips a) = d" by auto
    obtain q p where get: "pool_Get (pick_payload v) (payloadPool e) = (q, p)" by fastforce
    show thesis
    proof (cases "is_broadcast d \<and> \<not> broadcast e")
      case True
      with Some f ips show thesis by (intro drop) (auto simp: RoutineTUNReader_def)
    next
      case False
      with Some f ips get show thesis
        by (intro send) (auto simp: RoutineTUNReader_def new_payload_def put_payload_def try_send_def Let_def)
    qed
  qed
qed

lemma from_tun_new:
  assumes "ip_fields pkt = Some (n, s, d)"
  shows "from_tun (tr @ [ReadTun pkt]) (p\<lparr>pl_dst := d, pl_data := pkt\<rparr>)"
  using assms by (auto simp: from_tun_def)

lemma reader_einv:
  assumes inv: "einv M own tr \<sigma>" and step: "RoutineTUNReader v (eng \<sigma>) = Some (e, l)"
  shows "einv M own (tr @ [l]) (\<sigma>\<lparr>eng := e\<rparr>)"
proof (cases rule: reader_cases [of v "eng \<sigma>"])
  case error
  with step have [simp]: "e = eng \<sigma>" by simp
  show ?thesis by (rule einvI [OF inv]) (use einvD [OF inv] in auto)
next
  case (drop pkt ips)
  with step have e: "e = (eng \<sigma>)\<lparr>ipPool := ips\<rparr>" "l = ReadTun pkt" by auto
  have "placed (\<sigma>\<lparr>eng := e\<rparr>) = placed \<sigma>"
  proof
    fix x show "placed (\<sigma>\<lparr>eng := e\<rparr>) x = placed \<sigma> x" by (cases x) (simp_all add: e)
  qed
  then show ?thesis
    by (intro einvI [OF inv]) (use einvD(1,2) [OF inv] tables_ok_cong [OF einvD(2) [OF inv], of e]
        tables_chans [OF einvD(2) [OF inv]] in \<open>auto simp: e\<close>)
next
  case (send pkt n s d q p ips)
  note lin = einvD(1) [OF inv]
  let ?w = "(cells p q)\<lparr>pl_dst := d, pl_data := pkt\<rparr>"
  note new = linear_new [OF lin send(4)]
  have tab: "tables_ok M own e"
    using step send(5) tables_chans [OF einvD(2) [OF inv]]
    by (intro tables_ok_cong [OF einvD(2) [OF inv]]) (auto simp: Let_def split: if_splits)
  have l: "l = ReadTun pkt" using step send(5) by simp
  show ?thesis
  proof (cases "length (devReader (eng \<sigma>)) < ChanSize")
    case True
    then have e: "e = (eng \<sigma>)\<lparr>ipPool := ips, payloadPool := cell_set q ?w p, devReader := devReader (eng \<sigma>) @ [q]\<rparr>"
      using step send(5) by simp
    have pl: "placed (\<sigma>\<lparr>eng := e\<rparr>) = (placed \<sigma>)(AtReader := placed \<sigma> AtReader @ [q])"
    proof
      fix x show "placed (\<sigma>\<lparr>eng := e\<rparr>) x = ((placed \<sigma>)(AtReader := placed \<sigma> AtReader @ [q])) x"
        by (cases x) (simp_all add: e)
    qed
    have "place_ok M own (tr @ [l]) n r AtReader ?w" for n r
      using from_tun_new [OF send(2)] by (simp add: l)
    then show ?thesis by (intro einv_new [OF inv send(4) pl]) (use tab in \<open>simp_all add: e\<close>)
  next
    case False
    then have e: "e = (eng \<sigma>)\<lparr>ipPool := ips, payloadPool := pool_Put q (cell_set q ?w p)\<rparr>"
      using step send(5) by simp
    have pl: "placed (\<sigma>\<lparr>eng := e\<rparr>) = placed \<sigma>"
    proof
      fix x show "placed (\<sigma>\<lparr>eng := e\<rparr>) x = placed \<sigma> x" by (cases x) (simp_all add: e)
    qed
    show ?thesis
    proof (rule einvI [OF inv])
      show "linear (placed (\<sigma>\<lparr>eng := e\<rparr>)) (payloadPool (eng (\<sigma>\<lparr>eng := e\<rparr>)))"
        using new(4) unfolding pl by (simp add: e)
      fix x r assume "r \<in> set (placed (\<sigma>\<lparr>eng := e\<rparr>) x)"
      then have r: "r \<in> set (placed \<sigma> x)" by (simp add: pl)
      with new(3) [of r ?w] placed_heldI
      show "r \<in> set (placed \<sigma> x) \<and> pl_at (eng (\<sigma>\<lparr>eng := e\<rparr>)) r = pl_at (eng \<sigma>) r \<and>
          (x = AtRouter \<longrightarrow> router (\<sigma>\<lparr>eng := e\<rparr>) = router \<sigma>) \<or>
        place_ok M own (tr @ [l]) (next_chan (eng (\<sigma>\<lparr>eng := e\<rparr>))) (router (\<sigma>\<lparr>eng := e\<rparr>)) x
          (pl_at (eng (\<sigma>\<lparr>eng := e\<rparr>)) r)"
        by (simp add: e xpool.put_frame)
    qed (use tab in \<open>auto simp: e\<close>)
  qed
qed

subsection \<open>The TUN writer\<close>

lemma fun_upd_placeI:
  "(\<And>y. f y = (if y = x then xs else g y)) \<Longrightarrow> f = g(x := xs)"
  by (simp add: fun_eq_iff)

lemma writer_einv:
  assumes inv: "einv M own tr \<sigma>" and step: "writer_section v w (eng \<sigma>) = (w', e, l)"
  shows "einv M own (tr @ [l]) (\<sigma>\<lparr>eng := e, writer := w'\<rparr>)"
proof -
  have same: "placed (\<sigma>\<lparr>writer := w'\<rparr>) = placed \<sigma>"
  proof
    fix x show "placed (\<sigma>\<lparr>writer := w'\<rparr>) x = placed \<sigma> x" by (cases x) simp_all
  qed
  have stay: "einv M own (tr @ [l]) (\<sigma>\<lparr>eng := e, writer := w'\<rparr>)" if "e = eng \<sigma>"
    by (rule einv_keep [OF inv]) (use that einvD(2) [OF inv] in \<open>simp_all add: same\<close>)
  show ?thesis
  proof (cases "w = WIdle \<and> devWriter (eng \<sigma>) \<noteq> []")
    case False
    then have "e = eng \<sigma>"
      using step by (cases w) (auto simp: RoutineTUNWriter_def)
    then show ?thesis by (rule stay)
  next
    case True
    then obtain q qs where q: "devWriter (eng \<sigma>) = q # qs" by (cases "devWriter (eng \<sigma>)") auto
    with True step have e: "e = put_payload q ((eng \<sigma>)\<lparr>devWriter := qs\<rparr>)"
      by (auto simp: RoutineTUNWriter_def Let_def split: if_splits)
    have pl: "placed (\<sigma>\<lparr>eng := e, writer := w'\<rparr>) = (placed \<sigma>)(AtWriter := [] @ qs)"
    proof (rule fun_upd_placeI)
      fix x show "placed (\<sigma>\<lparr>eng := e, writer := w'\<rparr>) x = (if x = AtWriter then [] @ qs else placed \<sigma> x)"
        by (cases x) (simp_all add: e put_payload_def)
    qed
    have tab: "tables_ok M own e"
      using tables_chans [OF einvD(2) [OF inv]]
      by (intro tables_ok_cong [OF einvD(2) [OF inv]]) (simp_all add: e put_payload_def)
    have x: "placed \<sigma> AtWriter = [] @ q # qs" by (simp add: q)
    show ?thesis
      by (rule einv_shrink [OF inv x pl]) (use tab in \<open>simp_all add: e put_payload_def\<close>)
  qed
qed

subsection \<open>The router\<close>

lemma find_peer_correct:
  assumes "env_ok v" and "xinv (table_m e)"
  obtains m r where "find_peer v d e = (r, e\<lparr>table_m := m\<rparr>)" "xinv m" "xabs m = xabs (table_m e)"
    "\<And>k. r = None \<Longrightarrow> \<not> routed (xabs (table_m e)) k d" "\<And>k. r = Some k \<Longrightarrow> routed (xabs (table_m e)) k d"
proof -
  obtain m xs where R: "Range (range_order v) (lift_callback (same_addr d)) (table_m e) None =
      (m, visit (same_addr d) xs None)" "xinv m" "xabs m = xabs (table_m e)" "wf_map xs"
      "map_of xs = xabs (table_m e)"
    using Range_correct [OF assms(2), of "range_order v" "same_addr d" None] assms(1)
    by (auto simp: env_ok_def)
  have visit: "visit (same_addr d) ys r = (case List.find (\<lambda>(k, p). prefix_Addr p = d) ys of
      None \<Rightarrow> r | Some (k, p) \<Rightarrow> Some k)" for ys r
    by (induction ys arbitrary: r) (auto simp: same_addr_def addr_Compare_eq)
  show thesis
  proof (rule that)
    show "find_peer v d e = (visit (same_addr d) xs None, e\<lparr>table_m := m\<rparr>)"
      by (simp add: find_peer_def R(1))
    show "xinv m" "xabs m = xabs (table_m e)" by fact+
    show "\<not> routed (xabs (table_m e)) k d" if "visit (same_addr d) xs None = None" for k
    proof
      assume "routed (xabs (table_m e)) k d"
      then obtain p where "map_of xs k = Some p" "prefix_Addr p = d" by (auto simp: routed_def R(5))
      with that show False
        by (auto simp: visit find_None_iff split: option.splits prod.splits dest!: map_of_SomeD)
    qed
    show "routed (xabs (table_m e)) k d" if "visit (same_addr d) xs None = Some k" for k
    proof -
      from that obtain p where p: "List.find (\<lambda>(k, p). prefix_Addr p = d) xs = Some (k, p)"
        by (auto simp: visit split: option.splits)
      then have "(k, p) \<in> set xs" "prefix_Addr p = d" by (auto simp: find_Some_iff in_set_conv_nth)
      with R(4) have "map_of xs k = Some p" by (simp add: wf_map_def)
      with \<open>prefix_Addr p = d\<close> show ?thesis by (auto simp: routed_def R(5))
    qed
  qed
qed

lemma spawn_Some: "spawn t sp P u = Some p \<Longrightarrow> P u = Some p \<or> sp = Some p"
  by (auto simp: spawn_def split: option.splits if_splits)

lemma proc_holds_spawn:
  "P t = None \<Longrightarrow> (\<And>p. sp = Some p \<Longrightarrow> ppc_holds p = []) \<Longrightarrow> proc_holds (spawn t sp P) u = proc_holds P u"
  by (auto simp: proc_holds_def spawn_def split: option.splits)

text \<open>The router goes on with the payload it holds.\<close>

lemma router_keep:
  assumes inv: "einv M own tr \<sigma>" and t: "procs \<sigma> t = None"
    and q: "rpc_holds (router \<sigma>) = [q]" "rpc_holds r = [q]"
    and e: "devReader e = devReader (eng \<sigma>)" "devWriter e = devWriter (eng \<sigma>)"
      "chans e = chans (eng \<sigma>)" "payloadPool e = payloadPool (eng \<sigma>)"
    and r: "router_ok M own' (next_chan e) r (pl_dst (pl_at (eng \<sigma>) q))"
    and own: "\<And>c. c < next_chan (eng \<sigma>) \<Longrightarrow> own' c = own c" "next_chan (eng \<sigma>) \<le> next_chan e"
    and tab: "tables_ok M own' e"
    and sp: "\<And>p. sp = Some p \<Longrightarrow> ppc_holds p = [] \<and> proc_ok M own' (next_chan e) p"
    and asked: "\<And>c. next_chan (eng \<sigma>) \<le> c \<Longrightarrow> c < next_chan e \<Longrightarrow> asked_for tr (snd (own' c))"
  shows "einv M own' (tr @ [l]) (\<sigma>\<lparr>eng := e, router := r, procs := spawn t sp (procs \<sigma>)\<rparr>)" (is "einv _ _ _ ?s")
proof -
  have "placed ?s = placed \<sigma>"
  proof
    fix x show "placed ?s x = placed \<sigma> x"
      using sp by (cases x) (simp_all add: e q proc_holds_spawn [where P = "procs \<sigma>", OF t])
  qed
  then show ?thesis
    by (rule einv_keep [OF inv]) (use q e r own tab sp asked in \<open>auto dest!: spawn_Some\<close>)
qed

text \<open>The router lets go of its payload, or takes one.\<close>

lemma placed_router_step:
  assumes "chans e = (chans (eng \<sigma>))(c := xs)" "devReader e = ds" "devWriter e = devWriter (eng \<sigma>)"
  shows "placed (\<sigma>\<lparr>eng := e, router := r, procs := P\<rparr>) x =
    (case x of AtReader \<Rightarrow> ds | AtWriter \<Rightarrow> devWriter (eng \<sigma>)
      | AtChan d \<Rightarrow> if d = c then xs else chans (eng \<sigma>) d | AtRouter \<Rightarrow> rpc_holds r | AtProc t \<Rightarrow> proc_holds P t)"
  using assms by (cases x) simp_all

lemma route_receive_einv:
  assumes inv: "einv M own tr \<sigma>" and r: "router \<sigma> = RIdle" and ne: "devReader (eng \<sigma>) \<noteq> []"
    and step: "route_receive (eng \<sigma>) = (r', e)"
  shows "einv M own (tr @ [l]) (\<sigma>\<lparr>eng := e, router := r', procs := procs \<sigma>\<rparr>)" (is "einv _ _ _ ?s")
proof -
  obtain q qs where q: "devReader (eng \<sigma>) = q # qs" using ne by (cases "devReader (eng \<sigma>)") auto
  with step have e: "e = (eng \<sigma>)\<lparr>devReader := qs\<rparr>" and r': "r' = RIdle \<or> r' = RAddr q"
    by (auto simp: route_receive_def Let_def split: if_splits)
  have x: "placed \<sigma> AtReader = [] @ q # qs" by (simp add: q)
  have tab: "tables_ok M own e"
    using tables_chans [OF einvD(2) [OF inv]]
    by (intro tables_ok_cong [OF einvD(2) [OF inv]]) (simp_all add: e)
  show ?thesis
    using r'
  proof
    assume r': "r' = RIdle"
    have pl: "placed ?s = (placed \<sigma>)(AtReader := [] @ qs)"
    proof (rule fun_upd_placeI)
      fix y show "placed ?s y = (if y = AtReader then [] @ qs else placed \<sigma> y)"
        by (cases y) (simp_all add: e r r')
    qed
    show ?thesis by (rule einv_shrink [OF inv x pl]) (use tab in \<open>simp_all add: e r r'\<close>)
  next
    assume r': "r' = RAddr q"
    have pl: "placed ?s = (placed \<sigma>)(AtReader := [] @ qs, AtRouter := placed \<sigma> AtRouter @ [q])"
    proof
      fix y show "placed ?s y = ((placed \<sigma>)(AtReader := [] @ qs, AtRouter := placed \<sigma> AtRouter @ [q])) y"
        by (cases y) (simp_all add: e r r')
    qed
    have "from_tun tr (pl_at (eng \<sigma>) q)" using einvD(3) [OF inv, of q AtReader] q by simp
    then have "place_ok M own (tr @ [l]) (next_chan e) r' AtRouter (pl_at (eng \<sigma>) q)"
      by (simp add: r' from_tun_mono)
    then show ?thesis by (intro einv_move [OF inv x _ pl]) (use tab in \<open>simp_all add: e r r'\<close>)
  qed
qed

lemma tables_okD:
  assumes "tables_ok M own e"
  shows "xinv (table_m e)" "xinv (table_id e)" "xinv (table_addr e)" "xabs (table_m e) = M"
    "xabs (table_addr e) d = Some c \<Longrightarrow> c < next_chan e \<and> snd (own c) = d"
    "xabs (table_id e) k = Some c \<Longrightarrow> c < next_chan e \<and> fst (own c) = k"
    "c < next_chan e \<Longrightarrow> routed M (fst (own c)) (snd (own c))"
    "next_chan e \<le> c \<Longrightarrow> chans e c = []"
  using assms by (auto simp: tables_ok_def)

text \<open>A lookup may reorganise a table, never its contents.\<close>

lemma tables_ok_lookup:
  assumes "tables_ok M own e"
  shows "xinv m \<Longrightarrow> xabs m = xabs (table_addr e) \<Longrightarrow> tables_ok M own (e\<lparr>table_addr := m\<rparr>)"
    "xinv m' \<Longrightarrow> xabs m' = xabs (table_id e) \<Longrightarrow> tables_ok M own (e\<lparr>table_id := m'\<rparr>)"
    "xinv m'' \<Longrightarrow> xabs m'' = xabs (table_m e) \<Longrightarrow> tables_ok M own (e\<lparr>table_m := m''\<rparr>)"
  using assms by (auto simp: tables_ok_def)

lemma route_send_einv:
  assumes inv: "einv M own tr \<sigma>" and r: "router \<sigma> = RSend q c"
    and step: "route_send q c (eng \<sigma>) = (r', e)"
  shows "einv M own (tr @ [l]) (\<sigma>\<lparr>eng := e, router := r', procs := procs \<sigma>\<rparr>)" (is "einv _ _ _ ?s")
proof -
  note tab = einvD(2) [OF inv]
  have x: "placed \<sigma> AtRouter = [] @ q # []" by (simp add: r)
  have ok: "from_tun tr (pl_at (eng \<sigma>) q)" "c < next_chan (eng \<sigma>)" "snd (own c) = pl_dst (pl_at (eng \<sigma>) q)"
    using einvD(3) [OF inv, of q AtRouter] by (simp_all add: r)
  show ?thesis
  proof (cases "length (chans (eng \<sigma>) c) < ChanSize")
    case True
    with step have e: "e = (eng \<sigma>)\<lparr>chans := (chans (eng \<sigma>))(c := chans (eng \<sigma>) c @ [q])\<rparr>" and r': "r' = RIdle"
      by (auto simp: route_send_def try_send_def)
    have pl: "placed ?s = (placed \<sigma>)(AtRouter := [] @ [], AtChan c := placed \<sigma> (AtChan c) @ [q])"
    proof
      fix y show "placed ?s y = ((placed \<sigma>)(AtRouter := [] @ [], AtChan c := placed \<sigma> (AtChan c) @ [q])) y"
        by (cases y) (simp_all add: e r')
    qed
    have "tables_ok M own e"
      using tables_chans [OF tab] ok(2) by (intro tables_ok_cong [OF tab]) (auto simp: e)
    moreover have "place_ok M own (tr @ [l]) n r' (AtChan c) (pl_at (eng \<sigma>) q)" for n
      using ok by (simp add: from_tun_mono)
    ultimately show ?thesis by (intro einv_move [OF inv x _ pl]) (simp_all add: e)
  next
    case False
    with step have e: "e = put_payload q (eng \<sigma>)" and r': "r' = RIdle"
      by (auto simp: route_send_def try_send_def)
    have pl: "placed ?s = (placed \<sigma>)(AtRouter := [] @ [])"
    proof
      fix y show "placed ?s y = ((placed \<sigma>)(AtRouter := [] @ [])) y"
        by (cases y) (simp_all add: e r' put_payload_def)
    qed
    have "tables_ok M own e"
      using tables_chans [OF tab] by (intro tables_ok_cong [OF tab]) (auto simp: e put_payload_def)
    then show ?thesis by (intro einv_shrink [OF inv x pl]) (simp_all add: e put_payload_def)
  qed
qed

text \<open>No peer has the destination: the payload is dropped.\<close>

lemma route_drop_einv:
  assumes inv: "einv M own tr \<sigma>" and q: "rpc_holds (router \<sigma>) = [q]" and tab: "tables_ok M own e"
    and e: "devReader e = devReader (eng \<sigma>)" "devWriter e = devWriter (eng \<sigma>)"
      "chans e = chans (eng \<sigma>)" "payloadPool e = payloadPool (eng \<sigma>)" "next_chan e = next_chan (eng \<sigma>)"
  shows "einv M own (tr @ [l]) (\<sigma>\<lparr>eng := e, router := RIdle, procs := procs \<sigma>\<rparr>)" (is "einv _ _ _ ?s")
proof -
  have x: "placed \<sigma> AtRouter = [] @ q # []" by (simp add: q)
  have pl: "placed ?s = (placed \<sigma>)(AtRouter := [] @ [])"
  proof
    fix y show "placed ?s y = ((placed \<sigma>)(AtRouter := [] @ [])) y" by (cases y) (simp_all add: e)
  qed
  show ?thesis by (rule einv_shrink [OF inv x pl]) (use tab in \<open>simp_all add: e\<close>)
qed

lemma addr_load_cases:
  assumes "tables_ok M own e" "addr_load q miss e = (r, e')"
  obtains m where "e' = e\<lparr>table_addr := m\<rparr>" "tables_ok M own e'" "xabs m = xabs (table_addr e)"
    "(\<exists>c. r = RSend q c \<and> c < next_chan e \<and> snd (own c) = pl_dst (pl_at e q) \<and>
        xabs (table_addr e) (pl_dst (pl_at e q)) = Some c) \<or>
     (r = miss \<and> xabs (table_addr e) (pl_dst (pl_at e q)) = None)"
proof -
  note t = tables_okD [OF assms(1)]
  let ?L = "Load (pl_dst (pl_at e q)) (table_addr e)"
  note L = Load_correct [OF t(3), of "pl_dst (pl_at e q)"]
  show thesis
  proof (rule that)
    show e': "e' = e\<lparr>table_addr := snd ?L\<rparr>"
      using assms(2) by (auto simp: addr_load_def Let_def split_beta split: option.splits)
    show "tables_ok M own e'" unfolding e' using L by (intro tables_ok_lookup [OF assms(1)])
    show "xabs (snd ?L) = xabs (table_addr e)" by (rule L)
    show "(\<exists>c. r = RSend q c \<and> c < next_chan e \<and> snd (own c) = pl_dst (pl_at e q) \<and>
        xabs (table_addr e) (pl_dst (pl_at e q)) = Some c) \<or>
      (r = miss \<and> xabs (table_addr e) (pl_dst (pl_at e q)) = None)"
      using assms(2) L(1) t(5) by (auto simp: addr_load_def Let_def split_beta split: option.splits)
  qed
qed

lemma addr_load_einv:
  assumes inv: "einv M own tr \<sigma>" and t: "procs \<sigma> t = None" and q: "rpc_holds (router \<sigma>) = [q]"
    and miss: "rpc_holds miss = [q]" "\<And>n d. router_ok M own n miss d"
    and step: "addr_load q miss (eng \<sigma>) = (r, e)"
  shows "einv M own (tr @ [l]) (\<sigma>\<lparr>eng := e, router := r, procs := procs \<sigma>\<rparr>)"
proof -
  from addr_load_cases [OF einvD(2) [OF inv] step] obtain m where
    e: "e = (eng \<sigma>)\<lparr>table_addr := m\<rparr>" "tables_ok M own e" and
    r: "(\<exists>c. r = RSend q c \<and> c < next_chan (eng \<sigma>) \<and> snd (own c) = pl_dst (pl_at (eng \<sigma>) q)) \<or> r = miss"
    by metis
  have "rpc_holds r = [q]" "router_ok M own (next_chan e) r (pl_dst (pl_at (eng \<sigma>) q))"
    using r miss e(1) by auto
  from router_keep [OF inv t q this(1) _ _ _ _ this(2) _ _ e(2), of None] e(1)
  show ?thesis by (simp add: spawn_def)
qed

lemma routed_unique: "routed M k d \<Longrightarrow> routed M k d' \<Longrightarrow> d = d'"
  by (auto simp: routed_def)

lemma addConnByDst_range_einv:
  assumes inv: "einv M own tr \<sigma>" and env: "env_ok v" and t: "procs \<sigma> t = None"
    and q: "rpc_holds (router \<sigma>) = [q]"
    and step: "addConnByDst_range v q (eng \<sigma>) = (r, e)"
  shows "einv M own (tr @ [l]) (\<sigma>\<lparr>eng := e, router := r, procs := procs \<sigma>\<rparr>)"
proof -
  note tab = einvD(2) [OF inv]
  note T = tables_okD [OF tab]
  let ?d = "pl_dst (pl_at (eng \<sigma>) q)"
  obtain m k where m: "find_peer v ?d (eng \<sigma>) = (k, (eng \<sigma>)\<lparr>table_m := m\<rparr>)" "xinv m" "xabs m = M"
    and k: "\<And>key. k = Some key \<Longrightarrow> routed M key ?d"
    using find_peer_correct [OF env T(1), of ?d] T(4) by metis
  have tab1: "tables_ok M own ((eng \<sigma>)\<lparr>table_m := m\<rparr>)"
    using m(2,3) T(4) by (intro tables_ok_lookup(3) [OF tab]) simp_all
  show ?thesis
  proof (cases k)
    case None
    with step m have e: "e = (eng \<sigma>)\<lparr>table_m := m\<rparr>" "r = RIdle" by (auto simp: addConnByDst_range_def)
    from route_drop_einv [OF inv q, of e] tab1 show ?thesis by (simp add: e)
  next
    case (Some key)
    let ?L = "Load key (table_id (eng \<sigma>))"
    note L = Load_correct [OF T(2), of key]
    have e: "e = (eng \<sigma>)\<lparr>table_m := m, table_id := snd ?L\<rparr>"
      using step m Some by (auto simp: addConnByDst_range_def Let_def split_beta split: option.splits)
    have tab2: "tables_ok M own e"
      using tables_ok_lookup(2) [OF tab1, of "snd ?L"] L by (simp add: e)
    have "r = RStoreAddr q key \<or> (\<exists>c. r = RSend q c \<and> xabs (table_id (eng \<sigma>)) key = Some c)"
      using step m Some L(1) by (auto simp: addConnByDst_range_def Let_def split_beta split: option.splits)
    then have r: "rpc_holds r = [q] \<and> router_ok M own (next_chan e) r ?d"
    proof
      assume "r = RStoreAddr q key" with k [OF Some] show ?thesis by simp
    next
      assume "\<exists>c. r = RSend q c \<and> xabs (table_id (eng \<sigma>)) key = Some c"
      then obtain c where c: "r = RSend q c" "c < next_chan (eng \<sigma>)" "fst (own c) = key" using T(6) by blast
      with T(7) [of c] routed_unique [OF k [OF Some]] show ?thesis by (simp add: e)
    qed
    from router_keep [OF inv t q _ _ _ _ _ _ _ _ tab2, of r None] r show ?thesis
      by (simp add: e spawn_def)
  qed
qed

lemma addConnByDst_store_addr_einv:
  assumes inv: "einv M own tr \<sigma>" and t: "procs \<sigma> t = None" and q: "router \<sigma> = RStoreAddr q key"
    and step: "addConnByDst_store_addr q key (eng \<sigma>) = Some (r, e)"
  shows "einv M (own(next_chan (eng \<sigma>) := (key, pl_dst (pl_at (eng \<sigma>) q)))) (tr @ [l])
    (\<sigma>\<lparr>eng := e, router := r, procs := procs \<sigma>\<rparr>)"
proof -
  note tab = einvD(2) [OF inv]
  note T = tables_okD [OF tab]
  let ?d = "pl_dst (pl_at (eng \<sigma>) q)" and ?n = "next_chan (eng \<sigma>)"
  have routed: "routed M key ?d" and asked: "asked_for tr ?d"
    using einvD(3) [OF inv, of q AtRouter] q by (auto simp: asked_for_def)
  obtain m where m: "Store ?d ?n (table_addr (eng \<sigma>)) = Some m" "xinv m"
    "xabs m = (xabs (table_addr (eng \<sigma>)))(?d \<mapsto> ?n)"
    using Store_correct [OF T(3)] by blast
  have chans: "(chans (eng \<sigma>))(?n := []) = chans (eng \<sigma>)" using T(8) [of ?n] by (simp add: fun_eq_iff)
  from step m chans have e: "e = (eng \<sigma>)\<lparr>table_addr := m, next_chan := ?n + 1\<rparr>" and r: "r = RStoreId q key ?n"
    by (auto simp: addConnByDst_store_addr_def Let_def)
  have "tables_ok M (own(?n := (key, ?d))) e"
    unfolding tables_ok_def using T m(2,3) routed
    by (auto simp: e less_Suc_eq)
  with router_keep [OF inv t, of q r e "own(?n := (key, ?d))" None] asked show ?thesis
    by (simp add: q r e spawn_def less_Suc_eq)
qed

lemma addConnByDst_store_id_einv:
  assumes inv: "einv M own tr \<sigma>" and t: "procs \<sigma> t = None" and q: "router \<sigma> = RStoreId q key c"
    and step: "addConnByDst_store_id q key c (eng \<sigma>) = Some (r, e)"
  shows "einv M own (tr @ [l]) (\<sigma>\<lparr>eng := e, router := r, procs := procs \<sigma>\<rparr>)"
proof -
  note tab = einvD(2) [OF inv]
  note T = tables_okD [OF tab]
  have c: "c < next_chan (eng \<sigma>)" "own c = (key, pl_dst (pl_at (eng \<sigma>) q))"
    using einvD(3) [OF inv, of q AtRouter] q by simp_all
  obtain m where m: "Store key c (table_id (eng \<sigma>)) = Some m" "xinv m"
    "xabs m = (xabs (table_id (eng \<sigma>)))(key \<mapsto> c)"
    using Store_correct [OF T(2)] by blast
  from step m have e: "e = (eng \<sigma>)\<lparr>table_id := m\<rparr>" and r: "r = RSpawn q key c"
    by (auto simp: addConnByDst_store_id_def)
  have "tables_ok M own e" unfolding tables_ok_def using T m(2,3) c by (auto simp: e)
  with router_keep [OF inv t, of q r e own None] c show ?thesis by (simp add: q r e spawn_def)
qed

lemma router_einv:
  assumes inv: "einv M own tr \<sigma>" and env: "env_ok v" and t: "procs \<sigma> t = None"
    and en: "router_enabled (router \<sigma>) (eng \<sigma>)"
    and step: "router_section v (router \<sigma>) (eng \<sigma>) = Some (r, e, sp)"
  shows "\<exists>own'. einv M own' (tr @ [l]) (\<sigma>\<lparr>eng := e, router := r, procs := spawn t sp (procs \<sigma>)\<rparr>)"
proof (cases "router \<sigma>")
  case RIdle
  with step en route_receive_einv [OF inv RIdle] show ?thesis
    by (auto simp: spawn_def split: prod.splits)
next
  case (RAddr q)
  with step addr_load_einv [OF inv t, of q "RAddr2 q"] show ?thesis
    by (auto simp: spawn_def split: prod.splits)
next
  case (RAddr2 q)
  with step addr_load_einv [OF inv t, of q "RRange q"] show ?thesis
    by (auto simp: spawn_def split: prod.splits)
next
  case (RRange q)
  with step addConnByDst_range_einv [OF inv env t, of q] show ?thesis
    by (auto simp: spawn_def split: prod.splits)
next
  case (RStoreAddr q key)
  with step addConnByDst_store_addr_einv [OF inv t RStoreAddr] show ?thesis
    by (auto simp: spawn_def)
next
  case (RStoreId q key c)
  with step addConnByDst_store_id_einv [OF inv t RStoreId] show ?thesis
    by (auto simp: spawn_def)
next
  case (RSpawn q key c)
  have "own c = (key, pl_dst (pl_at (eng \<sigma>) q))" "c < next_chan (eng \<sigma>)"
    using einvD(3) [OF inv, of q AtRouter] RSpawn by simp_all
  moreover from RSpawn step have eqs: "r = RSend q c" "e = eng \<sigma>" "sp = Some (CStart c key (pl_dst (pl_at (eng \<sigma>) q)))"
    by auto
  ultimately have "einv M own (tr @ [l]) (\<sigma>\<lparr>eng := e, router := r, procs := spawn t sp (procs \<sigma>)\<rparr>)"
    using RSpawn by (intro router_keep [OF inv t]) (simp_all add: einvD(2) [OF inv])
  then show ?thesis by blast
next
  case (RSend q c)
  with step route_send_einv [OF inv RSend] show ?thesis
    by (auto simp: spawn_def split: prod.splits)
qed

subsection \<open>Connections, handlers and stream readers\<close>

lemma proc_holds_upd:
  "P u = Some p \<Longrightarrow> ppc_holds p = [] \<Longrightarrow> ppc_holds p' = [] \<Longrightarrow> proc_holds (P(u \<mapsto> p')) t = proc_holds P t"
  by (auto simp: proc_holds_def)

text \<open>A goroutine goes on, or starts another one, without touching a payload.\<close>

lemma proc_keep:
  assumes inv: "einv M own tr \<sigma>" and t: "procs \<sigma> t = None" and u: "procs \<sigma> u = Some p"
    and p: "ppc_holds p = []" "ppc_holds p' = []" "proc_ok M own (next_chan (eng \<sigma>)) p'"
    and e: "devReader e = devReader (eng \<sigma>)" "devWriter e = devWriter (eng \<sigma>)"
      "chans e = chans (eng \<sigma>)" "payloadPool e = payloadPool (eng \<sigma>)" "next_chan e = next_chan (eng \<sigma>)"
    and tab: "tables_ok M own e"
    and sp: "\<And>p. sp = Some p \<Longrightarrow> ppc_holds p = [] \<and> proc_ok M own (next_chan (eng \<sigma>)) p"
  shows "einv M own (tr @ [l]) (\<sigma>\<lparr>eng := e, procs := spawn t sp ((procs \<sigma>)(u \<mapsto> p'))\<rparr>)" (is "einv _ _ _ ?s")
proof -
  have t': "((procs \<sigma>)(u \<mapsto> p')) t = None" using t u by auto
  have "placed ?s = placed \<sigma>"
  proof
    fix x show "placed ?s x = placed \<sigma> x"
      using sp by (cases x) (simp_all add: e proc_holds_spawn [where P = "(procs \<sigma>)(u \<mapsto> p')", OF t']
        proc_holds_upd [where P = "procs \<sigma>", OF u p(1,2)])
  qed
  then show ?thesis
    by (rule einv_keep [OF inv]) (use e p tab sp in \<open>auto dest!: spawn_Some split: if_splits\<close>)
qed

text \<open>The sender of a connection or of a handler takes a payload from its channel.\<close>

lemma chan_send_einv:
  assumes inv: "einv M own tr \<sigma>" and u: "procs \<sigma> u = Some p" and c: "chans (eng \<sigma>) c = q # qs"
    and p: "ppc_holds p = []" "ppc_holds p' = []" "proc_ok M own (next_chan (eng \<sigma>)) p'"
    and e: "e = put_payload q ((eng \<sigma>)\<lparr>chans := (chans (eng \<sigma>))(c := qs)\<rparr>)"
  shows "einv M own (tr @ [l]) (\<sigma>\<lparr>eng := e, procs := (procs \<sigma>)(u \<mapsto> p')\<rparr>)" (is "einv _ _ _ ?s")
proof -
  have x: "placed \<sigma> (AtChan c) = [] @ q # qs" by (simp add: c)
  have pl: "placed ?s = (placed \<sigma>)(AtChan c := [] @ qs)"
  proof (rule fun_upd_placeI)
    fix y show "placed ?s y = (if y = AtChan c then [] @ qs else placed \<sigma> y)"
      using u p by (cases y) (auto simp: e put_payload_def proc_holds_def)
  qed
  have "tables_ok M own e"
    using tables_chans [OF einvD(2) [OF inv]] c
    by (intro tables_ok_cong [OF einvD(2) [OF inv]]) (auto simp: e put_payload_def)
  then show ?thesis
    by (intro einv_shrink [OF inv x pl]) (use p in \<open>auto simp: e put_payload_def split: if_splits\<close>)
qed

lemma stream_read_einv:
  assumes inv: "einv M own tr \<sigma>" and u: "procs \<sigma> u = Some (PReader key)"
    and step: "stream_read v key (eng \<sigma>) = (p', e, l)"
  shows "einv M own (tr @ [l]) (\<sigma>\<lparr>eng := e, procs := (procs \<sigma>)(u \<mapsto> p')\<rparr>)" (is "einv _ _ _ ?s")
proof -
  note tab = einvD(2) [OF inv]
  have key: "M key \<noteq> None" "\<exists>c<next_chan (eng \<sigma>). fst (own c) = key" using einvD(4) [OF inv u] by auto
  show ?thesis
  proof (cases "msg_in v")
    case None
    with step have eqs: "p' = Finished" "e = eng \<sigma>" by (auto simp: stream_read_def)
    have "placed ?s = placed \<sigma>"
    proof
      fix x show "placed ?s x = placed \<sigma> x" using u by (cases x) (auto simp: eqs proc_holds_def)
    qed
    then show ?thesis by (rule einv_keep [OF inv]) (use tab in \<open>auto simp: eqs split: if_splits\<close>)
  next
    case (Some msg)
    obtain q P where get: "pool_Get (pick_payload v) (payloadPool (eng \<sigma>)) = (q, P)" by fastforce
    let ?w = "(cells P q)\<lparr>pl_data := msg\<rparr>"
    from step Some get have eqs: "p' = PSend key q" "e = (eng \<sigma>)\<lparr>payloadPool := cell_set q ?w P\<rparr>" "l = Received key msg"
      by (auto simp: stream_read_def new_payload_def)
    have pl: "placed ?s = (placed \<sigma>)(AtProc u := placed \<sigma> (AtProc u) @ [q])"
    proof (rule fun_upd_placeI)
      fix y show "placed ?s y = (if y = AtProc u then placed \<sigma> (AtProc u) @ [q] else placed \<sigma> y)"
        using u by (cases y) (auto simp: eqs proc_holds_def)
    qed
    have "tables_ok M own e"
      using tables_chans [OF tab] by (intro tables_ok_cong [OF tab]) (simp_all add: eqs)
    moreover have "place_ok M own (tr @ [l]) n r (AtProc u) ?w" for n r
      using key by (auto simp: from_peer_def eqs)
    ultimately show ?thesis
      by (intro einv_new [OF inv get pl]) (use key in \<open>auto simp: eqs split: if_splits\<close>)
  qed
qed

lemma stream_deliver_einv:
  assumes inv: "einv M own tr \<sigma>" and u: "procs \<sigma> u = Some (PSend key q)"
    and step: "stream_deliver key q (eng \<sigma>) = (p', e, l)"
  shows "einv M own (tr @ [l]) (\<sigma>\<lparr>eng := e, procs := (procs \<sigma>)(u \<mapsto> p')\<rparr>)" (is "einv _ _ _ ?s")
proof -
  note tab = einvD(2) [OF inv]
  have key: "M key \<noteq> None" "\<exists>c<next_chan (eng \<sigma>). fst (own c) = key" using einvD(4) [OF inv u] by auto
  have x: "placed \<sigma> (AtProc u) = [] @ q # []" by (simp add: u proc_holds_def)
  have q: "from_peer M tr (pl_at (eng \<sigma>) q)" using einvD(3) [OF inv, of q "AtProc u"] x by simp
  from step have eqs: "p' = PReader key" "e = (eng \<sigma>)\<lparr>devWriter := devWriter (eng \<sigma>) @ [q]\<rparr>"
    by (auto simp: stream_deliver_def)
  have pl: "placed ?s = (placed \<sigma>)(AtProc u := [] @ [], AtWriter := placed \<sigma> AtWriter @ [q])"
  proof
    fix y show "placed ?s y = ((placed \<sigma>)(AtProc u := [] @ [], AtWriter := placed \<sigma> AtWriter @ [q])) y"
      using u by (cases y) (auto simp: eqs proc_holds_def)
  qed
  have "tables_ok M own e"
    using tables_chans [OF tab] by (intro tables_ok_cong [OF tab]) (simp_all add: eqs)
  moreover have "place_ok M own (tr @ [l]) n r AtWriter (pl_at (eng \<sigma>) q)" for n r
    using q by (simp add: from_peer_mono)
  ultimately show ?thesis
    by (intro einv_move [OF inv x _ pl]) (use key in \<open>auto simp: eqs split: if_splits\<close>)
qed

lemma proc_einv:
  assumes inv: "einv M own tr \<sigma>" and t: "procs \<sigma> t = None" and u: "procs \<sigma> u = Some p"
    and en: "proc_enabled p (eng \<sigma>)"
    and step: "proc_section v p (eng \<sigma>) = (p', e, sp, l)"
  shows "einv M own (tr @ [l]) (\<sigma>\<lparr>eng := e, procs := spawn t sp ((procs \<sigma>)(u \<mapsto> p'))\<rparr>)"
proof -
  note tab = einvD(2) [OF inv]
  note T = tables_okD [OF tab]
  note ok = einvD(4) [OF inv u]
  note keep = proc_keep [OF inv t u]
  show ?thesis
  proof (cases p)
    case (CStart c k d)
    have "M k \<noteq> None" using T(7) [of c] ok by (auto simp: CStart routed_def)
    with step ok tab show ?thesis
      by (intro keep) (auto simp: CStart addConn_search_def split: if_splits)
  next
    case (CRun c k d)
    then obtain q qs where q: "chans (eng \<sigma>) c = q # qs" using en by (cases "chans (eng \<sigma>) c") auto
    have "einv M own (tr @ [l]) (\<sigma>\<lparr>eng := e, procs := (procs \<sigma>)(u \<mapsto> p')\<rparr>)" "sp = None"
      using step ok by (auto intro!: chan_send_einv [OF inv u q]
          simp: CRun q addConn_send_def Let_def split: if_splits)
    then show ?thesis by (simp add: spawn_def)
  next
    case (CDelAddr c k d)
    have e: "e = (eng \<sigma>)\<lparr>table_addr := Delete d (table_addr (eng \<sigma>))\<rparr>" using step by (auto simp: CDelAddr)
    have "tables_ok M own e"
      unfolding tables_ok_def using T Delete_correct [OF T(3), of d] by (auto simp: e)
    with step ok show ?thesis by (intro keep) (auto simp: CDelAddr)
  next
    case (CDelId c k)
    have e: "e = (eng \<sigma>)\<lparr>table_id := Delete k (table_id (eng \<sigma>))\<rparr>" using step by (auto simp: CDelId)
    have "tables_ok M own e"
      unfolding tables_ok_def using T Delete_correct [OF T(2), of k] by (auto simp: e)
    with step ok show ?thesis by (intro keep) (auto simp: CDelId)
  next
    case (PReader k)
    have "einv M own (tr @ [l]) (\<sigma>\<lparr>eng := e, procs := (procs \<sigma>)(u \<mapsto> p')\<rparr>)" "sp = None"
      using step by (auto intro!: stream_read_einv [OF inv u [unfolded PReader]]
          simp: PReader split: prod.splits)
    then show ?thesis by (simp add: spawn_def)
  next
    case (PSend k q)
    have "einv M own (tr @ [l]) (\<sigma>\<lparr>eng := e, procs := (procs \<sigma>)(u \<mapsto> p')\<rparr>)" "sp = None"
      using step by (auto intro!: stream_deliver_einv [OF inv u [unfolded PSend]]
          simp: PSend split: prod.splits)
    then show ?thesis by (simp add: spawn_def)
  next
    case (HStart k)
    note L = Load_correct [OF T(1), of k]
    have "e = (eng \<sigma>)\<lparr>table_m := snd (Load k (table_m (eng \<sigma>)))\<rparr>" "sp = None"
      and p': "p' = (if M k = None then Finished else HId k)"
      using step L T(4) by (auto simp: HStart VPNHandler_start_def Let_def split_beta)
    moreover have "tables_ok M own ((eng \<sigma>)\<lparr>table_m := snd (Load k (table_m (eng \<sigma>)))\<rparr>)"
      using L by (intro tables_ok_lookup(3) [OF tab])
    ultimately show ?thesis by (intro keep) (auto simp: HStart)
  next
    case (HId k)
    note L = Load_correct [OF T(2), of k]
    have e: "e = (eng \<sigma>)\<lparr>table_id := snd (Load k (table_id (eng \<sigma>)))\<rparr>"
      and p': "(p' = Finished \<and> sp = None) \<or>
        (\<exists>c. xabs (table_id (eng \<sigma>)) k = Some c \<and> p' = HRun k c \<and> sp = Some (PReader k))"
      using step L(1) by (auto simp: HId VPNHandler_id_def Let_def split_beta split: option.splits)
    moreover have "tables_ok M own ((eng \<sigma>)\<lparr>table_id := snd (Load k (table_id (eng \<sigma>)))\<rparr>)"
      using L by (intro tables_ok_lookup(2) [OF tab])
    ultimately show ?thesis using ok T(6) [of k] by (intro keep) (auto simp: HId)
  next
    case (HRun k c)
    then obtain q qs where q: "chans (eng \<sigma>) c = q # qs" using en by (cases "chans (eng \<sigma>) c") auto
    have "einv M own (tr @ [l]) (\<sigma>\<lparr>eng := e, procs := (procs \<sigma>)(u \<mapsto> p')\<rparr>)" "sp = None"
      using step ok by (auto intro!: chan_send_einv [OF inv u q]
          simp: HRun q VPNHandler_send_def Let_def split: if_splits)
    then show ?thesis by (simp add: spawn_def)
  next
    case Finished
    with en show ?thesis by simp
  qed
qed

section \<open>Every run\<close>

lemma estep_einv:
  assumes "estep \<sigma> l \<sigma>'" and inv: "einv M own tr \<sigma>"
  shows "\<exists>own'. einv M own' (tr @ [l]) \<sigma>'"
  using assms(1)
proof cases
  case (tun_read v e)
  with reader_einv [OF inv] show ?thesis by blast
next
  case (tun_write v w e)
  with writer_einv [OF inv] show ?thesis by blast
next
  case (route v t r e sp)
  with router_einv [OF inv route(3,5,4,6)] show ?thesis by simp
next
  case (proc v u p t p' e sp)
  with proc_einv [OF inv] show ?thesis by blast
next
  case (incoming t key)
  have "placed \<sigma>' = placed \<sigma>"
  proof
    fix x show "placed \<sigma>' x = placed \<sigma> x" using incoming by (cases x) (auto simp: proc_holds_def)
  qed
  then have "einv M own (tr @ [l]) \<sigma>'"
    by (rule einv_keep [OF inv]) (use incoming einvD(2) [OF inv] in \<open>auto split: if_splits\<close>)
  then show ?thesis by blast
qed

lemma erun_einv:
  assumes "erun \<sigma> tr \<sigma>'" and "einv M own tr0 \<sigma>"
  shows "\<exists>own'. einv M own' (tr0 @ tr) \<sigma>'"
  using assms
proof (induction)
  case (erun_refl \<sigma>)
  then show ?case by auto
next
  case (erun_step \<sigma> tr \<sigma>' l \<sigma>'')
  then obtain own' where "einv M own' (tr0 @ tr) \<sigma>'" by blast
  from estep_einv [OF erun_step.hyps(2) this] show ?case by simp
qed

text \<open>The engine starts in the invariant, with the configured routes.\<close>

definition route_map :: "(peer_id \<times> prefix) list \<Rightarrow> peer_id \<rightharpoonup> prefix" where
  "route_map routes = map_of (rev routes)"

lemma store_routes_correct:
  "xinv m \<Longrightarrow> \<exists>m'. store_routes rs m = Some m' \<and> xinv m' \<and> xabs m' = xabs m ++ route_map rs"
proof (induction rs arbitrary: m)
  case (Cons r rs)
  obtain k p where r: "r = (k, p)" by (cases r)
  obtain m1 where m1: "Store k p m = Some m1" "xinv m1" "xabs m1 = (xabs m)(k \<mapsto> p)"
    using Store_correct [OF Cons.prems] by blast
  have add: "(xabs m)(k \<mapsto> p) ++ route_map rs = xabs m ++ route_map (r # rs)" by (simp add: r route_map_def)
  have "store_routes (r # rs) m = store_routes rs m1" by (simp add: r m1(1))
  with Cons.IH [OF m1(2), unfolded m1(3) add] show ?case by simp
qed (simp add: route_map_def)

lemma esys_start_einv:
  assumes "esys_start bc routes = Some \<sigma>"
  shows "einv (route_map routes) own [] \<sigma>"
proof -
  obtain m where m: "store_routes routes empty_xmap = Some m" "xinv m" "xabs m = route_map routes"
    using store_routes_correct [of empty_xmap routes] by auto
  with assms have \<sigma>: "\<sigma> = \<lparr>eng = engine_new bc m, router = RIdle, writer = WIdle, procs = Map.empty\<rparr>"
    by (simp add: esys_start_def)
  have none: "placed \<sigma> = (\<lambda>_. [])"
  proof
    fix x show "placed \<sigma> x = []" by (cases x) (simp_all add: \<sigma> engine_new_def proc_holds_def)
  qed
  have "linear (placed \<sigma>) (payloadPool (eng \<sigma>))"
    unfolding none by (simp add: linear_def held_def \<sigma> engine_new_def)
  moreover have "tables_ok (route_map routes) own (eng \<sigma>)"
    using m by (simp add: tables_ok_def \<sigma> engine_new_def)
  ultimately show ?thesis by (simp add: einv_def payloads_ok_def none) (simp add: \<sigma> engine_new_def)
qed

lemma reach_einv:
  assumes "esys_start bc routes = Some \<sigma>" and "erun \<sigma> tr \<sigma>'"
  obtains own where "einv (route_map routes) own tr \<sigma>'"
  using erun_einv [OF assms(2) esys_start_einv [OF assms(1)]] by auto

text \<open>A run up to a label, and the step that has it.\<close>

lemma erun_split:
  assumes "erun \<sigma> (tr @ l # tr') \<sigma>'"
  obtains \<sigma>1 \<sigma>2 where "erun \<sigma> tr \<sigma>1" "estep \<sigma>1 l \<sigma>2"
proof -
  have "\<exists>\<sigma>1 \<sigma>2. erun \<sigma> tr \<sigma>1 \<and> estep \<sigma>1 l \<sigma>2" if "erun \<sigma> ys \<sigma>'" "ys = tr @ l # tr'" for ys
    using that
  proof (induction arbitrary: tr')
    case (erun_step \<sigma> xs \<sigma>' x \<sigma>'')
    show ?case
    proof (cases tr' rule: rev_cases)
      case Nil
      with erun_step.prems erun_step.hyps show ?thesis by auto
    next
      case (snoc zs z)
      with erun_step.prems have "xs = tr @ l # zs" by simp
      from erun_step.IH [OF this] show ?thesis .
    qed
  qed simp
  with assms that show thesis by blast
qed

text \<open>What a label says about the state it is emitted in.\<close>

lemma proc_label:
  assumes "proc_section v p e = (p', e', sp, l)"
  shows "l = SentTo k pl \<Longrightarrow> \<exists>c q qs. chans e c = q # qs \<and> pl = pl_at e q \<and> ((\<exists>d. p = CRun c k d) \<or> p = HRun k c)"
    and "l = Received k msg \<Longrightarrow> p = PReader k"
    and "l \<noteq> WroteTun data" "l \<noteq> ReadTun data"
    and "l = Queued k data \<Longrightarrow> \<exists>q. p = PSend k q \<and> data = pl_data (pl_at e q)"
  using assms
  by (cases p; auto simp: addConn_search_def addConn_send_def stream_read_def stream_deliver_def VPNHandler_id_def
      VPNHandler_send_def new_payload_def Let_def split: list.splits option.splits prod.splits if_splits)+

lemma writer_label:
  assumes "writer_section v w e = (w', e', l)"
  shows "l = WroteTun data \<Longrightarrow> \<exists>q qs. w = WIdle \<and> devWriter e = q # qs \<and> data = pl_data (pl_at e q)"
    and "l \<noteq> SentTo k pl" "l \<noteq> Received k data" "l \<noteq> ReadTun data" "l \<noteq> Queued k data"
  using assms by (cases w; auto simp: RoutineTUNWriter_def Let_def split: list.splits if_splits)+

lemma reader_label:
  assumes "RoutineTUNReader v e = Some (e', l)"
  shows "l = Tau \<or> (\<exists>pkt. tun_in v = Some pkt \<and> l = ReadTun pkt)"
  by (cases rule: reader_cases [of v e]) (use assms in auto)

subsection \<open>What the labels of a run promise\<close>

lemma estep_SentTo:
  assumes inv: "einv M own tr \<sigma>" and step: "estep \<sigma> (SentTo k p) \<sigma>'"
  shows "from_tun tr p" "routed M k (pl_dst p)"
proof -
  obtain c q qs where c: "chans (eng \<sigma>) c = q # qs" "p = pl_at (eng \<sigma>) q" "c < next_chan (eng \<sigma>)" "fst (own c) = k"
    using step
  proof cases
    case (proc v u pc t p' e sp)
    from proc_label(1) [OF proc(6) refl] obtain c q qs where
      "chans (eng \<sigma>) c = q # qs" "p = pl_at (eng \<sigma>) q" "(\<exists>d. pc = CRun c k d) \<or> pc = HRun k c" by blast
    with that einvD(4) [OF inv proc(3)] show thesis by auto
  qed (auto dest: writer_label reader_label)
  with einvD(3) [OF inv, of q "AtChan c"] tables_okD(7) [OF einvD(2) [OF inv], of c]
  show "from_tun tr p" "routed M k (pl_dst p)" by auto
qed

lemma estep_Received:
  assumes inv: "einv M own tr \<sigma>" and step: "estep \<sigma> (Received k msg) \<sigma>'"
  shows "M k \<noteq> None" "\<exists>p. from_tun tr p \<and> routed M k (pl_dst p)"
proof -
  obtain u where u: "procs \<sigma> u = Some (PReader k)"
    using step
  proof cases
    case (proc v u pc t p' e sp)
    from proc_label(2) [OF proc(6) refl] proc(3) that show thesis by blast
  qed (auto dest: writer_label reader_label)
  from einvD(4) [OF inv u] obtain c where c: "c < next_chan (eng \<sigma>)" "fst (own c) = k" and k: "M k \<noteq> None" by auto
  show "M k \<noteq> None" by fact
  from einvD(5) [OF inv c(1)] tables_okD(7) [OF einvD(2) [OF inv] c(1)] c(2)
  show "\<exists>p. from_tun tr p \<and> routed M k (pl_dst p)" by (auto simp: asked_for_def)
qed

lemma estep_WroteTun:
  assumes inv: "einv M own tr \<sigma>" and step: "estep \<sigma> (WroteTun data) \<sigma>'"
  shows "\<exists>k. M k \<noteq> None \<and> Received k data \<in> set tr"
proof -
  obtain q qs where q: "devWriter (eng \<sigma>) = q # qs" "data = pl_data (pl_at (eng \<sigma>) q)"
    using step
  proof cases
    case (tun_write v w e)
    from writer_label(1) [OF tun_write(4) refl] that show thesis by blast
  next
    case (proc v u pc t p' e sp)
    with proc_label(3) show thesis by blast
  qed (auto dest: reader_label)
  with einvD(3) [OF inv, of q AtWriter] show ?thesis by (auto simp: from_peer_def)
qed

lemma estep_ReadTun:
  assumes "estep \<sigma> (ReadTun pkt) \<sigma>'"
  shows "length pkt \<le> BuffSize"
  using assms
proof cases
  case (tun_read v e)
  with reader_label [OF tun_read(3)] show ?thesis by (auto simp: env_ok_def)
qed (auto dest: writer_label proc_label)

end
