(* ===== verification/EngineTraffic.thy ===== *)
theory EngineTraffic
  imports EngineCorrect
begin

text \<open>
  Traffic of the packet path over whole runs: bounded channels, no payload is overwritten while
  someone holds it, packets are sent no more often than they were read, and what reaches the TUN
  device comes out of its queue in the order it went in.
\<close>

section \<open>Channels stay within their capacity\<close>

definition chans_bounded :: "engine \<Rightarrow> bool" where
  "chans_bounded e \<longleftrightarrow> length (devReader e) \<le> ChanSize \<and> length (devWriter e) \<le> ChanSize \<and>
     (\<forall>c. length (chans e c) \<le> ChanSize)"

lemma tail_bounded: "chans e c = q # qs \<Longrightarrow> \<forall>c. length (chans e c) \<le> n \<Longrightarrow> length qs \<le> n"
  by (drule spec [of _ c]) simp

lemma reader_bounded:
  assumes "RoutineTUNReader v e = Some (e', l)" "chans_bounded e"
  shows "chans_bounded e'"
  by (cases rule: reader_cases [of v e])
    (use assms in \<open>auto simp: chans_bounded_def Let_def split: if_splits\<close>)

lemma writer_bounded:
  assumes "writer_section v w e = (w', e', l)" "chans_bounded e"
  shows "chans_bounded e'"
  using assms
  by (cases w) (auto simp: RoutineTUNWriter_def Let_def put_payload_def chans_bounded_def split: list.splits if_splits)

lemma addr_load_bounded: "addr_load q miss e = (r, e') \<Longrightarrow> chans_bounded e' = chans_bounded e"
  by (auto simp: addr_load_def Let_def split_beta chans_bounded_def split: option.splits)

lemma range_bounded: "addConnByDst_range v q e = (r, e') \<Longrightarrow> chans_bounded e' = chans_bounded e"
  by (auto simp: addConnByDst_range_def find_peer_def Let_def split_beta chans_bounded_def
      split: option.splits prod.splits)

lemma router_bounded:
  assumes "router_section v r e = Some (r', e', sp)" "chans_bounded e"
  shows "chans_bounded e'"
proof (cases r)
  case RIdle
  with assms show ?thesis
    by (auto simp: route_receive_def Let_def chans_bounded_def split: list.splits if_splits)
next
  case (RSend q c)
  with assms show ?thesis
    by (auto simp: route_send_def try_send_def put_payload_def chans_bounded_def split: if_splits)
next
  case (RStoreAddr q k)
  with assms show ?thesis
    by (auto simp: addConnByDst_store_addr_def Let_def chans_bounded_def split: bind_splits)
next
  case (RStoreId q k c)
  with assms show ?thesis
    by (auto simp: addConnByDst_store_id_def chans_bounded_def split: bind_splits)
qed (use assms in \<open>auto dest: addr_load_bounded range_bounded split: prod.splits\<close>)

lemma proc_bounded:
  assumes "proc_section v p e = (p', e', sp, l)" "proc_enabled p e" "chans_bounded e"
  shows "chans_bounded e'"
proof (cases p)
  case (CRun c k d)
  with assms show ?thesis
    by (auto simp: addConn_send_def Let_def put_payload_def chans_bounded_def dest: tail_bounded split: list.splits if_splits)
next
  case (HRun k c)
  with assms show ?thesis
    by (auto simp: VPNHandler_send_def Let_def put_payload_def chans_bounded_def dest: tail_bounded split: list.splits)
next
  case (PSend k q)
  with assms show ?thesis by (auto simp: stream_deliver_def chans_bounded_def)
qed (use assms in \<open>auto simp: stream_read_def new_payload_def VPNHandler_start_def VPNHandler_id_def Let_def
      addConn_search_def chans_bounded_def split: option.splits prod.splits if_splits\<close>)

lemma estep_bounded: "estep \<sigma> l \<sigma>' \<Longrightarrow> chans_bounded (eng \<sigma>) \<Longrightarrow> chans_bounded (eng \<sigma>')"
  by (erule estep_cases) (auto dest: reader_bounded writer_bounded router_bounded proc_bounded)

lemma erun_bounded: "erun \<sigma> tr \<sigma>' \<Longrightarrow> chans_bounded (eng \<sigma>) \<Longrightarrow> chans_bounded (eng \<sigma>')"
  by (induction rule: erun.induct) (auto dest: estep_bounded)

lemma esys_start_bounded: "esys_start bc routes = Some \<sigma> \<Longrightarrow> chans_bounded (eng \<sigma>)"
  by (auto simp: esys_start_def engine_new_def chans_bounded_def split: bind_splits)

section \<open>Nobody writes a payload that somebody holds\<close>

lemma pool_frame:
  assumes "linear f p" "pool_Get pick p = (q, p')" "r \<in> held f"
  shows "cells (cell_set q w p') r = cells p r"
  using linear_new(3) [OF assms] .

lemma estep_frame:
  assumes inv: "einv M own tr \<sigma>" and step: "estep \<sigma> l \<sigma>'" and r: "r \<in> held (placed \<sigma>)"
  shows "pl_at (eng \<sigma>') r = pl_at (eng \<sigma>) r"
  using step
proof cases
  case (tun_read v e)
  note new = linear_new(3) [OF einvD(1) [OF inv] _ r]
  show ?thesis
    by (cases rule: reader_cases [of v "eng \<sigma>"])
      (use tun_read new in \<open>auto simp: Let_def xpool.put_frame split: if_splits\<close>)
next
  case (tun_write v w e)
  then show ?thesis
    by (cases "writer \<sigma>") (auto simp: RoutineTUNWriter_def Let_def put_payload_def xpool.put_frame split: list.splits if_splits)
next
  case (route v t r' e sp)
  have "cells (payloadPool e) r = pl_at (eng \<sigma>) r"
    using route(6)
    by (cases "router \<sigma>") (auto simp: route_receive_def addr_load_def addConnByDst_range_def find_peer_def
        addConnByDst_store_addr_def addConnByDst_store_id_def route_send_def put_payload_def xpool.put_frame
        Let_def split_beta split: list.splits option.splits if_splits bind_splits)
  with route show ?thesis by simp
next
  case (proc v u p t p' e sp)
  note new = linear_new(3) [OF einvD(1) [OF inv] _ r]
  have "cells (payloadPool e) r = pl_at (eng \<sigma>) r"
    using proc(6) new
    by (cases p) (auto simp: addConn_search_def addConn_send_def stream_read_def stream_deliver_def new_payload_def
        VPNHandler_start_def VPNHandler_id_def VPNHandler_send_def put_payload_def xpool.put_frame
        Let_def split: list.splits option.splits prod.splits if_splits)
  with proc show ?thesis by simp
qed simp

section \<open>The TUN device gets the messages in the order they were queued\<close>

fun wrote :: "label list \<Rightarrow> byte list list" where
  "wrote [] = []"
| "wrote (WroteTun d # tr) = d # wrote tr"
| "wrote (_ # tr) = wrote tr"

fun queued :: "label list \<Rightarrow> byte list list" where
  "queued [] = []"
| "queued (Queued k d # tr) = d # queued tr"
| "queued (_ # tr) = queued tr"

lemma wrote_append [simp]: "wrote (xs @ ys) = wrote xs @ wrote ys"
  by (induction xs rule: wrote.induct) simp_all

lemma queued_append [simp]: "queued (xs @ ys) = queued xs @ queued ys"
  by (induction xs rule: queued.induct) simp_all

definition in_queue :: "engine \<Rightarrow> byte list list" where
  "in_queue e = map (\<lambda>q. pl_data (pl_at e q)) (devWriter e)"

lemma wrote_Tau: "(\<And>d. l \<noteq> WroteTun d) \<Longrightarrow> wrote [l] = []" by (cases l) auto

lemma queued_Tau: "(\<And>k d. l \<noteq> Queued k d) \<Longrightarrow> queued [l] = []" by (cases l) auto

text \<open>A step leaves the queue alone, takes its head, or adds the payload of a stream reader.\<close>

lemma estep_devWriter [consumes 1, case_names same pop push]:
  assumes step: "estep \<sigma> l \<sigma>'"
  obtains (same) "devWriter (eng \<sigma>') = devWriter (eng \<sigma>)" "queued [l] = []" "wrote [l] = []"
    | (pop) q where "devWriter (eng \<sigma>) = q # devWriter (eng \<sigma>')" "l = WroteTun (pl_data (pl_at (eng \<sigma>) q))"
    | (push) t k q where "procs \<sigma> t = Some (PSend k q)" "devWriter (eng \<sigma>') = devWriter (eng \<sigma>) @ [q]"
        "l = Queued k (pl_data (pl_at (eng \<sigma>) q))"
  using step
proof cases
  case (tun_read v e)
  have "devWriter e = devWriter (eng \<sigma>)"
    by (cases rule: reader_cases [of v "eng \<sigma>"]) (use tun_read in \<open>auto simp: Let_def split: if_splits\<close>)
  moreover have "l = Tau \<or> (\<exists>pkt. l = ReadTun pkt)" using reader_label [OF tun_read(3)] by blast
  ultimately show thesis using tun_read by (intro same) auto
next
  case (tun_write v w e)
  show thesis
  proof (cases "writer \<sigma>")
    case WIdle
    with tun_write obtain q qs where q: "devWriter (eng \<sigma>) = q # qs" by (cases "devWriter (eng \<sigma>)") auto
    with tun_write WIdle show thesis
      by (intro pop [of q]) (auto simp: RoutineTUNWriter_def Let_def put_payload_def split: if_splits)
  next
    case (WLog q)
    with tun_write show thesis by (intro same) auto
  qed
next
  case (route v t r' e sp)
  have "devWriter e = devWriter (eng \<sigma>)"
    using route(6)
    by (cases "router \<sigma>") (auto simp: route_receive_def addr_load_def addConnByDst_range_def find_peer_def
        addConnByDst_store_addr_def addConnByDst_store_id_def route_send_def put_payload_def
        Let_def split_beta split: list.splits option.splits if_splits bind_splits)
  with route show thesis by (intro same) simp_all
next
  case (proc v u p t p' e sp)
  show thesis
  proof (cases "\<exists>k q. p = PSend k q")
    case True
    then obtain k q where p: "p = PSend k q" by blast
    with proc show thesis by (intro push [of u k q]) (auto simp: stream_deliver_def)
  next
    case False
    have "devWriter e = devWriter (eng \<sigma>)" "queued [l] = []" "wrote [l] = []"
      using proc(6) False
      by (cases p; auto simp: addConn_search_def addConn_send_def stream_read_def new_payload_def
          VPNHandler_start_def VPNHandler_id_def VPNHandler_send_def put_payload_def
          Let_def split: list.splits option.splits prod.splits if_splits)+
    with proc show thesis by (intro same) simp_all
  qed
qed (use same in auto)

lemma estep_in_queue:
  assumes inv: "einv M own tr \<sigma>" and step: "estep \<sigma> l \<sigma>'"
  shows "in_queue (eng \<sigma>) @ queued [l] = wrote [l] @ in_queue (eng \<sigma>')"
proof -
  have held: "q \<in> held (placed \<sigma>)" if "q \<in> set (devWriter (eng \<sigma>'))" for q
    using step
  proof (cases rule: estep_devWriter)
    case (push t k r)
    have "r \<in> held (placed \<sigma>)" by (rule heldI [of r _ "AtProc t"]) (simp add: push proc_holds_def)
    with push(2) that show ?thesis by (auto intro: heldI [of q _ AtWriter])
  qed (use that in \<open>auto intro!: heldI [of q _ AtWriter]\<close>)
  have "in_queue (eng \<sigma>') = map (\<lambda>q. pl_data (pl_at (eng \<sigma>) q)) (devWriter (eng \<sigma>'))"
    unfolding in_queue_def by (rule map_cong) (simp_all add: estep_frame [OF inv step held])
  with step show ?thesis
    by (cases rule: estep_devWriter) (simp_all add: in_queue_def)
qed

lemma erun_in_queue:
  assumes "erun \<sigma> tr \<sigma>'" and "einv M own tr0 \<sigma>"
  shows "in_queue (eng \<sigma>) @ queued tr = wrote tr @ in_queue (eng \<sigma>')"
  using assms
proof (induction)
  case (erun_step \<sigma> tr \<sigma>' l \<sigma>'')
  obtain own' where "einv M own' (tr0 @ tr) \<sigma>'" using erun_einv [OF erun_step.hyps(1) erun_step.prems] by blast
  from estep_in_queue [OF this erun_step.hyps(2)] erun_step.IH [OF erun_step.prems]
  show ?case by (metis append.assoc queued_append wrote_append)
qed simp

section \<open>No packet is sent more often than it was read\<close>

fun read_data :: "label list \<Rightarrow> byte list multiset" where
  "read_data [] = {#}"
| "read_data (ReadTun d # tr) = add_mset d (read_data tr)"
| "read_data (_ # tr) = read_data tr"

fun sent_data :: "label list \<Rightarrow> byte list multiset" where
  "sent_data [] = {#}"
| "sent_data (SentTo k p # tr) = add_mset (pl_data p) (sent_data tr)"
| "sent_data (_ # tr) = sent_data tr"

lemma read_data_append [simp]: "read_data (xs @ ys) = read_data xs + read_data ys"
  by (induction xs rule: read_data.induct) simp_all

lemma sent_data_append [simp]: "sent_data (xs @ ys) = sent_data xs + sent_data ys"
  by (induction xs rule: sent_data.induct) simp_all

text \<open>The payloads on their way from the TUN device to a peer.\<close>

definition outp :: "esys \<Rightarrow> pointer multiset" where
  "outp \<sigma> = mset (devReader (eng \<sigma>)) + mset (rpc_holds (router \<sigma>)) +
     (\<Sum>c<next_chan (eng \<sigma>). mset (chans (eng \<sigma>) c))"

lemma chan_sum_upd:
  assumes "c < (n::nat)"
  shows "(\<Sum>d<n. mset ((f(c := xs)) d)) + mset (f c) = (\<Sum>d<n. mset (f d)) + mset xs"
proof -
  have rest: "(\<Sum>d\<in>{..<n} - {c}. mset ((f(c := xs)) d)) = (\<Sum>d\<in>{..<n} - {c}. mset (f d))"
    by (rule sum.cong) simp_all
  have "(\<Sum>d<n. mset ((f(c := xs)) d)) = mset xs + (\<Sum>d\<in>{..<n} - {c}. mset (f d))"
    using sum.remove [of "{..<n}" c "\<lambda>d. mset ((f(c := xs)) d)"] assms rest by simp
  moreover have "(\<Sum>d<n. mset (f d)) = mset (f c) + (\<Sum>d\<in>{..<n} - {c}. mset (f d))"
    using sum.remove [of "{..<n}" c "\<lambda>d. mset (f d)"] assms by simp
  ultimately show ?thesis by simp
qed

lemma chan_sum_pop:
  "c < (n::nat) \<Longrightarrow> f c = q # qs \<Longrightarrow> (\<Sum>d<n. mset (f d)) = add_mset q (\<Sum>d<n. mset ((f(c := qs)) d))"
  using chan_sum_upd [of c n f qs] by simp

lemma chan_sum_push:
  "c < (n::nat) \<Longrightarrow> (\<Sum>d<n. mset ((f(c := f c @ [q])) d)) = add_mset q (\<Sum>d<n. mset (f d))"
  using chan_sum_upd [of c n f "f c @ [q]"] by simp

lemma outp_held:
  assumes "q \<in># outp \<sigma>" shows "q \<in> held (placed \<sigma>)"
proof -
  from assms consider "q \<in> set (placed \<sigma> AtReader)" | "q \<in> set (placed \<sigma> AtRouter)"
    | c where "q \<in> set (placed \<sigma> (AtChan c))"
    by (auto simp: outp_def set_mset_sum)
  then show ?thesis by cases (erule heldI)+
qed

text \<open>The router moves payloads, or drops one.\<close>

lemma router_outp:
  assumes inv: "einv M own tr \<sigma>" and step: "router_section v (router \<sigma>) (eng \<sigma>) = Some (r, e, sp)"
  shows "outp (\<sigma>\<lparr>eng := e, router := r, procs := P\<rparr>) \<subseteq># outp \<sigma>"
proof (cases "router \<sigma>")
  case RIdle
  with step show ?thesis
    by (auto simp: outp_def route_receive_def Let_def split: list.splits if_splits)
next
  case (RAddr q)
  with step show ?thesis by (auto simp: outp_def addr_load_def Let_def split_beta split: option.splits)
next
  case (RAddr2 q)
  with step show ?thesis by (auto simp: outp_def addr_load_def Let_def split_beta split: option.splits)
next
  case (RRange q)
  with step show ?thesis
    by (auto simp: outp_def addConnByDst_range_def find_peer_def Let_def split_beta split: option.splits)
next
  case (RStoreAddr q k)
  have fresh: "(chans (eng \<sigma>))(next_chan (eng \<sigma>) := []) = chans (eng \<sigma>)"
    "chans (eng \<sigma>) (next_chan (eng \<sigma>)) = []"
    using tables_okD(8) [OF einvD(2) [OF inv], of "next_chan (eng \<sigma>)"] by (simp_all add: fun_eq_iff)
  from step fresh show ?thesis
    by (auto simp: RStoreAddr outp_def addConnByDst_store_addr_def Let_def split: bind_splits)
next
  case (RStoreId q k c)
  with step show ?thesis by (auto simp: outp_def addConnByDst_store_id_def split: bind_splits)
next
  case (RSpawn q k c)
  with step show ?thesis by (auto simp: outp_def)
next
  case (RSend q c)
  have "c < next_chan (eng \<sigma>)" using einvD(3) [OF inv, of q AtRouter] by (simp add: RSend)
  from chan_sum_push [OF this, of "chans (eng \<sigma>)" q] step show ?thesis
    by (auto simp: RSend outp_def route_send_def try_send_def put_payload_def split: if_splits)
qed

lemma estep_outp [consumes 2, case_names read sent keep]:
  assumes inv: "einv M own tr \<sigma>" and step: "estep \<sigma> l \<sigma>'"
  obtains (read) q where "outp \<sigma>' = add_mset q (outp \<sigma>)" "l = ReadTun (pl_data (pl_at (eng \<sigma>') q))"
    | (sent) k q where "outp \<sigma> = add_mset q (outp \<sigma>')" "l = SentTo k (pl_at (eng \<sigma>) q)"
    | (keep) "outp \<sigma>' \<subseteq># outp \<sigma>" "sent_data [l] = {#}"
  using step
proof cases
  case (tun_read v e)
  show thesis
  proof (cases rule: reader_cases [of v "eng \<sigma>"])
    case (send pkt n s d q p ips)
    show thesis
    proof (cases "length (devReader (eng \<sigma>)) < ChanSize")
      case True
      with send tun_read show thesis
        by (intro read [of q]) (auto simp: outp_def Let_def xpool.assign_same xpool.put_frame)
    next
      case False
      with send tun_read show thesis by (intro keep) (auto simp: outp_def Let_def)
    qed
  qed (use tun_read in \<open>auto simp: outp_def intro!: keep\<close>)
next
  case (tun_write v w e)
  have "devReader e = devReader (eng \<sigma>)" "chans e = chans (eng \<sigma>)" "next_chan e = next_chan (eng \<sigma>)" "sent_data [l] = {#}"
    using tun_write(4)
    by (cases "writer \<sigma>"; auto simp: RoutineTUNWriter_def Let_def put_payload_def split: list.splits if_splits)+
  with tun_write show thesis by (intro keep) (simp_all add: outp_def)
next
  case (route v t r e sp)
  from router_outp [OF inv route(6)] route show thesis by (intro keep) simp_all
next
  case (proc v u p t p' e sp)
  note ok = einvD(4) [OF inv proc(3)]
  show thesis
  proof (cases "\<exists>k c. (\<exists>d. p = CRun c k d) \<or> p = HRun k c")
    case True
    then obtain k c where p: "(\<exists>d. p = CRun c k d) \<or> p = HRun k c" by blast
    then obtain q qs where q: "chans (eng \<sigma>) c = q # qs" using proc(4) by (cases "chans (eng \<sigma>) c") auto
    have c: "c < next_chan (eng \<sigma>)" using ok p by auto
    have "e = put_payload q ((eng \<sigma>)\<lparr>chans := (chans (eng \<sigma>))(c := qs)\<rparr>)" "l = SentTo k (pl_at (eng \<sigma>) q)"
      using proc(6) p q by (auto simp: addConn_send_def VPNHandler_send_def Let_def)
    with chan_sum_pop [OF c, of "chans (eng \<sigma>)" q qs] q proc(1) show thesis
      by (intro sent [of q k]) (simp_all add: outp_def put_payload_def)
  next
    case False
    have "devReader e = devReader (eng \<sigma>)" "chans e = chans (eng \<sigma>)" "next_chan e = next_chan (eng \<sigma>)" "sent_data [l] = {#}"
      using proc(6) False
      by (cases p; auto simp: addConn_search_def stream_read_def stream_deliver_def new_payload_def
          VPNHandler_start_def VPNHandler_id_def Let_def split: option.splits prod.splits if_splits)+
    with proc(1) show thesis by (intro keep) (simp_all add: outp_def)
  qed
qed (auto simp: outp_def intro!: keep)

definition out_data :: "esys \<Rightarrow> byte list multiset" where
  "out_data \<sigma> = image_mset (\<lambda>q. pl_data (pl_at (eng \<sigma>) q)) (outp \<sigma>)"

lemma estep_out_data:
  assumes inv: "einv M own tr \<sigma>" and step: "estep \<sigma> l \<sigma>'"
  shows "sent_data [l] + out_data \<sigma>' \<subseteq># out_data \<sigma> + read_data [l]"
proof -
  have frame: "image_mset (\<lambda>q. pl_data (pl_at (eng \<sigma>') q)) A = image_mset (\<lambda>q. pl_data (pl_at (eng \<sigma>) q)) A"
    if "A \<subseteq># outp \<sigma>" for A
    by (rule image_mset_cong) (use that estep_frame [OF inv step outp_held] mset_subset_eqD in fastforce)
  from inv step show ?thesis
  proof (cases rule: estep_outp)
    case (read q)
    then show ?thesis using frame [of "outp \<sigma>"] by (simp add: out_data_def)
  next
    case (sent k q)
    then show ?thesis using frame [of "outp \<sigma>'"] by (simp add: out_data_def)
  next
    case keep
    then have "out_data \<sigma>' \<subseteq># out_data \<sigma>" by (simp add: out_data_def frame image_mset_subseteq_mono)
    with keep show ?thesis by (simp add: subset_mset.add_increasing2)
  qed
qed

lemma erun_out_data:
  assumes "erun \<sigma> tr \<sigma>'" and "einv M own tr0 \<sigma>"
  shows "sent_data tr + out_data \<sigma>' \<subseteq># out_data \<sigma> + read_data tr"
  using assms
proof (induction)
  case (erun_step \<sigma> tr \<sigma>' l \<sigma>'')
  obtain own' where "einv M own' (tr0 @ tr) \<sigma>'" using erun_einv [OF erun_step.hyps(1) erun_step.prems] by blast
  from estep_out_data [OF this erun_step.hyps(2)]
  have "sent_data tr + (sent_data [l] + out_data \<sigma>'') \<subseteq># sent_data tr + (out_data \<sigma>' + read_data [l])"
    by (rule subset_mset.add_left_mono)
  also have "\<dots> \<subseteq># out_data \<sigma> + read_data tr + read_data [l]"
    using erun_step.IH [OF erun_step.prems] by (simp add: add.assoc [symmetric])
  finally show ?case by (simp add: add.assoc)
qed simp

end
