(* ===== verification/EngineConn.thy ===== *)
theory EngineConn
  imports EngineTraffic
begin

text \<open>
  The connections of the engine: the tables \<open>id\<close> and \<open>addr\<close> hold exactly the channels of the
  connection goroutines that run, and there is at most one of them for a peer.
\<close>

section \<open>The tables and the goroutines\<close>

text \<open>The peer a connection goroutine will remove from \<open>id\<close>, the address it will remove from \<open>addr\<close>.\<close>

fun conn_of :: "ppc \<Rightarrow> (chan \<times> peer_id) option" where
  "conn_of (CStart c k d) = Some (c, k)"
| "conn_of (CRun c k d) = Some (c, k)"
| "conn_of (CDelAddr c k d) = Some (c, k)"
| "conn_of (CDelId c k) = Some (c, k)"
| "conn_of p = None"

fun addr_of :: "ppc \<Rightarrow> (chan \<times> ipaddr) option" where
  "addr_of (CStart c k d) = Some (c, d)"
| "addr_of (CRun c k d) = Some (c, d)"
| "addr_of (CDelAddr c k d) = Some (c, d)"
| "addr_of p = None"

definition conns :: "(nat \<rightharpoonup> ppc) \<Rightarrow> nat \<Rightarrow> (chan \<times> peer_id) option" where
  "conns P t = (case P t of None \<Rightarrow> None | Some p \<Rightarrow> conn_of p)"

definition addrs :: "(nat \<rightharpoonup> ppc) \<Rightarrow> nat \<Rightarrow> (chan \<times> ipaddr) option" where
  "addrs P t = (case P t of None \<Rightarrow> None | Some p \<Rightarrow> addr_of p)"

text \<open>What the router knows while it makes a connection for the payload with destination \<open>d\<close>.\<close>

fun router_knows ::
  "(nat \<Rightarrow> (chan \<times> peer_id) option) \<Rightarrow> (peer_id \<rightharpoonup> chan) \<Rightarrow> (ipaddr \<rightharpoonup> chan) \<Rightarrow> rpc \<Rightarrow> ipaddr \<Rightarrow> bool" where
  "router_knows C I T (RRange q) d = (T d = None)"
| "router_knows C I T (RStoreAddr q k) d = (I k = None \<and> T d = None)"
| "router_knows C I T (RStoreId q k c) d = (I k = None \<and> (\<forall>t k. C t \<noteq> Some (c, k)))"
| "router_knows C I T (RSpawn q k c) d = (\<forall>t k. C t \<noteq> Some (c, k))"
| "router_knows C I T r d = True"

definition conn_ok ::
  "(nat \<Rightarrow> (chan \<times> peer_id) option) \<Rightarrow> (nat \<Rightarrow> (chan \<times> ipaddr) option) \<Rightarrow>
   (peer_id \<rightharpoonup> chan) \<Rightarrow> (ipaddr \<rightharpoonup> chan) \<Rightarrow> rpc \<Rightarrow> ipaddr \<Rightarrow> bool" where
  "conn_ok C A I T r d \<longleftrightarrow>
     (\<forall>k c. I k = Some c \<longleftrightarrow> (\<exists>t. C t = Some (c, k)) \<or> (\<exists>q. r = RSpawn q k c)) \<and>
     (\<forall>a c. T a = Some c \<longleftrightarrow>
        (\<exists>t. A t = Some (c, a)) \<or> (\<exists>q k. (r = RStoreId q k c \<or> r = RSpawn q k c) \<and> a = d)) \<and>
     (\<forall>t t' c k k'. C t = Some (c, k) \<longrightarrow> C t' = Some (c, k') \<longrightarrow> t = t') \<and>
     (\<forall>t c a. A t = Some (c, a) \<longrightarrow> (\<exists>k. C t = Some (c, k))) \<and>
     router_knows C I T r d"

lemma conn_okD:
  assumes "conn_ok C A I T r d"
  shows "I k = Some c \<longleftrightarrow> (\<exists>t. C t = Some (c, k)) \<or> (\<exists>q. r = RSpawn q k c)"
    "T a = Some c \<longleftrightarrow> (\<exists>t. A t = Some (c, a)) \<or> (\<exists>q k. (r = RStoreId q k c \<or> r = RSpawn q k c) \<and> a = d)"
    "C t = Some (c, k) \<Longrightarrow> C t' = Some (c, k') \<Longrightarrow> t = t'"
    "A t = Some (c, a) \<Longrightarrow> \<exists>k. C t = Some (c, k)"
    "router_knows C I T r d"
  using assms unfolding conn_ok_def by blast+

lemma conn_okI:
  assumes "\<And>k c. I k = Some c \<longleftrightarrow> (\<exists>t. C t = Some (c, k)) \<or> (\<exists>q. r = RSpawn q k c)"
    "\<And>a c. T a = Some c \<longleftrightarrow>
      (\<exists>t. A t = Some (c, a)) \<or> (\<exists>q k. (r = RStoreId q k c \<or> r = RSpawn q k c) \<and> a = d)"
    "\<And>t t' c k k'. C t = Some (c, k) \<Longrightarrow> C t' = Some (c, k') \<Longrightarrow> t = t'"
    "\<And>t c a. A t = Some (c, a) \<Longrightarrow> \<exists>k. C t = Some (c, k)"
    "router_knows C I T r d"
  shows "conn_ok C A I T r d"
  using assms unfolding conn_ok_def by blast

lemma ex_add: "g t = None \<Longrightarrow> (\<exists>u. (g(t \<mapsto> x)) u = Some y) \<longleftrightarrow> x = y \<or> (\<exists>u. g u = Some y)"
  by (metis fun_upd_apply option.distinct(1) option.inject)

lemma ex_remove: "g t = Some x \<Longrightarrow> x \<noteq> y \<Longrightarrow> (\<exists>u. (g(t := None)) u = Some y) \<longleftrightarrow> (\<exists>u. g u = Some y)"
  by (metis fun_upd_apply option.distinct(1) option.inject)

text \<open>The router idles, sends or looks up: it promises nothing to the tables.\<close>

fun router_free :: "rpc \<Rightarrow> bool" where
  "router_free (RStoreId q k c) = False"
| "router_free (RSpawn q k c) = False"
| "router_free r = True"

lemma conn_ok_router:
  assumes "conn_ok C A I T r d" "router_free r" "router_free r'" "router_knows C I T r' d'"
  shows "conn_ok C A I T r' d'"
proof (rule conn_okI)
  show "I k = Some c \<longleftrightarrow> (\<exists>t. C t = Some (c, k)) \<or> (\<exists>q. r' = RSpawn q k c)" for k c
    using conn_okD(1) [OF assms(1)] assms(2,3) by (cases r; cases r') auto
  show "T a = Some c \<longleftrightarrow> (\<exists>t. A t = Some (c, a)) \<or> (\<exists>q k. (r' = RStoreId q k c \<or> r' = RSpawn q k c) \<and> a = d')" for a c
    using conn_okD(2) [OF assms(1)] assms(2,3) by (cases r; cases r') auto
qed (use conn_okD [OF assms(1)] assms(4) in blast)+

lemma conn_ok_store_addr:
  assumes ok: "conn_ok C A I T (RStoreAddr q k) d" and new: "\<And>t k. C t \<noteq> Some (c, k)"
  shows "conn_ok C A I (T(d \<mapsto> c)) (RStoreId q k c) d"
proof (rule conn_okI)
  show "(T(d \<mapsto> c)) a = Some c' \<longleftrightarrow>
      (\<exists>t. A t = Some (c', a)) \<or> (\<exists>q' k'. (RStoreId q k c = RStoreId q' k' c' \<or> RStoreId q k c = RSpawn q' k' c') \<and> a = d)" for a c'
    using conn_okD(2) [OF ok, of a c'] conn_okD(5) [OF ok] by auto
qed (use conn_okD [OF ok] new in auto)

lemma conn_ok_store_id:
  assumes ok: "conn_ok C A I T (RStoreId q k c) d"
  shows "conn_ok C A (I(k \<mapsto> c)) T (RSpawn q k c) d"
proof (rule conn_okI)
  show "(I(k \<mapsto> c)) k' = Some c' \<longleftrightarrow> (\<exists>t. C t = Some (c', k')) \<or> (\<exists>q'. RSpawn q k c = RSpawn q' k' c')" for k' c'
    using conn_okD(1) [OF ok, of k' c'] conn_okD(5) [OF ok] by auto
qed (use conn_okD [OF ok] in auto)

lemma conn_ok_spawn:
  assumes ok: "conn_ok C A I T (RSpawn q k c) d" and t: "C t = None" "A t = None"
  shows "conn_ok (C(t \<mapsto> (c, k))) (A(t \<mapsto> (c, d))) I T (RSend q c) d"
proof (rule conn_okI)
  show "I k' = Some c' \<longleftrightarrow> (\<exists>u. (C(t \<mapsto> (c, k))) u = Some (c', k')) \<or> (\<exists>q'. RSend q c = RSpawn q' k' c')" for k' c'
    using conn_okD(1) [OF ok, of k' c'] unfolding ex_add [where g = C, OF t(1)] by auto
  show "T a = Some c' \<longleftrightarrow> (\<exists>u. (A(t \<mapsto> (c, d))) u = Some (c', a)) \<or>
      (\<exists>q' k'. (RSend q c = RStoreId q' k' c' \<or> RSend q c = RSpawn q' k' c') \<and> a = d)" for a c'
    using conn_okD(2) [OF ok, of a c'] unfolding ex_add [where g = A, OF t(2)] by auto
  show "u = u'" if "(C(t \<mapsto> (c, k))) u = Some (c', k')" "(C(t \<mapsto> (c, k))) u' = Some (c', k'')" for u u' c' k' k''
    using that conn_okD(3,5) [OF ok] by (auto split: if_splits)
  show "\<exists>k'. (C(t \<mapsto> (c, k))) u = Some (c', k')" if "(A(t \<mapsto> (c, d))) u = Some (c', a)" for u c' a
    using that conn_okD(4) [OF ok] by (auto split: if_splits)
qed simp

lemma conn_ok_delete_addr:
  assumes ok: "conn_ok C A I T r d" and t: "A t = Some (c, a)"
  shows "conn_ok C (A(t := None)) I (T(a := None)) r d"
proof (rule conn_okI)
  obtain k where k: "C t = Some (c, k)" using conn_okD(4) [OF ok t] by blast
  have T: "T a = Some c" using conn_okD(2) [OF ok] t by blast
  have other: "u = t" if "A u = Some (c', a)" for u c'
  proof -
    have "T a = Some c'" using conn_okD(2) [OF ok] that by blast
    with T that conn_okD(3,4) [OF ok] k show ?thesis by fastforce
  qed
  have router: "\<not> (\<exists>q k. (r = RStoreId q k c' \<or> r = RSpawn q k c') \<and> a = d)" for c'
  proof
    assume r: "\<exists>q k. (r = RStoreId q k c' \<or> r = RSpawn q k c') \<and> a = d"
    then have "T a = Some c'" using conn_okD(2) [OF ok] by blast
    with T r k conn_okD(5) [OF ok] show False by auto
  qed
  show "(T(a := None)) b = Some c' \<longleftrightarrow>
      (\<exists>u. (A(t := None)) u = Some (c', b)) \<or> (\<exists>q k. (r = RStoreId q k c' \<or> r = RSpawn q k c') \<and> b = d)" for b c'
  proof (cases "b = a")
    case True with other router show ?thesis by auto
  next
    case False
    then have "(\<exists>u. (A(t := None)) u = Some (c', b)) \<longleftrightarrow> (\<exists>u. A u = Some (c', b))" using ex_remove [where g = A, OF t, of "(c', b)"] by auto
    with False conn_okD(2) [OF ok, of b c'] show ?thesis by simp
  qed
  show "router_knows C I (T(a := None)) r d" using conn_okD(5) [OF ok] by (cases r) auto
qed (use conn_okD [OF ok] in \<open>auto split: if_splits\<close>)

lemma conn_ok_delete_id:
  assumes ok: "conn_ok C A I T r d" and t: "C t = Some (c, k)" "A t = None"
  shows "conn_ok (C(t := None)) A (I(k := None)) T r d"
proof (rule conn_okI)
  have I: "I k = Some c" using conn_okD(1) [OF ok] t by blast
  have other: "u = t" if "C u = Some (c', k)" for u c'
  proof -
    have "I k = Some c'" using conn_okD(1) [OF ok] that by blast
    with I that conn_okD(3) [OF ok] t show ?thesis by fastforce
  qed
  have router: "r \<noteq> RSpawn q k c'" for q c'
  proof
    assume r: "r = RSpawn q k c'"
    then have "I k = Some c'" using conn_okD(1) [OF ok] by blast
    with I r t conn_okD(5) [OF ok] show False by auto
  qed
  show "(I(k := None)) k' = Some c' \<longleftrightarrow> (\<exists>u. (C(t := None)) u = Some (c', k')) \<or> (\<exists>q. r = RSpawn q k' c')" for k' c'
  proof (cases "k' = k")
    case True with other router show ?thesis by auto
  next
    case False
    then have "(\<exists>u. (C(t := None)) u = Some (c', k')) \<longleftrightarrow> (\<exists>u. C u = Some (c', k'))" using ex_remove [where g = C, OF t(1), of "(c', k')"] by auto
    with False conn_okD(1) [OF ok, of k' c'] show ?thesis by simp
  qed
  show "\<exists>k'. (C(t := None)) u = Some (c', k')" if "A u = Some (c', a)" for u c' a
    using conn_okD(4) [OF ok that] that t by (cases "u = t") auto
  show "router_knows (C(t := None)) (I(k := None)) T r d" using conn_okD(5) [OF ok] by (cases r) auto
  show "u = u'" if "(C(t := None)) u = Some (c', k')" "(C(t := None)) u' = Some (c', k'')" for u u' c' k' k''
    using that conn_okD(3) [OF ok] by (auto split: if_splits)
qed (use conn_okD(2) [OF ok] in blast)

section \<open>Every step keeps the tables and the goroutines together\<close>

definition held_dst :: "esys \<Rightarrow> ipaddr" where
  "held_dst \<sigma> = (case rpc_holds (router \<sigma>) of [] \<Rightarrow> ZeroAddr | q # _ \<Rightarrow> pl_dst (pl_at (eng \<sigma>) q))"

definition conn_inv :: "esys \<Rightarrow> bool" where
  "conn_inv \<sigma> \<longleftrightarrow> conn_ok (conns (procs \<sigma>)) (addrs (procs \<sigma>)) (xabs (table_id (eng \<sigma>)))
     (xabs (table_addr (eng \<sigma>))) (router \<sigma>) (held_dst \<sigma>)"

lemma held_dst_frame:
  assumes inv: "einv M own tr \<sigma>" and step: "estep \<sigma> l \<sigma>'" and r: "router \<sigma>' = router \<sigma>"
  shows "held_dst \<sigma>' = held_dst \<sigma>"
proof (cases "rpc_holds (router \<sigma>)")
  case Nil
  then show ?thesis by (simp add: held_dst_def r)
next
  case (Cons q qs)
  then have "q \<in> held (placed \<sigma>)" by (intro heldI [of q _ AtRouter]) simp
  from estep_frame [OF inv step this] show ?thesis by (simp add: held_dst_def r Cons)
qed

lemma conns_step:
  assumes "P u = Some p" "P t = None"
  shows "conn_of p' = conn_of p \<Longrightarrow> (\<And>x. sp = Some x \<Longrightarrow> conn_of x = None) \<Longrightarrow>
      conns (spawn t sp (P(u \<mapsto> p'))) = conns P"
    "addr_of p' = addr_of p \<Longrightarrow> (\<And>x. sp = Some x \<Longrightarrow> addr_of x = None) \<Longrightarrow>
      addrs (spawn t sp (P(u \<mapsto> p'))) = addrs P"
  using assms by (auto simp: conns_def addrs_def spawn_def fun_eq_iff split: option.splits)

lemma conns_spawn:
  "P t = None \<Longrightarrow> conn_of p = Some x \<Longrightarrow> conns (spawn t (Some p) P) = (conns P)(t \<mapsto> x)"
  "P t = None \<Longrightarrow> addr_of p = Some y \<Longrightarrow> addrs (spawn t (Some p) P) = (addrs P)(t \<mapsto> y)"
  "conns (spawn t None P) = conns P" "addrs (spawn t None P) = addrs P"
  by (auto simp: conns_def addrs_def spawn_def fun_eq_iff)

lemma fresh_chan:
  assumes "einv M own tr \<sigma>" shows "conns (procs \<sigma>) t \<noteq> Some (next_chan (eng \<sigma>), k)"
proof
  assume "conns (procs \<sigma>) t = Some (next_chan (eng \<sigma>), k)"
  then obtain p where p: "procs \<sigma> t = Some p" "conn_of p = Some (next_chan (eng \<sigma>), k)"
    by (auto simp: conns_def split: option.splits)
  with einvD(4) [OF assms p(1)] show False by (cases p) auto
qed

lemma route_conn_inv:
  assumes inv: "einv M own tr \<sigma>" and c: "conn_inv \<sigma>" and t: "procs \<sigma> t = None"
    and step: "router_section v (router \<sigma>) (eng \<sigma>) = Some (r, e, sp)"
    and env: "env_ok v"
  shows "conn_inv (\<sigma>\<lparr>eng := e, router := r, procs := spawn t sp (procs \<sigma>)\<rparr>)"
proof -
  note tab = einvD(2) [OF inv]
  note T = tables_okD [OF tab]
  have t': "conns (procs \<sigma>) t = None" "addrs (procs \<sigma>) t = None" by (simp_all add: conns_def addrs_def t)
  note c' = c [unfolded conn_inv_def]
  have lookup: "conn_inv (\<sigma>\<lparr>eng := e, router := r, procs := spawn t None (procs \<sigma>)\<rparr>)"
    if L: "addr_load q miss (eng \<sigma>) = (r, e)" and free: "router_free (router \<sigma>)" "router_free miss"
      and q: "rpc_holds miss = [q]"
      and miss: "\<And>C I T d. T d = None \<Longrightarrow> router_knows C I T miss d" for q miss
  proof -
    from addr_load_cases [OF tab L] obtain m where e: "e = (eng \<sigma>)\<lparr>table_addr := m\<rparr>" "xabs m = xabs (table_addr (eng \<sigma>))"
      and r: "(\<exists>c. r = RSend q c) \<or> (r = miss \<and> xabs (table_addr (eng \<sigma>)) (pl_dst (pl_at (eng \<sigma>) q)) = None)"
      by metis
    have "router_free r" "router_knows C I (xabs (table_addr (eng \<sigma>))) r (pl_dst (pl_at (eng \<sigma>) q))" for C I
      using r free(2) miss by auto
    moreover have "rpc_holds r = [q]" using r q by auto
    ultimately show ?thesis
      using conn_ok_router [OF c' free(1)] by (simp add: conn_inv_def e conns_spawn held_dst_def)
  qed
  show ?thesis
  proof (cases "router \<sigma>")
    case RIdle
    with step have "router_free r" "router_knows C I T r d" "sp = None" "table_id e = table_id (eng \<sigma>)"
      "table_addr e = table_addr (eng \<sigma>)" for C I T d
      by (auto simp: route_receive_def Let_def split: list.splits if_splits)
    then show ?thesis using conn_ok_router [OF c'] RIdle by (simp add: conn_inv_def conns_spawn)
  next
    case (RAddr q)
    with step lookup [of q "RAddr2 q"] show ?thesis by (auto split: prod.splits)
  next
    case (RAddr2 q)
    with step lookup [of q "RRange q"] show ?thesis by (auto split: prod.splits)
  next
    case (RRange q)
    let ?d = "pl_dst (pl_at (eng \<sigma>) q)"
    have d: "held_dst \<sigma> = ?d" by (simp add: held_dst_def RRange)
    have miss: "xabs (table_addr (eng \<sigma>)) ?d = None" using conn_okD(5) [OF c'] by (simp add: RRange d)
    obtain m k where m: "find_peer v ?d (eng \<sigma>) = (k, (eng \<sigma>)\<lparr>table_m := m\<rparr>)"
      using find_peer_correct [OF env T(1), of ?d] by metis
    from step m have sp: "sp = None" and e: "xabs (table_id e) = xabs (table_id (eng \<sigma>))" "table_addr e = table_addr (eng \<sigma>)"
        "payloadPool e = payloadPool (eng \<sigma>)"
      and r: "r = RIdle \<or> (\<exists>c. r = RSend q c) \<or> (\<exists>key. r = RStoreAddr q key \<and> xabs (table_id (eng \<sigma>)) key = None)"
      using Load_correct [OF T(2)]
      by (auto simp: RRange addConnByDst_range_def Let_def split_beta split: option.splits)
    have "router_free r" "r = RIdle \<or> rpc_holds r = [q]" using r by auto
    moreover have "router_knows C (xabs (table_id (eng \<sigma>))) (xabs (table_addr (eng \<sigma>))) r ?d" for C
      using r miss by auto
    moreover have "router_knows C I T RIdle d" for C I T d by simp
    ultimately show ?thesis
      using conn_ok_router [OF c'] RRange by (auto simp: conn_inv_def sp conns_spawn held_dst_def e)
  next
    case (RStoreAddr q k)
    let ?d = "pl_dst (pl_at (eng \<sigma>) q)"
    obtain m where m: "Store ?d (next_chan (eng \<sigma>)) (table_addr (eng \<sigma>)) = Some m"
      "xabs m = (xabs (table_addr (eng \<sigma>)))(?d \<mapsto> next_chan (eng \<sigma>))"
      using Store_correct [OF T(3)] by blast
    with conn_ok_store_addr [OF c' [unfolded RStoreAddr] fresh_chan [OF inv]] step show ?thesis
      by (auto simp: RStoreAddr addConnByDst_store_addr_def Let_def conn_inv_def conns_spawn held_dst_def)
  next
    case (RStoreId q k ch)
    obtain m where m: "Store k ch (table_id (eng \<sigma>)) = Some m"
      "xabs m = (xabs (table_id (eng \<sigma>)))(k \<mapsto> ch)"
      using Store_correct [OF T(2)] by blast
    with conn_ok_store_id [OF c' [unfolded RStoreId]] step show ?thesis
      by (auto simp: RStoreId addConnByDst_store_id_def conn_inv_def conns_spawn held_dst_def)
  next
    case (RSpawn q k ch)
    with conn_ok_spawn [OF c' [unfolded RSpawn] t'] step t show ?thesis
      by (auto simp: conn_inv_def conns_spawn held_dst_def)
  next
    case (RSend q ch)
    with step have "r = RIdle" "sp = None" "table_id e = table_id (eng \<sigma>)" "table_addr e = table_addr (eng \<sigma>)"
      by (auto simp: route_send_def put_payload_def split: option.splits)
    then show ?thesis using conn_ok_router [OF c', of RIdle] RSend by (simp add: conn_inv_def conns_spawn)
  qed
qed

lemma proc_conn_inv:
  assumes inv: "einv M own tr \<sigma>" and c: "conn_inv \<sigma>" and t: "procs \<sigma> t = None" and u: "procs \<sigma> u = Some p"
    and step: "proc_section v p (eng \<sigma>) = (p', e, sp, l)"
    and d: "held_dst (\<sigma>\<lparr>eng := e, procs := spawn t sp ((procs \<sigma>)(u \<mapsto> p'))\<rparr>) = held_dst \<sigma>"
  shows "conn_inv (\<sigma>\<lparr>eng := e, procs := spawn t sp ((procs \<sigma>)(u \<mapsto> p'))\<rparr>)"
proof -
  note T = tables_okD [OF einvD(2) [OF inv]]
  note c' = c [unfolded conn_inv_def]
  have u': "conns (procs \<sigma>) u = conn_of p" "addrs (procs \<sigma>) u = addr_of p" by (simp_all add: conns_def addrs_def u)
  have same: "conn_inv (\<sigma>\<lparr>eng := e, procs := spawn t sp ((procs \<sigma>)(u \<mapsto> p'))\<rparr>)"
    if "conn_of p' = conn_of p" "addr_of p' = addr_of p" "\<And>x. sp = Some x \<Longrightarrow> conn_of x = None \<and> addr_of x = None"
      "xabs (table_id e) = xabs (table_id (eng \<sigma>))" "table_addr e = table_addr (eng \<sigma>)"
    using c that conns_step [where P = "procs \<sigma>", OF u t] by (simp add: conn_inv_def d)
  show ?thesis
  proof (cases p)
    case (CDelAddr ch k a)
    with step have eqs: "p' = CDelId ch k" "e = (eng \<sigma>)\<lparr>table_addr := Delete a (table_addr (eng \<sigma>))\<rparr>" "sp = None" by auto
    have "conns ((procs \<sigma>)(u \<mapsto> p')) = conns (procs \<sigma>)" "addrs ((procs \<sigma>)(u \<mapsto> p')) = (addrs (procs \<sigma>))(u := None)"
      using u by (auto simp: conns_def addrs_def fun_eq_iff eqs CDelAddr)
    with conn_ok_delete_addr [OF c', of u ch a] u' Delete_correct [OF T(3), of a] d show ?thesis
      by (simp add: conn_inv_def eqs spawn_def CDelAddr)
  next
    case (CDelId ch k)
    with step have eqs: "p' = Finished" "e = (eng \<sigma>)\<lparr>table_id := Delete k (table_id (eng \<sigma>))\<rparr>" "sp = None" by auto
    have "conns ((procs \<sigma>)(u \<mapsto> p')) = (conns (procs \<sigma>))(u := None)" "addrs ((procs \<sigma>)(u \<mapsto> p')) = addrs (procs \<sigma>)"
      using u by (auto simp: conns_def addrs_def fun_eq_iff eqs CDelId)
    with conn_ok_delete_id [OF c', of u ch k] u' Delete_correct [OF T(2), of k] d show ?thesis
      by (simp add: conn_inv_def eqs spawn_def CDelId)
  next
    case (CStart ch k a)
    with step show ?thesis by (intro same) (auto simp: addConn_search_def split: if_splits)
  next
    case (CRun ch k a)
    with step show ?thesis
      by (intro same) (auto simp: addConn_send_def Let_def put_payload_def split: list.splits if_splits)
  next
    case (PReader k)
    with step show ?thesis
      by (intro same) (auto simp: stream_read_def new_payload_def split: option.splits prod.splits)
  next
    case (PSend k q)
    with step show ?thesis by (intro same) (auto simp: stream_deliver_def)
  next
    case (HStart k)
    with step show ?thesis by (intro same) (auto simp: VPNHandler_start_def Let_def split: prod.splits if_splits)
  next
    case (HId k)
    with step Load_correct [OF T(2), of k] show ?thesis
      by (intro same) (auto simp: VPNHandler_id_def Let_def split_beta split: option.splits)
  next
    case (HRun k ch)
    with step show ?thesis
      by (intro same) (auto simp: VPNHandler_send_def Let_def put_payload_def split: list.splits)
  next
    case Finished
    with step show ?thesis by (intro same) auto
  qed
qed

lemma estep_conn_inv:
  assumes inv: "einv M own tr \<sigma>" and c: "conn_inv \<sigma>" and step: "estep \<sigma> l \<sigma>'"
  shows "conn_inv \<sigma>'"
  using step
proof cases
  case (tun_read v e)
  have "table_id e = table_id (eng \<sigma>)" "table_addr e = table_addr (eng \<sigma>)"
    by (cases rule: reader_cases [of v "eng \<sigma>"]; use tun_read in \<open>auto simp: Let_def split: if_splits\<close>)+
  with tun_read c held_dst_frame [OF inv step] show ?thesis by (simp add: conn_inv_def)
next
  case (tun_write v w e)
  have "table_id e = table_id (eng \<sigma>)" "table_addr e = table_addr (eng \<sigma>)"
    using tun_write(4)
    by (cases "writer \<sigma>"; auto simp: RoutineTUNWriter_def Let_def put_payload_def split: list.splits if_splits)+
  with tun_write c held_dst_frame [OF inv step] show ?thesis by (simp add: conn_inv_def)
next
  case (route v t r e sp)
  with route_conn_inv [OF inv c] show ?thesis by simp
next
  case (proc v u p t p' e sp)
  with proc_conn_inv [OF inv c] held_dst_frame [OF inv step] show ?thesis by simp
next
  case (incoming t key)
  then have "conns (procs \<sigma>') = conns (procs \<sigma>)" "addrs (procs \<sigma>') = addrs (procs \<sigma>)"
    by (auto simp: conns_def addrs_def fun_eq_iff)
  with incoming c held_dst_frame [OF inv step] show ?thesis by (simp add: conn_inv_def)
qed

lemma erun_conn_inv:
  assumes "erun \<sigma> tr \<sigma>'" and "einv M own tr0 \<sigma>" and "conn_inv \<sigma>"
  shows "conn_inv \<sigma>'"
  using assms
proof (induction)
  case (erun_step \<sigma> tr \<sigma>' l \<sigma>'')
  obtain own' where "einv M own' (tr0 @ tr) \<sigma>'" using erun_einv [OF erun_step.hyps(1) erun_step.prems(1)] by blast
  from estep_conn_inv [OF this erun_step.IH [OF erun_step.prems] erun_step.hyps(2)] show ?case .
qed

lemma esys_start_conn_inv:
  assumes "esys_start bc routes = Some \<sigma>" shows "conn_inv \<sigma>"
proof -
  have "xabs (table_id (eng \<sigma>)) = Map.empty" "xabs (table_addr (eng \<sigma>)) = Map.empty" "procs \<sigma> = Map.empty" "router \<sigma> = RIdle"
    using assms by (auto simp: esys_start_def engine_new_def split: bind_splits)
  then show ?thesis by (simp add: conn_inv_def conn_ok_def conns_def addrs_def)
qed

lemma reach_conn_inv:
  assumes "esys_start bc routes = Some \<sigma>" and "erun \<sigma> tr \<sigma>'"
  shows "conn_inv \<sigma>'"
  using erun_conn_inv [OF assms(2) esys_start_einv [OF assms(1)] esys_start_conn_inv [OF assms(1)]] .

end
