(* ===== verification/EngineRoute.thy ===== *)
theory EngineRoute
  imports EngineConn
begin

text \<open>
  What \<open>RoutineRouteTableWriter\<close> decides for one payload, as an abstract specification over plain
  maps, and that its sections run one after the other reach that decision and end.
\<close>

section \<open>The decision\<close>

datatype decision = ToChan chan | Connect peer_id | Drop

definition decides ::
  "(peer_id \<rightharpoonup> prefix) \<Rightarrow> (ipaddr \<rightharpoonup> chan) \<Rightarrow> (peer_id \<rightharpoonup> chan) \<Rightarrow> ipaddr \<Rightarrow> decision \<Rightarrow> bool" where
  "decides M A I d x = (case x of
     ToChan c \<Rightarrow> A d = Some c \<or> (A d = None \<and> (\<exists>k. routed M k d \<and> I k = Some c))
   | Connect k \<Rightarrow> A d = None \<and> routed M k d \<and> I k = None
   | Drop \<Rightarrow> A d = None \<and> (\<forall>k. \<not> routed M k d))"

text \<open>The queues, the new goroutine and the tables after it.\<close>

definition enqueue :: "pointer \<Rightarrow> chan \<Rightarrow> (chan \<Rightarrow> pointer list) \<Rightarrow> chan \<Rightarrow> pointer list" where
  "enqueue q c f = (if length (f c) < ChanSize then f(c := f c @ [q]) else f)"

fun carries_out :: "engine \<Rightarrow> pointer \<Rightarrow> ipaddr \<Rightarrow> decision \<Rightarrow> engine \<Rightarrow> ppc option \<Rightarrow> bool" where
  "carries_out e q d (ToChan c) e' sp =
     (sp = None \<and> chans e' = enqueue q c (chans e) \<and> next_chan e' = next_chan e \<and>
      xabs (table_addr e') = xabs (table_addr e) \<and> xabs (table_id e') = xabs (table_id e))"
| "carries_out e q d (Connect k) e' sp =
     (let c = next_chan e in
      sp = Some (CStart c k d) \<and> chans e' = (chans e)(c := [q]) \<and> next_chan e' = c + 1 \<and>
      xabs (table_addr e') = (xabs (table_addr e))(d \<mapsto> c) \<and> xabs (table_id e') = (xabs (table_id e))(k \<mapsto> c))"
| "carries_out e q d Drop e' sp =
     (sp = None \<and> chans e' = chans e \<and> next_chan e' = next_chan e \<and>
      xabs (table_addr e') = xabs (table_addr e) \<and> xabs (table_id e') = xabs (table_id e))"

section \<open>The sections of the router, one after the other\<close>

fun router_run :: "nat \<Rightarrow> env \<Rightarrow> rpc \<Rightarrow> engine \<Rightarrow> ppc option \<Rightarrow> (engine \<times> ppc option) option" where
  "router_run n v RIdle e sp = Some (e, sp)"
| "router_run 0 v r e sp = None"
| "router_run (Suc n) v r e sp = do {
     (r, e, sp') \<leftarrow> router_section v r e;
     router_run n v r e (case sp' of None \<Rightarrow> sp | Some _ \<Rightarrow> sp')
   }"

lemma router_run_Suc:
  "r \<noteq> RIdle \<Longrightarrow> router_section v r e = Some (r', e', sp') \<Longrightarrow>
   router_run (Suc n) v r e sp = router_run n v r' e' (case sp' of None \<Rightarrow> sp | Some _ \<Rightarrow> sp')"
  by (cases r) auto

lemma router_run_send:
  "router_run (Suc n) v (RSend q c) e sp =
     Some (if length (chans e c) < ChanSize then e\<lparr>chans := enqueue q c (chans e)\<rparr> else put_payload q e, sp)"
  by (simp add: router_run_Suc route_send_def try_send_def enqueue_def)

lemma addr_load_result:
  assumes "xinv (table_addr e)"
  obtains m where "xinv m" "xabs m = xabs (table_addr e)"
    "addr_load q miss e =
      ((case xabs (table_addr e) (pl_dst (pl_at e q)) of Some c \<Rightarrow> RSend q c | None \<Rightarrow> miss), e\<lparr>table_addr := m\<rparr>)"
  using Load_correct [OF assms, of "pl_dst (pl_at e q)"] that [of "snd (Load (pl_dst (pl_at e q)) (table_addr e))"]
  by (auto simp: addr_load_def Let_def split_beta split: option.splits)

text \<open>\<open>addConnByDst\<close> after its lookup failed: from the iteration over the routes.\<close>

lemma router_run_range:
  assumes env: "env_ok v" and x: "xinv (table_m e)" "xinv (table_id e)" "xinv (table_addr e)"
    and d: "d = pl_dst (pl_at e q)" and none: "xabs (table_addr e) d = None"
    and fresh: "chans e (next_chan e) = []"
  shows "\<exists>x e' sp. decides (xabs (table_m e)) (xabs (table_addr e)) (xabs (table_id e)) d x \<and>
    router_run (Suc (Suc (Suc (Suc (Suc n))))) v (RRange q) e None = Some (e', sp) \<and> carries_out e q d x e' sp"
proof -
  obtain m r where m: "find_peer v d e = (r, e\<lparr>table_m := m\<rparr>)" "xinv m" "xabs m = xabs (table_m e)"
    and r: "\<And>k. r = None \<Longrightarrow> \<not> routed (xabs (table_m e)) k d" "\<And>k. r = Some k \<Longrightarrow> routed (xabs (table_m e)) k d"
    using find_peer_correct [OF env x(1), of d] by metis
  show ?thesis
  proof (cases r)
    case None
    have "router_section v (RRange q) e = Some (RIdle, e\<lparr>table_m := m\<rparr>, None)"
      using m None d by (simp add: addConnByDst_range_def)
    with r(1) [OF None] none show ?thesis
      by (intro exI [of _ Drop]) (simp add: router_run_Suc decides_def)
  next
    case (Some k)
    obtain c m' where L: "Load k (table_id e) = (c, m')" by fastforce
    note L' = Load_correct [OF x(2), of k, unfolded L, simplified]
    show ?thesis
    proof (cases c)
      case found: (Some c')
      have "router_section v (RRange q) e = Some (RSend q c', e\<lparr>table_m := m, table_id := m'\<rparr>, None)"
        using m Some d L found by (simp add: addConnByDst_range_def)
      then have run: "router_run (Suc (Suc (Suc (Suc (Suc n))))) v (RRange q) e None =
          router_run (Suc (Suc (Suc (Suc n)))) v (RSend q c') (e\<lparr>table_m := m, table_id := m'\<rparr>) None"
        by (simp only: router_run_Suc rpc.distinct not_False_eq_True option.case)
      have "decides (xabs (table_m e)) (xabs (table_addr e)) (xabs (table_id e)) d (ToChan c')"
        using r(2) [OF Some] none L' found by (auto simp: decides_def)
      then show ?thesis
        unfolding run router_run_send
        using L' by (intro exI [of _ "ToChan c'"]) (auto simp: put_payload_def enqueue_def)
    next
      case missing: None
      let ?n = "next_chan e"
      let ?e = "e\<lparr>table_m := m, table_id := m'\<rparr>"
      obtain A where A: "Store d ?n (table_addr e) = Some A" "xinv A" "xabs A = (xabs (table_addr e))(d \<mapsto> ?n)"
        using Store_correct [OF x(3)] by blast
      obtain I where I: "Store k ?n m' = Some I" "xinv I" "xabs I = (xabs m')(k \<mapsto> ?n)"
        using Store_correct [of m' k ?n] L' by blast
      let ?a = "?e\<lparr>table_addr := A, chans := (chans e)(?n := []), next_chan := ?n + 1\<rparr>"
      have s1: "router_section v (RRange q) e = Some (RStoreAddr q k, ?e, None)"
        using m Some d L missing by (simp add: addConnByDst_range_def)
      have s2: "router_section v (RStoreAddr q k) ?e = Some (RStoreId q k ?n, ?a, None)"
        using A d by (simp add: addConnByDst_store_addr_def Let_def)
      have s3: "router_section v (RStoreId q k ?n) ?a = Some (RSpawn q k ?n, ?a\<lparr>table_id := I\<rparr>, None)"
        using I by (simp add: addConnByDst_store_id_def)
      have s4: "router_section v (RSpawn q k ?n) (?a\<lparr>table_id := I\<rparr>) =
          Some (RSend q ?n, ?a\<lparr>table_id := I\<rparr>, Some (CStart ?n k d))"
        using d by simp
      have run: "router_run (Suc (Suc (Suc (Suc (Suc n))))) v (RRange q) e None =
          Some (?a\<lparr>table_id := I, chans := (chans e)(?n := [q])\<rparr>, Some (CStart ?n k d))"
        unfolding router_run_Suc [OF rpc.distinct(6) s1] router_run_Suc [OF rpc.distinct(8) s2] option.case
          router_run_Suc [OF rpc.distinct(10) s3] router_run_Suc [OF rpc.distinct(12) s4] router_run_send
        by (simp add: enqueue_def ChanSize_def)
      have "decides (xabs (table_m e)) (xabs (table_addr e)) (xabs (table_id e)) d (Connect k)"
        using r(2) [OF Some] none L' missing by (simp add: decides_def)
      with run show ?thesis
        using A(3) I(3) L' by (intro exI [of _ "Connect k"]) (simp add: Let_def)
    qed
  qed
qed

lemma router_run_addr:
  assumes env: "env_ok v" and x: "xinv (table_m e)" "xinv (table_id e)" "xinv (table_addr e)"
    and d: "d = pl_dst (pl_at e q)" and fresh: "chans e (next_chan e) = []"
  shows "\<exists>x e' sp. decides (xabs (table_m e)) (xabs (table_addr e)) (xabs (table_id e)) d x \<and>
    router_run (7 + n) v (RAddr q) e None = Some (e', sp) \<and> carries_out e q d x e' sp"
proof -
  obtain m1 where m1: "xinv m1" "xabs m1 = xabs (table_addr e)"
    "addr_load q (RAddr2 q) e =
      ((case xabs (table_addr e) d of Some c \<Rightarrow> RSend q c | None \<Rightarrow> RAddr2 q), e\<lparr>table_addr := m1\<rparr>)"
    using addr_load_result [OF x(3), of q "RAddr2 q"] d by metis
  show ?thesis
  proof (cases "xabs (table_addr e) d")
    case (Some c)
    have s1: "router_section v (RAddr q) e = Some (RSend q c, e\<lparr>table_addr := m1\<rparr>, None)"
      using m1(3) Some by simp
    have "decides (xabs (table_m e)) (xabs (table_addr e)) (xabs (table_id e)) d (ToChan c)"
      using Some by (simp add: decides_def)
    then show ?thesis
      using m1 by (intro exI [of _ "ToChan c"])
        (auto simp: numeral_eq_Suc router_run_Suc [OF _ s1] router_run_send put_payload_def enqueue_def
          simp del: router_section.simps router_run.simps)
  next
    case None
    let ?e1 = "e\<lparr>table_addr := m1\<rparr>"
    obtain m2 where m2: "xinv m2" "xabs m2 = xabs m1"
      "addr_load q (RRange q) ?e1 =
        ((case xabs m1 d of Some c \<Rightarrow> RSend q c | None \<Rightarrow> RRange q), ?e1\<lparr>table_addr := m2\<rparr>)"
      using addr_load_result [of ?e1 q "RRange q"] d m1(1) by auto
    let ?e2 = "e\<lparr>table_addr := m2\<rparr>"
    have s1: "router_section v (RAddr q) e = Some (RAddr2 q, ?e1, None)" using m1(3) None by simp
    have s2: "router_section v (RAddr2 q) ?e1 = Some (RRange q, ?e2, None)" using m2(3) m1(2) None by simp
    have run: "router_run (7 + n) v (RAddr q) e None = router_run (Suc (Suc (Suc (Suc (Suc n))))) v (RRange q) ?e2 None"
      by (simp add: numeral_eq_Suc router_run_Suc [OF _ s1] router_run_Suc [OF _ s2]
          del: router_section.simps router_run.simps)
    from router_run_range [OF env, of ?e2 d q n] x m1 m2 d None fresh
    obtain x e' sp where R: "decides (xabs (table_m e)) (xabs (table_addr e)) (xabs (table_id e)) d x"
      "router_run (Suc (Suc (Suc (Suc (Suc n))))) v (RRange q) ?e2 None = Some (e', sp)" "carries_out ?e2 q d x e' sp"
      by auto
    moreover have "carries_out e q d x e' sp" using R(3) m1(2) m2(2) by (cases x) (auto simp: Let_def)
    ultimately show ?thesis using run by auto
  qed
qed

section \<open>A channel nobody will read\<close>

text \<open>The channel is in no table and no goroutine has it; new channels get other numbers.\<close>

fun ppc_chan :: "ppc \<Rightarrow> chan option" where
  "ppc_chan (CStart c k d) = Some c"
| "ppc_chan (CRun c k d) = Some c"
| "ppc_chan (HRun k c) = Some c"
| "ppc_chan p = None"

fun rpc_chan :: "rpc \<Rightarrow> chan option" where
  "rpc_chan (RStoreId q k c) = Some c"
| "rpc_chan (RSpawn q k c) = Some c"
| "rpc_chan (RSend q c) = Some c"
| "rpc_chan r = None"

definition unreachable_chan :: "esys \<Rightarrow> chan \<Rightarrow> bool" where
  "unreachable_chan \<sigma> c \<longleftrightarrow> c < next_chan (eng \<sigma>) \<and>
     (\<forall>d. xabs (table_addr (eng \<sigma>)) d \<noteq> Some c) \<and> (\<forall>k. xabs (table_id (eng \<sigma>)) k \<noteq> Some c) \<and>
     rpc_chan (router \<sigma>) \<noteq> Some c \<and> (\<forall>t p. procs \<sigma> t = Some p \<longrightarrow> ppc_chan p \<noteq> Some c)"

lemma unreachable_chanD:
  assumes "unreachable_chan \<sigma> c"
  shows "c < next_chan (eng \<sigma>)" "xabs (table_addr (eng \<sigma>)) d \<noteq> Some c" "xabs (table_id (eng \<sigma>)) k \<noteq> Some c"
    "rpc_chan (router \<sigma>) \<noteq> Some c" "procs \<sigma> t = Some p \<Longrightarrow> ppc_chan p \<noteq> Some c"
  using assms by (auto simp: unreachable_chan_def)

lemma router_unreachable:
  assumes inv: "einv M own tr \<sigma>" and un: "unreachable_chan \<sigma> c" and env: "env_ok v"
    and step: "router_section v (router \<sigma>) (eng \<sigma>) = Some (r, e, sp)"
  shows "chans e c = chans (eng \<sigma>) c \<and> c < next_chan e \<and> (\<forall>d. xabs (table_addr e) d \<noteq> Some c) \<and>
    (\<forall>k. xabs (table_id e) k \<noteq> Some c) \<and> rpc_chan r \<noteq> Some c \<and> (\<forall>p. sp = Some p \<longrightarrow> ppc_chan p \<noteq> Some c)"
proof -
  note tab = einvD(2) [OF inv]
  note T = tables_okD [OF tab]
  note U = unreachable_chanD [OF un]
  have load: "chans e c = chans (eng \<sigma>) c \<and> c < next_chan e \<and> (\<forall>d. xabs (table_addr e) d \<noteq> Some c) \<and>
    (\<forall>k. xabs (table_id e) k \<noteq> Some c) \<and> rpc_chan r \<noteq> Some c"
    if L: "addr_load q miss (eng \<sigma>) = (r, e)" and miss: "rpc_chan miss = None" for q miss
  proof -
    from addr_load_cases [OF tab L] obtain m where "e = (eng \<sigma>)\<lparr>table_addr := m\<rparr>" "xabs m = xabs (table_addr (eng \<sigma>))"
      "(\<exists>c. r = RSend q c \<and> xabs (table_addr (eng \<sigma>)) (pl_dst (pl_at (eng \<sigma>) q)) = Some c) \<or> r = miss"
      by metis
    with U miss show ?thesis by auto
  qed
  show ?thesis
  proof (cases "router \<sigma>")
    case RIdle
    with step U show ?thesis by (auto simp: route_receive_def Let_def split: list.splits if_splits)
  next
    case (RAddr q)
    with step load [of q "RAddr2 q"] show ?thesis by (auto split: prod.splits)
  next
    case (RAddr2 q)
    with step load [of q "RRange q"] show ?thesis by (auto split: prod.splits)
  next
    case (RRange q)
    obtain m k where m: "find_peer v (pl_dst (pl_at (eng \<sigma>) q)) (eng \<sigma>) = (k, (eng \<sigma>)\<lparr>table_m := m\<rparr>)"
      using find_peer_correct [OF env T(1), of "pl_dst (pl_at (eng \<sigma>) q)"] by metis
    with step U Load_correct [OF T(2)] show ?thesis
      by (auto simp: RRange addConnByDst_range_def Let_def split_beta split: option.splits)
  next
    case (RStoreAddr q k)
    obtain m where "Store (pl_dst (pl_at (eng \<sigma>) q)) (next_chan (eng \<sigma>)) (table_addr (eng \<sigma>)) = Some m"
      "xabs m = (xabs (table_addr (eng \<sigma>)))(pl_dst (pl_at (eng \<sigma>) q) \<mapsto> next_chan (eng \<sigma>))"
      using Store_correct [OF T(3)] by blast
    with step U RStoreAddr show ?thesis by (auto simp: addConnByDst_store_addr_def Let_def split: if_splits)
  next
    case (RStoreId q k ch)
    obtain m where "Store k ch (table_id (eng \<sigma>)) = Some m" "xabs m = (xabs (table_id (eng \<sigma>)))(k \<mapsto> ch)"
      using Store_correct [OF T(2)] by blast
    with step U RStoreId show ?thesis by (auto simp: addConnByDst_store_id_def split: if_splits)
  next
    case (RSpawn q k ch)
    with step U show ?thesis by auto
  next
    case (RSend q ch)
    with step U show ?thesis by (auto simp: route_send_def put_payload_def split: option.splits)
  qed
qed

lemma proc_unreachable:
  assumes inv: "einv M own tr \<sigma>" and un: "unreachable_chan \<sigma> c" and u: "procs \<sigma> u = Some p"
    and step: "proc_section v p (eng \<sigma>) = (p', e, sp, l)"
  shows "chans e c = chans (eng \<sigma>) c \<and> next_chan e = next_chan (eng \<sigma>) \<and> (\<forall>d. xabs (table_addr e) d \<noteq> Some c) \<and>
    (\<forall>k. xabs (table_id e) k \<noteq> Some c) \<and> ppc_chan p' \<noteq> Some c \<and> (\<forall>x. sp = Some x \<longrightarrow> ppc_chan x \<noteq> Some c)"
proof -
  note T = tables_okD [OF einvD(2) [OF inv]]
  note U = unreachable_chanD(2,3) [OF un] unreachable_chanD(5) [OF un u]
  show ?thesis
    using step U Delete_correct [OF T(2)] Delete_correct [OF T(3)] Load_correct [OF T(2)]
    by (cases p) (auto simp: addConn_search_def addConn_send_def stream_read_def stream_deliver_def new_payload_def
        VPNHandler_start_def VPNHandler_id_def VPNHandler_send_def put_payload_def Let_def split_beta
        split: list.splits option.splits if_splits)
qed

lemma estep_unreachable:
  assumes inv: "einv M own tr \<sigma>" and un: "unreachable_chan \<sigma> c" and step: "estep \<sigma> l \<sigma>'"
  shows "unreachable_chan \<sigma>' c" "chans (eng \<sigma>') c = chans (eng \<sigma>) c"
proof -
  have "unreachable_chan \<sigma>' c \<and> chans (eng \<sigma>') c = chans (eng \<sigma>) c"
    using step
  proof cases
    case (tun_read v e)
    have "table_id e = table_id (eng \<sigma>)" "table_addr e = table_addr (eng \<sigma>)" "chans e = chans (eng \<sigma>)"
      "next_chan e = next_chan (eng \<sigma>)"
      by (cases rule: reader_cases [of v "eng \<sigma>"]; use tun_read in \<open>auto simp: Let_def split: if_splits\<close>)+
    with tun_read un show ?thesis by (simp add: unreachable_chan_def)
  next
    case (tun_write v w e)
    have "table_id e = table_id (eng \<sigma>)" "table_addr e = table_addr (eng \<sigma>)" "chans e = chans (eng \<sigma>)"
      "next_chan e = next_chan (eng \<sigma>)"
      using tun_write(4)
      by (cases "writer \<sigma>"; auto simp: RoutineTUNWriter_def Let_def put_payload_def split: list.splits if_splits)+
    with tun_write un show ?thesis by (simp add: unreachable_chan_def)
  next
    case (route v t r e sp)
    from router_unreachable [OF inv un route(3,6)] route un show ?thesis
      by (auto simp: unreachable_chan_def dest!: spawn_Some)
  next
    case (proc v u p t p' e sp)
    from proc_unreachable [OF inv un proc(3,6)] proc un show ?thesis
      by (auto simp: unreachable_chan_def dest!: spawn_Some split: if_splits)
  next
    case (incoming t key)
    with un show ?thesis by (auto simp: unreachable_chan_def split: if_splits)
  qed
  then show "unreachable_chan \<sigma>' c" "chans (eng \<sigma>') c = chans (eng \<sigma>) c" by blast+
qed

lemma erun_unreachable:
  assumes "erun \<sigma> tr \<sigma>'" and "einv M own tr0 \<sigma>" and "unreachable_chan \<sigma> c"
  shows "unreachable_chan \<sigma>' c \<and> chans (eng \<sigma>') c = chans (eng \<sigma>) c"
  using assms
proof (induction)
  case (erun_step \<sigma> tr \<sigma>' l \<sigma>'')
  obtain own' where "einv M own' (tr0 @ tr) \<sigma>'" using erun_einv [OF erun_step.hyps(1) erun_step.prems(1)] by blast
  from estep_unreachable [OF this _ erun_step.hyps(2), of c] erun_step.IH [OF erun_step.prems] show ?case by auto
qed simp

end
