(* ===== verification/EngineRuns.thy ===== *)
theory EngineRuns
  imports EngineRoute
begin

text \<open>
  The properties of the packet path, and an executable scheduler that yields concrete runs for them.
\<close>

section \<open>Concrete runs\<close>

datatype turn =
    ReadTurn env
  | WriteTurn env
  | RouteTurn env nat
  | ProcTurn env nat nat
  | IncomingTurn nat peer_id

fun turn_env :: "turn \<Rightarrow> env option" where
  "turn_env (ReadTurn v) = Some v"
| "turn_env (WriteTurn v) = Some v"
| "turn_env (RouteTurn v t) = Some v"
| "turn_env (ProcTurn v u t) = Some v"
| "turn_env (IncomingTurn t k) = None"

fun eexec :: "turn \<Rightarrow> esys \<Rightarrow> (label \<times> esys) option" where
  "eexec (ReadTurn v) \<sigma> =
     map_option (\<lambda>(e, l). (l, \<sigma>\<lparr>eng := e\<rparr>)) (RoutineTUNReader v (eng \<sigma>))"
| "eexec (WriteTurn v) \<sigma> =
     (if writer \<sigma> = WIdle \<and> devWriter (eng \<sigma>) = [] then None
      else let (w, e, l) = writer_section v (writer \<sigma>) (eng \<sigma>) in Some (l, \<sigma>\<lparr>eng := e, writer := w\<rparr>))"
| "eexec (RouteTurn v t) \<sigma> =
     (if router_enabled (router \<sigma>) (eng \<sigma>) \<and> procs \<sigma> t = None
      then map_option (\<lambda>(r, e, sp). (Tau, \<sigma>\<lparr>eng := e, router := r, procs := spawn t sp (procs \<sigma>)\<rparr>))
        (router_section v (router \<sigma>) (eng \<sigma>))
      else None)"
| "eexec (ProcTurn v u t) \<sigma> =
     (case procs \<sigma> u of
        None \<Rightarrow> None
      | Some p \<Rightarrow>
        if proc_enabled p (eng \<sigma>) \<and> procs \<sigma> t = None
        then let (p', e, sp, l) = proc_section v p (eng \<sigma>)
             in Some (l, \<sigma>\<lparr>eng := e, procs := spawn t sp ((procs \<sigma>)(u \<mapsto> p'))\<rparr>)
        else None)"
| "eexec (IncomingTurn t k) \<sigma> =
     (if procs \<sigma> t = None then Some (Tau, \<sigma>\<lparr>procs := (procs \<sigma>)(t \<mapsto> HStart k)\<rparr>) else None)"

fun ereplay :: "turn list \<Rightarrow> esys \<Rightarrow> (label list \<times> esys) option" where
  "ereplay [] \<sigma> = Some ([], \<sigma>)"
| "ereplay (x # xs) \<sigma> = do {
     (l, \<sigma>) \<leftarrow> eexec x \<sigma>;
     (ls, \<sigma>) \<leftarrow> ereplay xs \<sigma>;
     Some (l # ls, \<sigma>)
   }"

lemma eexec_estep:
  assumes "eexec x \<sigma> = Some (l, \<sigma>')" and "\<And>v. turn_env x = Some v \<Longrightarrow> env_ok v"
  shows "estep \<sigma> l \<sigma>'"
  using assms
  by (cases x) (auto intro: estep.intros split: option.splits if_splits prod.splits)

lemma erun_Cons:
  assumes "erun \<sigma>' tr \<sigma>''" and "estep \<sigma> l \<sigma>'"
  shows "erun \<sigma> (l # tr) \<sigma>''"
  using assms
proof (induction)
  case (erun_refl \<sigma>')
  with erun.erun_step [OF erun.erun_refl] show ?case by fastforce
next
  case (erun_step \<sigma>' tr \<sigma>1 l1 \<sigma>2)
  from erun.erun_step [OF erun_step.IH [OF erun_step.prems] erun_step.hyps(2)] show ?case by simp
qed

lemma ereplay_erun:
  "ereplay xs \<sigma> = Some (tr, \<sigma>') \<Longrightarrow> \<forall>x\<in>set xs. \<forall>v. turn_env x = Some v \<longrightarrow> env_ok v \<Longrightarrow> erun \<sigma> tr \<sigma>'"
proof (induction xs arbitrary: \<sigma> tr)
  case Nil
  then show ?case by (auto intro: erun.erun_refl)
next
  case (Cons x xs)
  then obtain l \<sigma>1 ls where x: "eexec x \<sigma> = Some (l, \<sigma>1)" "ereplay xs \<sigma>1 = Some (ls, \<sigma>')" "tr = l # ls"
    by (auto split: bind_splits)
  with Cons.prems eexec_estep have "estep \<sigma> l \<sigma>1" by simp
  with Cons x show ?case by (auto intro: erun_Cons)
qed

text \<open>A configuration with one peer, a packet for it, and an answer.\<close>

definition demo_env :: env where
  "demo_env = \<lparr>tun_in = None, pick_ip = 0, pick_payload = 0, range_order = (\<lambda>ys. ys), found_stream = True,
     device_ok = True, stream_ok = True, msg_in = None\<rparr>"

definition demo_packet :: "byte list" where
  "demo_packet = 0x45 # replicate 15 0 @ [10, 0, 0, 2]"

definition demo_dst :: ipaddr where "demo_dst = Addr4 0x0A000002"

definition demo_routes :: "(peer_id \<times> prefix) list" where
  "demo_routes = [(''peer'', Prefix demo_dst 32)]"

definition engine_start :: esys where "engine_start = the (esys_start False demo_routes)"

definition demo_read :: turn where "demo_read = ReadTurn (demo_env\<lparr>tun_in := Some demo_packet\<rparr>)"

definition demo_turns :: "turn list" where
  "demo_turns = demo_read # replicate 6 (RouteTurn demo_env 9) @ [RouteTurn demo_env 0, RouteTurn demo_env 9,
     ProcTurn demo_env 0 1, ProcTurn demo_env 0 9, ProcTurn (demo_env\<lparr>msg_in := Some [1, 2, 3]\<rparr>) 1 9,
     ProcTurn demo_env 1 9, WriteTurn demo_env]"

lemma demo_env_ok: "env_ok demo_env" "env_ok (demo_env\<lparr>tun_in := Some demo_packet\<rparr>)" "env_ok (demo_env\<lparr>msg_in := m\<rparr>)"
  "env_ok (demo_env\<lparr>stream_ok := b\<rparr>)"
  by (simp_all add: env_ok_def demo_env_def demo_packet_def BuffSize_def)

definition demo_payload :: payload where
  "demo_payload = \<lparr>pl_src = ZeroAddr, pl_dst = demo_dst, pl_data = demo_packet\<rparr>"

definition demo_trace :: "label list" where
  "demo_trace = ReadTun demo_packet # replicate 9 Tau @
     [SentTo ''peer'' demo_payload, Received ''peer'' [1, 2, 3], Queued ''peer'' [1, 2, 3], WroteTun [1, 2, 3]]"

lemma engine_start_ok: "esys_start False demo_routes = Some engine_start"
proof -
  have "esys_start False demo_routes \<noteq> None"
    using store_routes_correct [of empty_xmap demo_routes] by (auto simp: esys_start_def)
  then show ?thesis by (auto simp: engine_start_def)
qed

lemma ex_run:
  assumes "map_option fst (ereplay xs \<sigma>) = Some tr" and "\<forall>x\<in>set xs. \<forall>v. turn_env x = Some v \<longrightarrow> env_ok v"
  obtains \<sigma>' where "ereplay xs \<sigma> = Some (tr, \<sigma>')" "erun \<sigma> tr \<sigma>'"
  using assms ereplay_erun [of xs \<sigma>] by fastforce

lemma demo_replay: "map_option fst (ereplay demo_turns engine_start) = Some demo_trace"
  by code_simp

lemma engine_run: obtains \<sigma>' where "erun engine_start demo_trace \<sigma>'"
proof -
  have "\<forall>x\<in>set demo_turns. \<forall>v. turn_env x = Some v \<longrightarrow> env_ok v"
    using demo_env_ok by (simp add: demo_turns_def demo_read_def)
  from ex_run [OF demo_replay this] that show thesis by metis
qed

text \<open>The peer's stream breaks while the router has another packet for the peer.\<close>

definition teardown_turns :: "turn list" where
  "teardown_turns = demo_read # replicate 6 (RouteTurn demo_env 9) @ [RouteTurn demo_env 0, RouteTurn demo_env 9,
     ProcTurn demo_env 0 1, ProcTurn (demo_env\<lparr>stream_ok := False\<rparr>) 0 9, ProcTurn demo_env 0 9, demo_read] @
     replicate 5 (RouteTurn demo_env 9) @ [ProcTurn demo_env 0 9]"

definition teardown_trace :: "label list" where
  "teardown_trace = ReadTun demo_packet # replicate 9 Tau @ [SentTo ''peer'' demo_payload, Tau, ReadTun demo_packet] @
     replicate 6 Tau"

lemma teardown_replay:
  "map_option (\<lambda>(tr, \<sigma>). (tr, router \<sigma>, chans (eng \<sigma>) 0, next_chan (eng \<sigma>), procs \<sigma> 0, procs \<sigma> 1, procs \<sigma> 9,
     pl_at (eng \<sigma>) 0))
     (ereplay teardown_turns engine_start) =
   Some (teardown_trace, RIdle, [0], 1, Some Finished, Some (PReader ''peer''), None, demo_payload)"
  by code_simp

text \<open>A run starts goroutines only where its turns say so.\<close>

fun turn_threads :: "turn \<Rightarrow> nat set" where
  "turn_threads (RouteTurn v t) = {t}"
| "turn_threads (ProcTurn v u t) = {u, t}"
| "turn_threads (IncomingTurn t k) = {t}"
| "turn_threads x = {}"

lemma spawn_other: "u \<noteq> t \<Longrightarrow> spawn t sp P u = P u"
  by (simp add: spawn_def split: option.splits)

lemma eexec_threads: "eexec x \<sigma> = Some (l, \<sigma>') \<Longrightarrow> u \<notin> turn_threads x \<Longrightarrow> procs \<sigma>' u = procs \<sigma> u"
  by (cases x) (auto simp: spawn_other split: option.splits if_splits prod.splits)

lemma ereplay_threads:
  "ereplay xs \<sigma> = Some (tr, \<sigma>') \<Longrightarrow> \<forall>x\<in>set xs. u \<notin> turn_threads x \<Longrightarrow> procs \<sigma>' u = procs \<sigma> u"
proof (induction xs arbitrary: \<sigma> tr)
  case (Cons x xs)
  then obtain l \<sigma>1 ls where x: "eexec x \<sigma> = Some (l, \<sigma>1)" "ereplay xs \<sigma>1 = Some (ls, \<sigma>')"
    by (auto split: bind_splits)
  from Cons.IH [OF x(2)] eexec_threads [OF x(1)] Cons.prems(2) show ?case by simp
qed simp

lemma teardown_state:
  obtains \<sigma> where "erun engine_start teardown_trace \<sigma>" "unreachable_chan \<sigma> 0" "chans (eng \<sigma>) 0 = [0]"
    "pl_at (eng \<sigma>) 0 = demo_payload"
proof -
  obtain \<sigma> where s: "ereplay teardown_turns engine_start = Some (teardown_trace, \<sigma>)" "router \<sigma> = RIdle"
    "chans (eng \<sigma>) 0 = [0]" "next_chan (eng \<sigma>) = 1" "procs \<sigma> 0 = Some Finished" "procs \<sigma> 1 = Some (PReader ''peer'')"
    "procs \<sigma> 9 = None" "pl_at (eng \<sigma>) 0 = demo_payload"
    using teardown_replay by auto
  have "\<forall>x\<in>set teardown_turns. \<forall>v. turn_env x = Some v \<longrightarrow> env_ok v"
    using demo_env_ok by (simp add: teardown_turns_def demo_read_def)
  from ereplay_erun [OF s(1) this] have run: "erun engine_start teardown_trace \<sigma>" .
  obtain m where m: "\<lparr>eng = engine_new False m, router = RIdle, writer = WIdle, procs = Map.empty\<rparr> = engine_start"
    using engine_start_ok by (auto simp: esys_start_def split: bind_splits)
  have "procs engine_start t = None" for t by (simp add: m [symmetric])
  then have "procs \<sigma> t = None" if "t \<notin> {0, 1, 9}" for t
    using ereplay_threads [OF s(1), of t] that by (simp add: teardown_turns_def demo_read_def)
  then have procs: "procs \<sigma> t = Some p \<Longrightarrow> p = Finished \<or> p = PReader ''peer''" for t p
    using s(5-7) by (cases "t = 0"; cases "t = 1"; cases "t = 9") auto
  then have none: "conns (procs \<sigma>) t = None" "addrs (procs \<sigma>) t = None" for t
    by (force simp: conns_def addrs_def split: option.splits)+
  from reach_conn_inv [OF engine_start_ok run]
  have "xabs (table_id (eng \<sigma>)) k \<noteq> Some c" "xabs (table_addr (eng \<sigma>)) d \<noteq> Some c" for k d c
    by (auto simp: conn_inv_def conn_ok_def none s(2))
  then have "unreachable_chan \<sigma> 0" using s procs by (fastforce simp: unreachable_chan_def)
  with run s that show thesis by blast
qed

lemma run_sent_read:
  assumes "esys_start bc routes = Some \<sigma>" and "erun \<sigma> tr \<sigma>'"
  shows "sent_data tr \<subseteq># read_data tr"
proof -
  have "out_data \<sigma> = {#}"
    using assms(1) by (auto simp: out_data_def outp_def esys_start_def engine_new_def split: bind_splits)
  with erun_out_data [OF assms(2) esys_start_einv [OF assms(1)]]
  have "sent_data tr + out_data \<sigma>' \<subseteq># read_data tr" by simp
  then show ?thesis by (meson mset_subset_eq_add_left subset_mset.order_trans)
qed



section \<open>Properties\<close>

text \<open>C1. Outbound routing is safe: in every run of the engine, whatever the interleaving of its
  goroutines, a payload sent to a peer is a packet that was read from the TUN device before, its
  destination field is the destination in the packet's header, and the peer it goes to is one that
  the configuration maps to exactly that destination address.\<close>

theorem outbound_goes_to_the_configured_peer:
  assumes "esys_start bc routes = Some \<sigma>" and "erun \<sigma> (tr @ SentTo k p # tr') \<sigma>'"
  shows "ReadTun (pl_data p) \<in> set tr \<and> (\<exists>n s. ip_fields (pl_data p) = Some (n, s, pl_dst p)) \<and>
    (\<exists>pre. route_map routes k = Some pre \<and> prefix_Addr pre = pl_dst p)"
proof -
  obtain \<sigma>1 \<sigma>2 where run: "erun \<sigma> tr \<sigma>1" and step: "estep \<sigma>1 (SentTo k p) \<sigma>2"
    using assms(2) by (rule erun_split)
  obtain own where "einv (route_map routes) own tr \<sigma>1" using reach_einv [OF assms(1) run] .
  from estep_SentTo [OF this step] show ?thesis by (simp add: from_tun_def routed_def)
qed

theorem outbound_goes_to_the_configured_peer_witness:
  "ReadTun demo_packet \<in> set (take 10 demo_trace) \<and> (\<exists>n s. ip_fields demo_packet = Some (n, s, demo_dst)) \<and>
   (\<exists>pre. route_map demo_routes ''peer'' = Some pre \<and> prefix_Addr pre = demo_dst)"
proof -
  obtain \<sigma>' where run: "erun engine_start demo_trace \<sigma>'" by (rule engine_run)
  have "demo_trace = take 10 demo_trace @ SentTo ''peer'' demo_payload # drop 11 demo_trace"
    by code_simp
  with run have "erun engine_start (take 10 demo_trace @ SentTo ''peer'' demo_payload # drop 11 demo_trace) \<sigma>'" by simp
  from outbound_goes_to_the_configured_peer [OF engine_start_ok this] show ?thesis by (simp add: demo_payload_def)
qed

text \<open>C2. Inbound traffic is safe: whatever is written to the TUN device is a message that was
  received before, unchanged, from a peer of the configuration.\<close>

theorem inbound_comes_from_a_configured_peer:
  assumes "esys_start bc routes = Some \<sigma>" and "erun \<sigma> (tr @ WroteTun data # tr') \<sigma>'"
  shows "\<exists>k pre. route_map routes k = Some pre \<and> Received k data \<in> set tr"
proof -
  obtain \<sigma>1 \<sigma>2 where run: "erun \<sigma> tr \<sigma>1" and step: "estep \<sigma>1 (WroteTun data) \<sigma>2"
    using assms(2) by (rule erun_split)
  obtain own where "einv (route_map routes) own tr \<sigma>1" using reach_einv [OF assms(1) run] .
  from estep_WroteTun [OF this step] show ?thesis by auto
qed

theorem inbound_comes_from_a_configured_peer_witness:
  "\<exists>k pre. route_map demo_routes k = Some pre \<and> Received k [1, 2, 3] \<in> set (butlast demo_trace)"
proof -
  obtain \<sigma>' where run: "erun engine_start demo_trace \<sigma>'" by (rule engine_run)
  have "demo_trace = butlast demo_trace @ WroteTun [1, 2, 3] # []" by code_simp
  with run have "erun engine_start (butlast demo_trace @ WroteTun [1, 2, 3] # []) \<sigma>'" by simp
  from inbound_comes_from_a_configured_peer [OF engine_start_ok this] show ?thesis .
qed

text \<open>C27. A peer is listened to only after this side wanted to talk to it: a message is received
  from a peer only when a packet for that peer's configured address was read from the TUN device
  before. (A stream that a configured peer opens earlier than that is ignored.)\<close>

theorem peer_is_heard_only_after_traffic_to_it:
  assumes "esys_start bc routes = Some \<sigma>" and "erun \<sigma> (tr @ Received k msg # tr') \<sigma>'"
  shows "\<exists>pre pkt n s. route_map routes k = Some pre \<and> ReadTun pkt \<in> set tr \<and>
    ip_fields pkt = Some (n, s, prefix_Addr pre)"
proof -
  obtain \<sigma>1 \<sigma>2 where run: "erun \<sigma> tr \<sigma>1" and step: "estep \<sigma>1 (Received k msg) \<sigma>2"
    using assms(2) by (rule erun_split)
  obtain own where "einv (route_map routes) own tr \<sigma>1" using reach_einv [OF assms(1) run] .
  from estep_Received(2) [OF this step] obtain p where p: "from_tun tr p" "routed (route_map routes) k (pl_dst p)" by blast
  then obtain pre where "route_map routes k = Some pre" "prefix_Addr pre = pl_dst p" by (auto simp: routed_def)
  with p(1) show ?thesis unfolding from_tun_def by metis
qed

theorem peer_is_heard_only_after_traffic_to_it_witness:
  "\<exists>pre pkt n s. route_map demo_routes ''peer'' = Some pre \<and> ReadTun pkt \<in> set (take 11 demo_trace) \<and>
    ip_fields pkt = Some (n, s, prefix_Addr pre)"
proof -
  obtain \<sigma>' where run: "erun engine_start demo_trace \<sigma>'" by (rule engine_run)
  have "demo_trace = take 11 demo_trace @ Received ''peer'' [1, 2, 3] # drop 12 demo_trace"
    by code_simp
  with run have "erun engine_start (take 11 demo_trace @ Received ''peer'' [1, 2, 3] # drop 12 demo_trace) \<sigma>'" by simp
  from peer_is_heard_only_after_traffic_to_it [OF engine_start_ok this] show ?thesis .
qed

text \<open>C6. No packet is duplicated on its way out: in every run, each packet's bytes are sent to
  peers at most as often as they were read from the TUN device.\<close>

theorem no_packet_is_sent_twice:
  assumes "esys_start bc routes = Some \<sigma>" and "erun \<sigma> tr \<sigma>'"
  shows "sent_data tr \<subseteq># read_data tr"
  using assms by (rule run_sent_read)

theorem no_packet_is_sent_twice_witness: "sent_data demo_trace \<subseteq># read_data demo_trace"
proof -
  obtain \<sigma>' where "erun engine_start demo_trace \<sigma>'" by (rule engine_run)
  from no_packet_is_sent_twice [OF engine_start_ok this] show ?thesis .
qed

text \<open>C7. Inbound messages keep their order: what was written to the TUN device, followed by what
  waits in the writer's channel, is exactly the sequence of messages the stream readers put there;
  nothing in the channel is lost, duplicated, overwritten or reordered.\<close>

theorem inbound_queue_is_fifo:
  assumes "esys_start bc routes = Some \<sigma>" and "erun \<sigma> tr \<sigma>'"
  shows "queued tr = wrote tr @ in_queue (eng \<sigma>')"
proof -
  have "in_queue (eng \<sigma>) = []"
    using assms(1) by (auto simp: in_queue_def esys_start_def engine_new_def split: bind_splits)
  with erun_in_queue [OF assms(2) esys_start_einv [OF assms(1)]] show ?thesis by simp
qed

theorem inbound_queue_is_fifo_witness:
  "\<exists>\<sigma>'. erun engine_start demo_trace \<sigma>' \<and> queued demo_trace = wrote demo_trace @ in_queue (eng \<sigma>')"
proof -
  obtain \<sigma>' where "erun engine_start demo_trace \<sigma>'" by (rule engine_run)
  with inbound_queue_is_fifo [OF engine_start_ok this] show ?thesis by blast
qed

text \<open>C4. Payloads have one owner: in every reachable state each payload pointer is in at most one
  channel or goroutine, at most once there, and none of them is also free in the pool.\<close>

theorem payloads_have_one_owner:
  assumes "esys_start bc routes = Some \<sigma>" and "erun \<sigma> tr \<sigma>'"
  shows "(\<forall>x. distinct (placed \<sigma>' x)) \<and> (\<forall>x y. x \<noteq> y \<longrightarrow> set (placed \<sigma>' x) \<inter> set (placed \<sigma>' y) = {}) \<and>
    (\<forall>x. set (placed \<sigma>' x) \<inter> set (idle (payloadPool (eng \<sigma>'))) = {})"
proof -
  obtain own where "einv (route_map routes) own tr \<sigma>'" using reach_einv [OF assms] .
  from einvD(1) [OF this] have lin: "linear (placed \<sigma>') (payloadPool (eng \<sigma>'))" .
  then have "set (idle (payloadPool (eng \<sigma>'))) \<inter> held (placed \<sigma>') = {}" by (simp add: linear_def pool_inv_def)
  then have "set (placed \<sigma>' x) \<inter> set (idle (payloadPool (eng \<sigma>'))) = {}" for x
    by (auto simp: held_def)
  with lin show ?thesis by (simp add: linear_def)
qed

theorem payloads_have_one_owner_witness:
  "\<exists>\<sigma>'. erun engine_start teardown_trace \<sigma>' \<and> 0 \<in> set (placed \<sigma>' (AtChan 0)) \<and>
     0 \<notin> set (idle (payloadPool (eng \<sigma>'))) \<and> 0 \<notin> set (placed \<sigma>' AtReader)"
proof -
  obtain \<sigma>' where run: "erun engine_start teardown_trace \<sigma>'" and "chans (eng \<sigma>') 0 = [0]" by (rule teardown_state)
  then have "0 \<in> set (placed \<sigma>' (AtChan 0))" by simp
  with run payloads_have_one_owner [OF engine_start_ok run] show ?thesis by blast
qed

text \<open>C3. Connections are unique: in every reachable state the table of peers maps a peer to a
  channel exactly when a connection goroutine for it runs (or is about to be started by the router),
  so no peer ever has two of them, and each address in the other table belongs to one of them.\<close>

theorem one_connection_per_peer:
  assumes "esys_start bc routes = Some \<sigma>" and "erun \<sigma> tr \<sigma>'"
  shows "(\<forall>k c. (xabs (table_id (eng \<sigma>')) k = Some c) =
      ((\<exists>t. conns (procs \<sigma>') t = Some (c, k)) \<or> (\<exists>q. router \<sigma>' = RSpawn q k c))) \<and>
    (\<forall>t t' c c' k. conns (procs \<sigma>') t = Some (c, k) \<longrightarrow> conns (procs \<sigma>') t' = Some (c', k) \<longrightarrow> t = t' \<and> c = c') \<and>
    (\<forall>t c d. addrs (procs \<sigma>') t = Some (c, d) \<longrightarrow> xabs (table_addr (eng \<sigma>')) d = Some c)"
proof -
  note ok = reach_conn_inv [OF assms, unfolded conn_inv_def]
  have "t = t' \<and> c = c'" if "conns (procs \<sigma>') t = Some (c, k)" "conns (procs \<sigma>') t' = Some (c', k)" for t t' c c' k
  proof -
    have "xabs (table_id (eng \<sigma>')) k = Some c" "xabs (table_id (eng \<sigma>')) k = Some c'"
      using that conn_okD(1) [OF ok] by blast+
    then have "c = c'" by simp
    with that conn_okD(3) [OF ok] show ?thesis by blast
  qed
  moreover have "xabs (table_addr (eng \<sigma>')) d = Some c" if "addrs (procs \<sigma>') t = Some (c, d)" for t c d
    using that conn_okD(2) [OF ok] by blast
  ultimately show ?thesis using conn_okD(1) [OF ok] by blast
qed

lemma demo_conns:
  obtains \<sigma>' where "erun engine_start demo_trace \<sigma>'" "conns (procs \<sigma>') 0 = Some (0, ''peer'')"
    "addrs (procs \<sigma>') 0 = Some (0, demo_dst)"
proof -
  have "map_option (\<lambda>(tr, \<sigma>). (tr, conns (procs \<sigma>) 0, addrs (procs \<sigma>) 0)) (ereplay demo_turns engine_start) =
      Some (demo_trace, Some (0, ''peer''), Some (0, demo_dst))"
    by code_simp
  then obtain \<sigma>' where s: "ereplay demo_turns engine_start = Some (demo_trace, \<sigma>')"
    "conns (procs \<sigma>') 0 = Some (0, ''peer'')" "addrs (procs \<sigma>') 0 = Some (0, demo_dst)" by auto
  have "\<forall>x\<in>set demo_turns. \<forall>v. turn_env x = Some v \<longrightarrow> env_ok v"
    using demo_env_ok by (simp add: demo_turns_def demo_read_def)
  from ereplay_erun [OF s(1) this] s(2,3) that show thesis by blast
qed

theorem one_connection_per_peer_witness:
  "\<exists>\<sigma>'. erun engine_start demo_trace \<sigma>' \<and> conns (procs \<sigma>') 0 = Some (0, ''peer'') \<and>
     xabs (table_id (eng \<sigma>')) ''peer'' = Some 0 \<and> xabs (table_addr (eng \<sigma>')) demo_dst = Some 0"
proof -
  obtain \<sigma>' where run: "erun engine_start demo_trace \<sigma>'" and c: "conns (procs \<sigma>') 0 = Some (0, ''peer'')"
    "addrs (procs \<sigma>') 0 = Some (0, demo_dst)" by (rule demo_conns)
  from one_connection_per_peer [OF engine_start_ok run] c have "xabs (table_id (eng \<sigma>')) ''peer'' = Some 0"
    "xabs (table_addr (eng \<sigma>')) demo_dst = Some 0" by blast+
  with run c show ?thesis by blast
qed

text \<open>C5. The router refines its specification and ends: run section after section on a payload, it
  finishes within seven of them, and what it does is one of the decisions the specification over
  plain maps allows: put the payload in the channel of its address, or of the peer that has the
  address, start a connection for that peer with the payload in a fresh channel and both tables
  updated, or, when no peer has the address, nothing. A full channel drops the payload.\<close>

theorem router_refines_its_decision:
  assumes "esys_start bc routes = Some \<sigma>" and "erun \<sigma> tr \<sigma>'" and "env_ok v" and "d = pl_dst (pl_at (eng \<sigma>') q)"
  shows "\<exists>x e sp. decides (route_map routes) (xabs (table_addr (eng \<sigma>'))) (xabs (table_id (eng \<sigma>'))) d x \<and>
    router_run 7 v (RAddr q) (eng \<sigma>') None = Some (e, sp) \<and> carries_out (eng \<sigma>') q d x e sp"
proof -
  obtain own where "einv (route_map routes) own tr \<sigma>'" using reach_einv [OF assms(1,2)] .
  note T = tables_okD [OF einvD(2) [OF this]]
  from router_run_addr [OF assms(3) T(1-3) assms(4), of 0] T(4,8) show ?thesis by simp
qed

theorem router_refines_its_decision_witness:
  "\<exists>\<sigma>' x e sp. erun engine_start demo_trace \<sigma>' \<and>
    decides (route_map demo_routes) (xabs (table_addr (eng \<sigma>'))) (xabs (table_id (eng \<sigma>')))
      (pl_dst (pl_at (eng \<sigma>') 0)) x \<and>
    router_run 7 demo_env (RAddr 0) (eng \<sigma>') None = Some (e, sp)"
proof -
  obtain \<sigma>' where run: "erun engine_start demo_trace \<sigma>'" by (rule engine_run)
  from router_refines_its_decision [OF engine_start_ok run demo_env_ok(1) refl, of 0] run show ?thesis by blast
qed





text \<open>C30. A channel that is in neither table and that no goroutine holds stays as it is: whatever the
  engine does afterwards, the payloads in it are neither sent nor given back to the pool.\<close>

theorem unreachable_channels_keep_their_payloads:
  assumes "esys_start bc routes = Some \<sigma>" and "erun \<sigma> tr \<sigma>'" and "unreachable_chan \<sigma>' c"
    and "erun \<sigma>' tr' \<sigma>''"
  shows "chans (eng \<sigma>'') c = chans (eng \<sigma>') c \<and>
    (\<forall>q\<in>set (chans (eng \<sigma>') c). q \<notin> set (idle (payloadPool (eng \<sigma>''))))"
proof -
  obtain own where inv: "einv (route_map routes) own tr \<sigma>'" using reach_einv [OF assms(1,2)] .
  then have c: "chans (eng \<sigma>'') c = chans (eng \<sigma>') c" using erun_unreachable [OF assms(4) _ assms(3)] by blast
  obtain own' where "einv (route_map routes) own' (tr @ tr') \<sigma>''" using erun_einv [OF assms(4) inv] by blast
  from einvD(1) [OF this] heldI [of _ "placed \<sigma>''" "AtChan c"] c show ?thesis
    by (auto simp: linear_def pool_inv_def)
qed

text \<open>The teardown of a connection makes such a channel with a packet in it.\<close>

theorem unreachable_channels_keep_their_payloads_witness:
  "\<exists>\<sigma>' q. erun engine_start teardown_trace \<sigma>' \<and> pl_data (pl_at (eng \<sigma>') q) = demo_packet \<and>
     {chans (eng \<sigma>'') 0 | tr' \<sigma>''. erun \<sigma>' tr' \<sigma>''} = {[q]}"
proof -
  obtain \<sigma>' where run: "erun engine_start teardown_trace \<sigma>'" and s: "unreachable_chan \<sigma>' 0" "chans (eng \<sigma>') 0 = [0]"
    "pl_at (eng \<sigma>') 0 = demo_payload" by (rule teardown_state)
  have stay: "chans (eng \<sigma>'') 0 = [0]" if "erun \<sigma>' tr' \<sigma>''" for tr' \<sigma>''
    using unreachable_channels_keep_their_payloads [OF engine_start_ok run s(1) that] s(2) by simp
  have "{chans (eng \<sigma>'') 0 | tr' \<sigma>''. erun \<sigma>' tr' \<sigma>''} = {[0]}"
  proof (intro equalityI subsetI)
    fix x assume "x \<in> {chans (eng \<sigma>'') 0 | tr' \<sigma>''. erun \<sigma>' tr' \<sigma>''}"
    then show "x \<in> {[0]}" by (auto simp: stay)
  next
    fix x :: "pointer list" assume "x \<in> {[0]}"
    with s(2) have "x = chans (eng \<sigma>') 0" by simp
    with erun.erun_refl [of \<sigma>'] show "x \<in> {chans (eng \<sigma>'') 0 | tr' \<sigma>''. erun \<sigma>' tr' \<sigma>''}" by blast
  qed
  with run s(3) show ?thesis by (intro exI [of _ \<sigma>'] exI [of _ 0]) (simp add: demo_payload_def)
qed

end
