(* ===== verification/Discovery.thy ===== *)
theory Discovery
  imports Engine
begin

text \<open>
  How the engine finds peers: \<open>core/engine/dht.go\<close> (the bootstrap connections), \<open>search.go\<close> (the
  two searches that feed one channel), the loop of \<open>addConn\<close> in \<open>conn.go\<close> that reads it,
  \<open>relay.go\<close> and the relay source of \<open>engine.go\<close>, and \<open>mdns.go\<close>. The calls of libp2p are labels or
  arguments: whether a dial succeeds, what a lookup returns.
\<close>

section \<open>\<open>connectBootstraps\<close>\<close>

text \<open>
  One goroutine per address that parses dials it and sends one message to \<open>sc\<close> or to \<open>fc\<close>, both
  of capacity \<open>len(Bootstraps)\<close>; the caller receives until it returns. \<open>dialing\<close> counts the
  goroutines still in \<open>Connect\<close>.
\<close>

record boot =
  dialing :: nat
  sc :: nat
  fc :: nat
  fcnt :: nat
  boot_ret :: "bool option"

datatype boot_label = DialOk | DialFail | TakeOk | TakeFail

definition boot_start :: "(string \<Rightarrow> 'a option) \<Rightarrow> string list \<Rightarrow> boot" where
  "boot_start AddrInfoFromString ss =
     \<lparr>dialing = length (filter (\<lambda>s. AddrInfoFromString s \<noteq> None) ss), sc = 0, fc = 0, fcnt = 0, boot_ret = None\<rparr>"

fun boot_exec :: "nat \<Rightarrow> boot_label \<Rightarrow> boot \<Rightarrow> boot option" where
  "boot_exec n DialOk b =
     (if 0 < dialing b \<and> sc b < n then Some (b\<lparr>dialing := dialing b - 1, sc := sc b + 1\<rparr>) else None)"
| "boot_exec n DialFail b =
     (if 0 < dialing b \<and> fc b < n then Some (b\<lparr>dialing := dialing b - 1, fc := fc b + 1\<rparr>) else None)"
| "boot_exec n TakeOk b =
     (if boot_ret b = None \<and> 0 < sc b then Some (b\<lparr>sc := sc b - 1, boot_ret := Some True\<rparr>) else None)"
| "boot_exec n TakeFail b =
     (if boot_ret b = None \<and> 0 < fc b
      then let k = fcnt b + 1
           in Some (b\<lparr>fc := fc b - 1, fcnt := k, boot_ret := (if n \<le> k then Some False else None)\<rparr>)
      else None)"

inductive boot_run :: "nat \<Rightarrow> boot \<Rightarrow> boot_label list \<Rightarrow> boot \<Rightarrow> bool" for n where
  boot_refl: "boot_run n b [] b"
| boot_step: "boot_run n b tr b' \<Longrightarrow> boot_exec n l b' = Some b'' \<Longrightarrow> boot_run n b (tr @ [l]) b''"

definition boot_stuck :: "nat \<Rightarrow> boot \<Rightarrow> bool" where
  "boot_stuck n b \<longleftrightarrow> (\<forall>l. boot_exec n l b = None)"

section \<open>\<open>connectBootstrapsLoop\<close>\<close>

datatype wake = CtxDone | Tick

datatype boot_loop = Advertised nat | Cancelled nat | Looping nat

text \<open>Each attempt comes with what \<open>connectBootstraps\<close> returned and what ended the wait after it.\<close>

fun connectBootstrapsLoop :: "nat \<Rightarrow> (bool \<times> wake) list \<Rightarrow> boot_loop" where
  "connectBootstrapsLoop i [] = Looping i"
| "connectBootstrapsLoop i ((ok, w) # rs) =
     (if ok then Advertised i
      else case w of CtxDone \<Rightarrow> Cancelled i | Tick \<Rightarrow> connectBootstrapsLoop (i + 1) rs)"

section \<open>\<open>SearchNode\<close> and the loop of \<open>addConn\<close>\<close>

record addr_info =
  info_id :: peer_id
  info_addrs :: "string list"

definition channelBuffLength :: nat where "channelBuffLength = 10"

datatype cache_pc = CacheLook | CacheSend addr_info | CacheDone

datatype dht_pc = DhtFind | DhtBoot | DhtRange "addr_info list" | DhtSend addr_info "addr_info list" | DhtDone

datatype finder = Receiving | Stream addr_info | NoStream

record search =
  ch :: "addr_info list"
  ch_closed :: bool
  cache_pc :: cache_pc
  dht_pc :: dht_pc
  finder :: finder

text \<open>What the two searches and the reader do next; the argument is the outcome of the call.\<close>

definition searchByCache :: "(peer_id \<Rightarrow> addr_info) \<Rightarrow> peer_id \<Rightarrow> search \<Rightarrow> search option" where
  "searchByCache PeerInfo k s =
     (case cache_pc s of
        CacheLook \<Rightarrow>
          let i = PeerInfo k in Some (s\<lparr>cache_pc := (if info_addrs i \<noteq> [] then CacheSend i else CacheDone)\<rparr>)
      | CacheSend i \<Rightarrow>
          if length (ch s) < channelBuffLength then Some (s\<lparr>ch := ch s @ [i], cache_pc := CacheDone\<rparr>) else None
      | CacheDone \<Rightarrow> None)"

definition searchByCache_cancel :: "search \<Rightarrow> search option" where
  "searchByCache_cancel s =
     (case cache_pc s of CacheSend i \<Rightarrow> Some (s\<lparr>cache_pc := CacheDone\<rparr>) | _ \<Rightarrow> None)"

definition searchByDHT_find :: "addr_info list option \<Rightarrow> search \<Rightarrow> search option" where
  "searchByDHT_find r s =
     (case dht_pc s of
        DhtFind \<Rightarrow> Some (s\<lparr>dht_pc := (case r of None \<Rightarrow> DhtBoot | Some is \<Rightarrow> DhtRange is)\<rparr>)
      | _ \<Rightarrow> None)"

definition searchByDHT_booted :: "search \<Rightarrow> search option" where
  "searchByDHT_booted s = (case dht_pc s of DhtBoot \<Rightarrow> Some (s\<lparr>dht_pc := DhtDone\<rparr>) | _ \<Rightarrow> None)"

definition searchByDHT_next :: "peer_id \<Rightarrow> search \<Rightarrow> search option" where
  "searchByDHT_next k s =
     (case dht_pc s of
        DhtRange [] \<Rightarrow> Some (s\<lparr>dht_pc := DhtDone\<rparr>)
      | DhtRange (i # is) \<Rightarrow>
          Some (s\<lparr>dht_pc := (if k = info_id i \<and> info_addrs i \<noteq> [] then DhtSend i is else DhtRange is)\<rparr>)
      | DhtSend i is \<Rightarrow>
          if length (ch s) < channelBuffLength then Some (s\<lparr>ch := ch s @ [i], dht_pc := DhtRange is\<rparr>) else None
      | _ \<Rightarrow> None)"

definition SearchNode_close :: "search \<Rightarrow> search option" where
  "SearchNode_close s =
     (if cache_pc s = CacheDone \<and> dht_pc s = DhtDone \<and> \<not> ch_closed s then Some (s\<lparr>ch_closed := True\<rparr>) else None)"

text \<open>\<open>for info := range pch\<close>: a dial or a stream that fails goes on to the next one.\<close>

definition addConn_receive :: "bool \<Rightarrow> search \<Rightarrow> search option" where
  "addConn_receive ok s =
     (if finder s \<noteq> Receiving then None
      else case ch s of
        i # is \<Rightarrow> Some (s\<lparr>ch := is, finder := (if ok then Stream i else Receiving)\<rparr>)
      | [] \<Rightarrow> if ch_closed s then Some (s\<lparr>finder := NoStream\<rparr>) else None)"

definition SearchNode :: search where
  "SearchNode = \<lparr>ch = [], ch_closed = False, cache_pc = CacheLook, dht_pc = DhtFind, finder = Receiving\<rparr>"

datatype search_label =
    Cache
  | CacheCancel
  | Find "addr_info list option"
  | Booted
  | Next
  | Close
  | Receive bool

fun search_exec :: "(peer_id \<Rightarrow> addr_info) \<Rightarrow> peer_id \<Rightarrow> search_label \<Rightarrow> search \<Rightarrow> search option" where
  "search_exec PI k Cache s = searchByCache PI k s"
| "search_exec PI k CacheCancel s = searchByCache_cancel s"
| "search_exec PI k (Find r) s = searchByDHT_find r s"
| "search_exec PI k Booted s = searchByDHT_booted s"
| "search_exec PI k Next s = searchByDHT_next k s"
| "search_exec PI k Close s = SearchNode_close s"
| "search_exec PI k (Receive ok) s = addConn_receive ok s"

fun search_run :: "(peer_id \<Rightarrow> addr_info) \<Rightarrow> peer_id \<Rightarrow> search_label list \<Rightarrow> search \<Rightarrow> search option" where
  "search_run PI k [] s = Some s"
| "search_run PI k (l # ls) s = do { s \<leftarrow> search_exec PI k l s; search_run PI k ls s }"

section \<open>\<open>addConnByID\<close>\<close>

text \<open>
  Nothing calls it. The connection that it starts deletes only the id entry when it ends; the
  results are the channel or the error, and the channel of the goroutine it starts.
\<close>

definition addConnByID :: "peer_id \<Rightarrow> engine \<Rightarrow> ((chan option \<times> chan option) \<times> engine) option" where
  "addConnByID key e =
     (let (c, m) = Load key (table_id e);
          e = e\<lparr>table_id := m\<rparr>
      in case c of
           Some c \<Rightarrow> Some ((Some c, None), e)
         | None \<Rightarrow> do {
             let c = next_chan e;
             m \<leftarrow> Store key c (table_id e);
             Some ((None, Some c), e\<lparr>table_id := m, chans := (chans e)(c := []), next_chan := c + 1\<rparr>)
           })"

section \<open>Relays\<close>

text \<open>\<open>autoRelayFinder\<close>: a candidate goes into \<open>relayChan\<close> unless that is full.\<close>

definition offer_relay :: "addr_info \<Rightarrow> addr_info list \<Rightarrow> addr_info list" where
  "offer_relay i c = (if length c < ChanSize then c @ [i] else c)"

fun autoRelayFinder_round :: "(peer_id \<Rightarrow> string list) \<Rightarrow> peer_id list \<Rightarrow> addr_info list \<Rightarrow> addr_info list" where
  "autoRelayFinder_round Addrs [] c = c"
| "autoRelayFinder_round Addrs (p # ps) c =
     (if Addrs p = [] then autoRelayFinder_round Addrs ps c
      else autoRelayFinder_round Addrs ps (offer_relay \<lparr>info_id = p, info_addrs = Addrs p\<rparr> c))"

text \<open>Its loop: a failed lookup of the closest peers waits for the next tick.\<close>

datatype relay_event = RelayDone | RelayTick "peer_id list option"

fun autoRelayFinder_loop :: "(peer_id \<Rightarrow> string list) \<Rightarrow> relay_event list \<Rightarrow> addr_info list \<Rightarrow> addr_info list" where
  "autoRelayFinder_loop Addrs [] c = c"
| "autoRelayFinder_loop Addrs (RelayDone # es) c = c"
| "autoRelayFinder_loop Addrs (RelayTick None # es) c = autoRelayFinder_loop Addrs es c"
| "autoRelayFinder_loop Addrs (RelayTick (Some ps) # es) c =
     autoRelayFinder_loop Addrs es (autoRelayFinder_round Addrs ps c)"

definition autoRelayFinder ::
  "(peer_id \<Rightarrow> string list) \<Rightarrow> peer_id list \<Rightarrow> relay_event list \<Rightarrow> addr_info list \<Rightarrow> addr_info list" where
  "autoRelayFinder Addrs ps es c = autoRelayFinder_loop Addrs es (autoRelayFinder_round Addrs ps c)"

text \<open>
  The peer source of \<open>engine.go\<close>: \<open>for ; num >= 0; num--\<close>, one receive from \<open>relayChan\<close> and one
  send per round; the argument lists what it receives, \<open>None\<close> for a closed channel or a done
  context. The result is what it sends.
\<close>

function relay_source :: "int \<Rightarrow> addr_info option list \<Rightarrow> addr_info list" where
  "relay_source num vs =
     (if num \<ge> 0 then case vs of Some v # vs \<Rightarrow> v # relay_source (num - 1) vs | _ \<Rightarrow> [] else [])"
  by pat_completeness auto
termination by (relation "measure (\<lambda>(num, vs). nat (num + 1))") auto

section \<open>mDNS\<close>

text \<open>\<open>HandlePeerFound\<close>: the addresses go to the peer store, which libp2p implements.\<close>

definition HandlePeerFound :: "(peer_id \<Rightarrow> string list \<Rightarrow> 's \<Rightarrow> 's) \<Rightarrow> addr_info \<Rightarrow> 's \<Rightarrow> 's" where
  "HandlePeerFound AddAddrs info peerstore = AddAddrs (info_id info) (info_addrs info) peerstore"

datatype mdns_state = MdnsRunning nat | MdnsWaiting nat

text \<open>After a failed start: each round of the select, \<open>Some ok\<close> a tick with what \<open>Start\<close> returned.\<close>

fun mdnsLoop_round :: "bool option \<Rightarrow> mdns_state \<Rightarrow> mdns_state" where
  "mdnsLoop_round None (MdnsWaiting i) = MdnsWaiting (i + 1)"
| "mdnsLoop_round (Some ok) (MdnsWaiting i) = (if ok then MdnsRunning i else MdnsWaiting (i + 1))"
| "mdnsLoop_round r (MdnsRunning i) = MdnsRunning i"

definition mdnsLoop :: "bool \<Rightarrow> bool option list \<Rightarrow> mdns_state" where
  "mdnsLoop ok rs = (if ok then MdnsRunning 1 else fold mdnsLoop_round rs (MdnsWaiting 2))"

end
