(* ===== verification/DiscoveryCorrect.thy ===== *)
theory DiscoveryCorrect
  imports Discovery
begin

text \<open>
  Peer discovery: what \<open>connectBootstraps\<close> returns and when it never does, that only addresses of
  the wanted peer are tried, where the searches get stuck, and what the relay finder offers.
\<close>

section \<open>\<open>connectBootstraps\<close>\<close>

definition parsed :: "(string \<Rightarrow> 'a option) \<Rightarrow> string list \<Rightarrow> nat" where
  "parsed f ss = length (filter (\<lambda>s. f s \<noteq> None) ss)"

lemma parsed_le: "parsed f ss \<le> length ss"
  by (simp add: parsed_def)

lemma parsed_less: "s \<in> set ss \<Longrightarrow> f s = None \<Longrightarrow> parsed f ss < length ss"
  unfolding parsed_def by (rule length_filter_less) auto

abbreviation dials :: "boot_label list \<Rightarrow> nat" where "dials tr \<equiv> count_list tr DialOk"

text \<open>The counters against the messages so far.\<close>

definition boot_inv :: "nat \<Rightarrow> nat \<Rightarrow> boot_label list \<Rightarrow> boot \<Rightarrow> bool" where
  "boot_inv n p tr b \<longleftrightarrow>
     dialing b + dials tr + count_list tr DialFail = p \<and>
     sc b + (if boot_ret b = Some True then 1 else 0) = dials tr \<and>
     fc b + fcnt b = count_list tr DialFail \<and>
     (boot_ret b = Some False \<longleftrightarrow> n \<le> fcnt b \<and> 0 < fcnt b) \<and>
     length tr + 2 * dialing b + sc b + fc b \<le> 2 * p"

lemma boot_inv_step:
  assumes "boot_exec n l b = Some b'" "boot_inv n p tr b"
  shows "boot_inv n p (tr @ [l]) b'"
proof (cases l)
  case TakeOk
  with assms have "boot_ret b = None" "0 < sc b" "b' = b\<lparr>sc := sc b - 1, boot_ret := Some True\<rparr>"
    by (auto split: if_splits)
  with assms(2) TakeOk show ?thesis by (auto simp: boot_inv_def)
next
  case TakeFail
  with assms have b: "boot_ret b = None" "0 < fc b"
    "b' = b\<lparr>fc := fc b - 1, fcnt := fcnt b + 1, boot_ret := (if n \<le> fcnt b + 1 then Some False else None)\<rparr>"
    by (auto simp: Let_def split: if_splits)
  with assms(2) TakeFail show ?thesis by (auto simp: boot_inv_def)
qed (use assms in \<open>auto simp: boot_inv_def split: if_splits\<close>)

lemma boot_inv_run:
  assumes "boot_run n b tr b'" "boot_inv n p [] b"
  shows "boot_inv n p tr b'"
  using assms by (induction) (auto intro: boot_inv_step)

lemma boot_inv_start: "boot_inv n (parsed f ss) [] (boot_start f ss)"
  by (simp add: boot_inv_def boot_start_def parsed_def)

lemma boot_stuck_result:
  assumes inv: "boot_inv n p tr b" and stuck: "boot_stuck n b" and p: "p \<le> n"
  shows "boot_ret b = (if DialOk \<in> set tr then Some True else if p = n \<and> 0 < n then Some False else None)"
proof -
  have stuck': "boot_exec n l b = None" for l using stuck by (simp add: boot_stuck_def)
  have ok: "DialOk \<in> set tr \<longleftrightarrow> 0 < dials tr" by (metis count_list_0_iff gr0I neq0_conv)
  have done_dialing: "dialing b = 0"
  proof (rule ccontr)
    assume "dialing b \<noteq> 0"
    with inv p have "sc b < n" by (auto simp: boot_inv_def split: if_splits)
    with stuck' [of DialOk] \<open>dialing b \<noteq> 0\<close> show False by simp
  qed
  have taken: "boot_ret b = None \<Longrightarrow> sc b = 0 \<and> fc b = 0"
    using stuck' [of TakeOk] stuck' [of TakeFail] by (auto simp: Let_def split: if_splits)
  show ?thesis
  proof (cases "boot_ret b")
    case None
    with taken inv done_dialing ok p show ?thesis by (auto simp: boot_inv_def)
  next
    case (Some r)
    with inv done_dialing ok p show ?thesis by (cases r) (auto simp: boot_inv_def)
  qed
qed

section \<open>The two searches and the reader\<close>

definition wanted :: "peer_id \<Rightarrow> addr_info \<Rightarrow> bool" where
  "wanted k i \<longleftrightarrow> info_id i = k \<and> info_addrs i \<noteq> []"

definition search_inv :: "peer_id \<Rightarrow> search \<Rightarrow> bool" where
  "search_inv k s \<longleftrightarrow> list_all (wanted k) (ch s) \<and> length (ch s) \<le> channelBuffLength \<and>
     (\<forall>i. cache_pc s = CacheSend i \<longrightarrow> wanted k i) \<and> (\<forall>i is. dht_pc s = DhtSend i is \<longrightarrow> wanted k i) \<and>
     (\<forall>i. finder s = Stream i \<longrightarrow> wanted k i) \<and>
     (ch_closed s \<longrightarrow> cache_pc s = CacheDone \<and> dht_pc s = DhtDone)"

lemmas search_defs = searchByCache_def searchByCache_cancel_def searchByDHT_find_def searchByDHT_booted_def
  searchByDHT_next_def SearchNode_close_def addConn_receive_def

lemma search_inv_step:
  assumes "search_exec PI k l s = Some s'" "search_inv k s" "info_id (PI k) = k"
  shows "search_inv k s'"
proof (cases l)
  case Cache
  have PI: "info_addrs (PI k) \<noteq> [] \<Longrightarrow> wanted k (PI k)" using assms(3) by (simp add: wanted_def)
  from Cache assms(1,2) PI show ?thesis
    by (cases "cache_pc s") (auto simp: search_inv_def searchByCache_def Let_def split: if_splits)
next
  case CacheCancel
  with assms(1,2) show ?thesis
    by (cases "cache_pc s") (auto simp: search_inv_def searchByCache_cancel_def)
next
  case (Find r)
  with assms(1,2) show ?thesis
    by (cases "dht_pc s") (auto simp: search_inv_def searchByDHT_find_def split: option.splits)
next
  case Booted
  with assms(1,2) show ?thesis
    by (cases "dht_pc s") (auto simp: search_inv_def searchByDHT_booted_def)
next
  case Next
  have "wanted k i" if "k = info_id i" "info_addrs i \<noteq> []" for i using that by (simp add: wanted_def)
  with Next assms(1,2) show ?thesis
    by (cases "dht_pc s") (auto simp: search_inv_def searchByDHT_next_def split: list.splits if_splits)
next
  case Close
  with assms show ?thesis by (auto simp: search_inv_def SearchNode_close_def split: if_splits)
next
  case (Receive ok)
  with assms(1,2) show ?thesis
    by (cases "ch s") (auto simp: search_inv_def addConn_receive_def split: if_splits)
qed

lemma search_inv_run:
  "search_run PI k ls s = Some s' \<Longrightarrow> search_inv k s \<Longrightarrow> info_id (PI k) = k \<Longrightarrow> search_inv k s'"
  by (induction ls arbitrary: s) (auto dest: search_inv_step split: bind_splits)

lemma search_inv_start: "search_inv k SearchNode"
  by (simp add: search_inv_def SearchNode_def)

text \<open>While the reader waits, only the bootstrap connections can hold everything up.\<close>

lemma search_progress:
  assumes inv: "search_inv k s" and f: "finder s = Receiving"
    and stuck: "\<And>l. l \<noteq> Booted \<Longrightarrow> search_exec PI k l s = None"
  shows "dht_pc s = DhtBoot \<and> cache_pc s = CacheDone \<and> ch s = [] \<and> \<not> ch_closed s"
proof -
  have ch: "ch s = []" "\<not> ch_closed s"
    using stuck [of "Receive True"] f by (auto simp: addConn_receive_def split: list.splits if_splits)
  have "cache_pc s = CacheDone"
    using stuck [of Cache] ch by (auto simp: searchByCache_def channelBuffLength_def Let_def split: cache_pc.splits)
  moreover have "dht_pc s = DhtBoot \<or> dht_pc s = DhtDone"
    using stuck [of Next] stuck [of "Find None"] ch
    by (auto simp: searchByDHT_next_def searchByDHT_find_def channelBuffLength_def split: dht_pc.splits list.splits)
  ultimately show ?thesis using stuck [of Close] ch by (auto simp: SearchNode_close_def)
qed

text \<open>Once the reader has its stream, a full channel holds the DHT search for ever.\<close>

definition dht_leaked :: "search \<Rightarrow> bool" where
  "dht_leaked s \<longleftrightarrow> finder s \<noteq> Receiving \<and> length (ch s) = channelBuffLength \<and> (\<exists>i is. dht_pc s = DhtSend i is)"

lemma dht_leaked_step:
  "search_exec PI k l s = Some s' \<Longrightarrow> dht_leaked s \<Longrightarrow> dht_leaked s' \<and> dht_pc s' = dht_pc s \<and> \<not> ch_closed s' = (\<not> ch_closed s)"
  by (cases l) (auto simp: dht_leaked_def search_defs Let_def
      split: cache_pc.splits dht_pc.splits list.splits option.splits if_splits)

lemma dht_leaked_run:
  "search_run PI k ls s = Some s' \<Longrightarrow> dht_leaked s \<Longrightarrow> dht_leaked s' \<and> dht_pc s' = dht_pc s"
  by (induction ls arbitrary: s) (fastforce dest: dht_leaked_step split: bind_splits)+

section \<open>The search and the bootstrap connections it waits for\<close>

fun joint_exec ::
  "nat \<Rightarrow> (peer_id \<Rightarrow> addr_info) \<Rightarrow> peer_id \<Rightarrow> search_label + boot_label \<Rightarrow> search \<times> boot \<Rightarrow> (search \<times> boot) option" where
  "joint_exec n PI k (Inl l) (s, b) =
     (if l = Booted \<and> boot_ret b = None then None else map_option (\<lambda>s. (s, b)) (search_exec PI k l s))"
| "joint_exec n PI k (Inr l) (s, b) =
     (if dht_pc s = DhtFind then None else map_option (\<lambda>b. (s, b)) (boot_exec n l b))"

fun joint_run ::
  "nat \<Rightarrow> (peer_id \<Rightarrow> addr_info) \<Rightarrow> peer_id \<Rightarrow> (search_label + boot_label) list \<Rightarrow> search \<times> boot \<Rightarrow>
    (search \<times> boot) option" where
  "joint_run n PI k [] x = Some x"
| "joint_run n PI k (l # ls) x = do { x \<leftarrow> joint_exec n PI k l x; joint_run n PI k ls x }"

text \<open>No dial has succeeded, one address did not parse, the DHT lookup failed and the cache is empty.\<close>

definition hung :: "nat \<Rightarrow> nat \<Rightarrow> search \<times> boot \<Rightarrow> bool" where
  "hung n p x \<longleftrightarrow> dht_pc (fst x) = DhtBoot \<and> ch (fst x) = [] \<and> \<not> ch_closed (fst x) \<and> finder (fst x) = Receiving \<and>
     (\<forall>i. cache_pc (fst x) \<noteq> CacheSend i) \<and> (\<exists>tr. boot_inv n p tr (snd x) \<and> DialOk \<notin> set tr)"

lemma hung_step:
  assumes "joint_exec n PI k l x = Some x'" "hung n p x" "p < n" "info_addrs (PI k) = []" "l \<noteq> Inr DialOk"
  shows "hung n p x'"
proof -
  obtain s b where x: "x = (s, b)" by (cases x)
  from assms(2) obtain tr where tr: "boot_inv n p tr b" "DialOk \<notin> set tr" by (auto simp: hung_def x)
  then have "dials tr = 0" by (simp add: count_list_0_iff)
  with tr(1) assms(3) have none: "boot_ret b = None"
    by (cases "boot_ret b") (auto simp: boot_inv_def split: if_splits)
  show ?thesis
  proof (cases l)
    case (Inl l)
    with assms none x tr show ?thesis
      by (cases l) (auto simp: hung_def search_defs Let_def split: cache_pc.splits list.splits if_splits)
  next
    case (Inr l)
    with assms(1) x obtain b' where b': "boot_exec n l b = Some b'" "x' = (s, b')" by (auto split: if_splits)
    have "boot_inv n p (tr @ [l]) b'" using boot_inv_step [OF b'(1) tr(1)] .
    moreover have "DialOk \<notin> set (tr @ [l])" using tr(2) assms(5) Inr by auto
    ultimately show ?thesis using assms(2) by (auto simp: hung_def x b')
  qed
qed

lemma hung_run:
  "joint_run n PI k ls x = Some x' \<Longrightarrow> hung n p x \<Longrightarrow> p < n \<Longrightarrow> info_addrs (PI k) = [] \<Longrightarrow> Inr DialOk \<notin> set ls \<Longrightarrow>
   hung n p x'"
proof (induction ls arbitrary: x)
  case (Cons l ls)
  then obtain y where y: "joint_exec n PI k l x = Some y" "joint_run n PI k ls y = Some x'" by (auto split: bind_splits)
  from hung_step [OF y(1) Cons.prems(2-4)] Cons.prems(5) have "hung n p y" by auto
  with Cons y show ?case by auto
qed simp

text \<open>Before the DHT lookup returned.\<close>

definition searching :: "nat \<Rightarrow> nat \<Rightarrow> search \<times> boot \<Rightarrow> bool" where
  "searching n p x \<longleftrightarrow> dht_pc (fst x) = DhtFind \<and> ch (fst x) = [] \<and> \<not> ch_closed (fst x) \<and> finder (fst x) = Receiving \<and>
     (\<forall>i. cache_pc (fst x) \<noteq> CacheSend i) \<and> boot_inv n p [] (snd x)"

lemma searching_step:
  assumes "joint_exec n PI k l x = Some x'" "searching n p x" "info_addrs (PI k) = []"
  shows "searching n p x' \<or> (l = Inl (Find None) \<and> hung n p x') \<or>
    (l \<noteq> Inl (Find None) \<and> dht_pc (fst x') \<noteq> DhtFind)"
proof -
  obtain s b where x: "x = (s, b)" by (cases x)
  show ?thesis
  proof (cases l)
    case (Inl l)
    with assms x show ?thesis
      by (cases l) (auto simp: searching_def hung_def search_defs Let_def intro!: exI [of _ "[]"]
          split: cache_pc.splits list.splits option.splits if_splits)
  next
    case (Inr l)
    with assms x show ?thesis by (auto simp: searching_def)
  qed
qed

lemma found_step: "joint_exec n PI k l x = Some x' \<Longrightarrow> dht_pc (fst x) \<noteq> DhtFind \<Longrightarrow>
    l \<noteq> Inl (Find r) \<and> dht_pc (fst x') \<noteq> DhtFind"
  by (cases x; cases l; cases "projl l") (auto simp: search_defs Let_def
      split: cache_pc.splits dht_pc.splits list.splits option.splits if_splits)

lemma found_run: "joint_run n PI k ls x = Some x' \<Longrightarrow> dht_pc (fst x) \<noteq> DhtFind \<Longrightarrow> Inl (Find r) \<notin> set ls"
proof (induction ls arbitrary: x)
  case (Cons l ls)
  then obtain y where y: "joint_exec n PI k l x = Some y" "joint_run n PI k ls y = Some x'" by (auto split: bind_splits)
  from found_step [OF y(1) Cons.prems(2), of r] Cons.IH [OF y(2)] show ?case by auto
qed simp

lemma searching_run:
  "joint_run n PI k ls x = Some x' \<Longrightarrow> searching n p x \<Longrightarrow> p < n \<Longrightarrow> info_addrs (PI k) = [] \<Longrightarrow> Inr DialOk \<notin> set ls \<Longrightarrow>
   Inl (Find None) \<in> set ls \<Longrightarrow> hung n p x'"
proof (induction ls arbitrary: x)
  case (Cons l ls)
  then obtain y where y: "joint_exec n PI k l x = Some y" "joint_run n PI k ls y = Some x'" by (auto split: bind_splits)
  from searching_step [OF y(1) Cons.prems(2,4)]
  show ?case
  proof (elim disjE conjE)
    assume "searching n p y"
    moreover have "l \<noteq> Inl (Find None)"
    proof
      assume "l = Inl (Find None)"
      with y(1) have "dht_pc (fst y) \<noteq> DhtFind"
        by (cases x) (auto simp: searchByDHT_find_def split: dht_pc.splits)
      with \<open>searching n p y\<close> show False by (simp add: searching_def)
    qed
    ultimately show ?thesis using Cons y(2) by auto
  next
    assume "hung n p y"
    with hung_run [OF y(2)] Cons.prems show ?thesis by auto
  next
    assume "l \<noteq> Inl (Find None)" "dht_pc (fst y) \<noteq> DhtFind"
    with found_run [OF y(2)] Cons.prems(6) show ?thesis by auto
  qed
qed simp

section \<open>Relays and mDNS\<close>

text \<open>
  \<open>addConnByID\<close> for a peer without a connection starts one and reports an error all the same; the
  second call finds the channel.
\<close>

lemma addConnByID_twice:
  assumes "xinv (table_id e)" "xabs (table_id e) key = None"
  shows "\<exists>c e' e''. addConnByID key e = Some ((None, Some c), e') \<and> addConnByID key e' = Some ((Some c, None), e'')"
proof -
  obtain m where m: "Load key (table_id e) = (None, m)" "xinv m" "xabs m = xabs (table_id e)"
    using Load_correct [OF assms(1), of key] assms(2) by (cases "Load key (table_id e)") auto
  obtain m' where m': "Store key (next_chan e) m = Some m'" "xinv m'" "xabs m' key = Some (next_chan e)"
    using Store_correct [OF m(2), of key "next_chan e"] by auto
  obtain m'' where "Load key m' = (Some (next_chan e), m'')"
    using Load_correct [OF m'(2), of key] m'(3) by (cases "Load key m'") auto
  then have "\<exists>e''. addConnByID key (e\<lparr>table_id := m', chans := (chans e)(next_chan e := []),
      next_chan := next_chan e + 1\<rparr>) = Some ((Some (next_chan e), None), e'')"
    by (simp add: addConnByID_def)
  moreover have "addConnByID key e = Some ((None, Some (next_chan e)),
      e\<lparr>table_id := m', chans := (chans e)(next_chan e := []), next_chan := next_chan e + 1\<rparr>)"
    using m m' by (simp add: addConnByID_def Let_def)
  ultimately show ?thesis by blast
qed

lemma autoRelayFinder_round_eq:
  "length c \<le> ChanSize \<Longrightarrow> autoRelayFinder_round Addrs ps c =
     take ChanSize (c @ map (\<lambda>p. \<lparr>info_id = p, info_addrs = Addrs p\<rparr>) (filter (\<lambda>p. Addrs p \<noteq> []) ps))"
  by (induction ps arbitrary: c) (auto simp: offer_relay_def take_Cons')

declare relay_source.simps [simp del]

lemma relay_source_eq: "relay_source num (map Some is) = take (nat (num + 1)) is"
proof (induction "is" arbitrary: num)
  case (Cons i "is")
  then show ?case
    by (cases "num \<ge> 0") (simp_all add: relay_source.simps [of num] nat_add_distrib)
qed (simp add: relay_source.simps)

lemma mdns_cancelled: "fold mdnsLoop_round (replicate n None) (MdnsWaiting i) = MdnsWaiting (i + n)"
  by (induction n arbitrary: i) simp_all

section \<open>Properties\<close>

text \<open>C31. What connectBootstraps returns: it makes at most two steps per address, and when nothing more
  can happen it has returned without an error if some dial succeeded, with the error if all addresses
  parsed and all dials failed, and otherwise (an address did not parse and no dial succeeded, or the
  list is empty) it has not returned and never will. The order of the messages does not matter.\<close>

theorem connectBootstraps_returns:
  assumes "boot_run (length ss) (boot_start AddrInfoFromString ss) tr b"
  shows "length tr \<le> 2 * length ss \<and>
    (boot_stuck (length ss) b \<longrightarrow> boot_ret b =
      (if DialOk \<in> set tr then Some True
       else if (\<forall>s\<in>set ss. AddrInfoFromString s \<noteq> None) \<and> ss \<noteq> [] then Some False else None))"
proof -
  have inv: "boot_inv (length ss) (parsed AddrInfoFromString ss) tr b"
    using boot_inv_run [OF assms boot_inv_start] .
  then have "length tr \<le> 2 * length ss"
    using parsed_le [of AddrInfoFromString ss] by (simp add: boot_inv_def)
  moreover have "parsed AddrInfoFromString ss = length ss \<longleftrightarrow> (\<forall>s\<in>set ss. AddrInfoFromString s \<noteq> None)"
    using parsed_less [of _ ss AddrInfoFromString] by (fastforce simp: parsed_def)
  ultimately show ?thesis
    using boot_stuck_result [OF inv _ parsed_le] by auto
qed

theorem connectBootstraps_returns_witness:
  "boot_run 2 (boot_start (\<lambda>s. if s = ''bad'' then None else Some s) [''bad'', ''good'']) [DialFail, TakeFail]
     \<lparr>dialing = 0, sc = 0, fc = 0, fcnt = 1, boot_ret = None\<rparr> \<and>
   boot_stuck 2 \<lparr>dialing = 0, sc = 0, fc = 0, fcnt = 1, boot_ret = None\<rparr> \<and>
   length [DialFail, TakeFail] \<le> 2 * length [''bad'', ''good'']"
proof -
  let ?f = "\<lambda>s. if s = ''bad'' then None else Some s" and ?b = "\<lparr>dialing = 0, sc = 0, fc = 0, fcnt = 1, boot_ret = None\<rparr>"
  let ?c = "\<lparr>dialing = 0, sc = 0, fc = 1, fcnt = 0, boot_ret = None\<rparr>"
  have "boot_exec 2 DialFail (boot_start ?f [''bad'', ''good'']) = Some ?c" "boot_exec 2 TakeFail ?c = Some ?b"
    by (simp_all add: boot_start_def)
  from boot_step [OF boot_step [OF boot_refl this(1)] this(2)]
  have run: "boot_run (length [''bad'', ''good'']) (boot_start ?f [''bad'', ''good'']) [DialFail, TakeFail] ?b"
    by (simp add: eval_nat_numeral)
  have "boot_exec 2 l ?b = None" for l by (cases l) simp_all
  then have "boot_stuck 2 ?b" by (simp add: boot_stuck_def)
  with connectBootstraps_returns [OF run] run show ?thesis by (simp add: eval_nat_numeral)
qed

text \<open>C33. The search for a peer hands out only that peer, and only with addresses: whatever the caches
  and the DHT return, a stream is opened only to an address record of the peer that was asked for. The
  search cannot get stuck while addConn waits for it, except in connectBootstraps.\<close>

theorem search_finds_only_the_wanted_peer:
  assumes "info_id (PeerInfo k) = k" and "search_run PeerInfo k ls SearchNode = Some s"
  shows "(\<forall>i. finder s = Stream i \<longrightarrow> info_id i = k \<and> info_addrs i \<noteq> []) \<and>
    (finder s = Receiving \<and> (\<forall>l. l \<noteq> Booted \<longrightarrow> search_exec PeerInfo k l s = None) \<longrightarrow> dht_pc s = DhtBoot)"
proof -
  have inv: "search_inv k s" using search_inv_run [OF assms(2) search_inv_start assms(1)] .
  then have "finder s = Stream i \<longrightarrow> info_id i = k \<and> info_addrs i \<noteq> []" for i
    by (simp add: search_inv_def wanted_def)
  with search_progress [OF inv] show ?thesis by blast
qed

definition demo_info :: "peer_id \<Rightarrow> addr_info" where
  "demo_info k = \<lparr>info_id = k, info_addrs = []\<rparr>"

definition demo_node :: addr_info where
  "demo_node = \<lparr>info_id = ''peer'', info_addrs = [''addr'']\<rparr>"

theorem search_finds_only_the_wanted_peer_witness:
  "\<exists>s. search_run demo_info ''peer'' [Find (Some [demo_node]), Next, Next, Receive True] SearchNode = Some s \<and>
     finder s = Stream demo_node \<and> info_id demo_node = ''peer'' \<and> info_addrs demo_node \<noteq> []"
proof -
  have "map_option finder (search_run demo_info ''peer'' [Find (Some [demo_node]), Next, Next, Receive True] SearchNode) =
      Some (Stream demo_node)"
    by code_simp
  then obtain s where s: "search_run demo_info ''peer'' [Find (Some [demo_node]), Next, Next, Receive True] SearchNode = Some s"
    "finder s = Stream demo_node" by auto
  have "info_id (demo_info ''peer'') = ''peer''" by (simp add: demo_info_def)
  from search_finds_only_the_wanted_peer [OF this s(1)] s show ?thesis by blast
qed

text \<open>C32. One bad bootstrap address can hang every search: when an address of the configuration does
  not parse, no bootstrap dial succeeds, the DHT lookup fails and the peer is not cached, addConn waits
  for ever, in every interleaving; its channel and its table entries stay.\<close>

theorem unparsable_bootstrap_hangs_the_search:
  assumes "s0 \<in> set ss" and "AddrInfoFromString s0 = None" and "info_addrs (PeerInfo k) = []"
    and "joint_run (length ss) PeerInfo k ls (SearchNode, boot_start AddrInfoFromString ss) = Some (s, b)"
    and "Inl (Find None) \<in> set ls" and "Inr DialOk \<notin> set ls"
  shows "finder s = Receiving \<and> ch s = [] \<and> \<not> ch_closed s"
proof -
  have "searching (length ss) (parsed AddrInfoFromString ss) (SearchNode, boot_start AddrInfoFromString ss)"
    using boot_inv_start by (simp add: searching_def SearchNode_def)
  moreover have "parsed AddrInfoFromString ss < length ss" using assms(1,2) by (rule parsed_less)
  ultimately show ?thesis
    using searching_run [OF assms(4)] assms(3,5,6)
    by (simp add: hung_def)
qed

theorem unparsable_bootstrap_hangs_the_search_witness:
  "\<exists>s b. joint_run 1 demo_info ''peer'' [Inl Cache, Inl (Find None)] (SearchNode, boot_start (\<lambda>_. None :: nat option) [''bad'']) =
     Some (s, b) \<and> finder s = Receiving \<and> \<not> ch_closed s"
proof -
  let ?x = "(SearchNode, boot_start (\<lambda>_. None :: nat option) [''bad''])"
  have "map_option (\<lambda>(s, b). finder s) (joint_run (length [''bad'']) demo_info ''peer'' [Inl Cache, Inl (Find None)] ?x) = Some Receiving"
    by code_simp
  then obtain s b where run: "joint_run (length [''bad'']) demo_info ''peer'' [Inl Cache, Inl (Find None)] ?x = Some (s, b)" by auto
  from unparsable_bootstrap_hangs_the_search [OF _ _ _ run, of "''bad''"] run show ?thesis
    by (simp add: demo_info_def)
qed

text \<open>A found stream can leave the DHT search behind: once addConn has stopped reading and the
  channel is full, the goroutine that sends the next address stays in its send for ever and the channel
  is never closed.\<close>

theorem dht_search_leaks:
  assumes "search_run PeerInfo k ls SearchNode = Some s" and "dht_leaked s" and "search_run PeerInfo k ls' s = Some s'"
  shows "dht_pc s' = dht_pc s \<and> length (ch s') = channelBuffLength"
  using dht_leaked_run [OF assms(3,2)] by (simp add: dht_leaked_def)

theorem dht_search_leaks_witness:
  "\<exists>s. search_run demo_info ''peer''
       (Find (Some (replicate 12 demo_node)) # replicate 20 Next @ Receive True # replicate 3 Next) SearchNode = Some s \<and>
     {dht_pc s' | ls s'. search_run demo_info ''peer'' ls s = Some s'} = {DhtSend demo_node []}"
proof -
  let ?ls = "Find (Some (replicate 12 demo_node)) # replicate 20 Next @ Receive True # replicate 3 Next"
  have "map_option (\<lambda>s. (finder s, length (ch s), dht_pc s)) (search_run demo_info ''peer'' ?ls SearchNode) =
      Some (Stream demo_node, 10, DhtSend demo_node [])"
    by code_simp
  then obtain s where s: "search_run demo_info ''peer'' ?ls SearchNode = Some s" "finder s = Stream demo_node"
    "length (ch s) = 10" "dht_pc s = DhtSend demo_node []" by auto
  then have "dht_leaked s" by (simp add: dht_leaked_def channelBuffLength_def)
  note stay = dht_search_leaks [OF s(1) this]
  have "search_run demo_info ''peer'' [] s = Some s" by simp
  then have "dht_pc s \<in> {dht_pc s' | ls s'. search_run demo_info ''peer'' ls s = Some s'}" by blast
  then have "{dht_pc s' | ls s'. search_run demo_info ''peer'' ls s = Some s'} = {dht_pc s}"
    by (intro equalityI subsetI) (auto simp: stay)
  with s show ?thesis by auto
qed

text \<open>The relay source sends one node more than it was asked for: asked for num candidates it sends
  the first num + 1 that arrive, and it fills a channel of capacity num, so the last send waits.\<close>

theorem relay_source_sends_one_too_many:
  "relay_source (int num) (map Some nodes) = take (num + 1) nodes"
  using relay_source_eq [of "int num" nodes] by (simp add: nat_add_distrib)

end
