(* ===== verification/Config.thy ===== *)
theory Config
  imports Netip
begin

text \<open>
  \<open>core/config\<close>: the configuration record, its defaults, loading and saving (\<open>config.go\<close>), and the
  private key with its text form (\<open>pk.go\<close>). The JSON library, the file system, the key generator and
  the key codec of libp2p are arguments; \<open>encoding/hex\<close> is modelled as the standard library has it.
  \<open>None\<close> is a panic.
\<close>

section \<open>\<open>encoding/hex\<close>\<close>

definition hex_digit :: "byte \<Rightarrow> byte" where
  "hex_digit n = (if n < 10 then 0x30 + n else 0x57 + n)"

fun EncodeToString :: "byte list \<Rightarrow> byte list" where
  "EncodeToString [] = []"
| "EncodeToString (b # bs) = hex_digit (drop_bit 4 b) # hex_digit (and b 15) # EncodeToString bs"

definition reverseHex :: "byte \<Rightarrow> byte option" where
  "reverseHex c =
     (if 0x30 \<le> c \<and> c \<le> 0x39 then Some (c - 0x30)
      else if 0x61 \<le> c \<and> c \<le> 0x66 then Some (c - 0x57)
      else if 0x41 \<le> c \<and> c \<le> 0x46 then Some (c - 0x37)
      else None)"

datatype hex_error = InvalidByteError byte | ErrLength

fun DecodeString :: "byte list \<Rightarrow> hex_error + byte list" where
  "DecodeString [] = Inr []"
| "DecodeString [p] = Inl (if reverseHex p = None then InvalidByteError p else ErrLength)"
| "DecodeString (p # q # s) =
     (case reverseHex p of
        None \<Rightarrow> Inl (InvalidByteError p)
      | Some a \<Rightarrow>
        case reverseHex q of
          None \<Rightarrow> Inl (InvalidByteError q)
        | Some b \<Rightarrow>
          case DecodeString s of
            Inl e \<Rightarrow> Inl e
          | Inr bs \<Rightarrow> Inr (or (push_bit 4 a) b # bs))"

section \<open>The private key\<close>

record private_key = key :: "byte list"

text \<open>The key generator and \<open>MarshalPrivateKey\<close> give the bytes or fail.\<close>

definition NewPrivateKey :: "byte list option \<Rightarrow> private_key option" where
  "NewPrivateKey generated = map_option (\<lambda>k. \<lparr>key = k\<rparr>) generated"

definition UnmarshalText :: "byte list \<Rightarrow> private_key \<Rightarrow> hex_error option \<times> private_key" where
  "UnmarshalText data p =
     (case DecodeString data of Inl e \<Rightarrow> (Some e, p) | Inr k \<Rightarrow> (None, p\<lparr>key := k\<rparr>))"

definition MarshalText :: "private_key \<Rightarrow> byte list" where
  "MarshalText p = EncodeToString (key p)"

section \<open>The configuration\<close>

record core_config =
  OutputType :: string
  OutputPath :: string
  Level :: string
  EncodeType :: string
  EncodeColor :: bool

record config =
  cfg_path :: string
  TUNName :: string
  MTU :: int
  LocalAddr :: prefix
  EnableBroadcast :: bool
  PrivateKey :: "private_key option"
  PeerID :: string
  Bootstraps :: "string list"
  PeersRouteTable :: "string \<rightharpoonup> prefix"
  Relays :: "string list"
  EnableAutoRelay :: bool
  EnableMDNS :: bool
  LogConfigs :: "core_config list"

definition empty_config :: "string \<Rightarrow> config" where
  "empty_config path =
     \<lparr>cfg_path = path, TUNName = [], MTU = 0, LocalAddr = ZeroPrefix, EnableBroadcast = False, PrivateKey = None,
      PeerID = [], Bootstraps = [], PeersRouteTable = Map.empty, Relays = [], EnableAutoRelay = False,
      EnableMDNS = False, LogConfigs = []\<rparr>"

datatype config_error = LoadError | ScanError | KeyError | IdError | WriteError

text \<open>The libraries: what the generator gives this time, the key codec, the IDs and the default peers.\<close>

record 'k crypto =
  generated :: "byte list option"
  UnmarshalPrivateKey :: "byte list \<Rightarrow> 'k option"
  IDFromPrivateKey :: "'k \<Rightarrow> string option"
  DefaultBootstrapPeers :: "string list"

text \<open>\<open>PrivKey\<close> on a nil receiver dereferences it.\<close>

definition PrivKey :: "'k crypto \<Rightarrow> private_key option \<Rightarrow> (config_error + 'k) option" where
  "PrivKey lib p =
     (case p of
        None \<Rightarrow> None
      | Some p \<Rightarrow> Some (case UnmarshalPrivateKey lib (key p) of None \<Rightarrow> Inl KeyError | Some k \<Rightarrow> Inr k))"

definition default_tun :: "config \<Rightarrow> config" where
  "default_tun c =
     (let c = (if TUNName c = [] then c\<lparr>TUNName := ''hive0''\<rparr> else c);
          c = (if MTU c = 0 then c\<lparr>MTU := 1500\<rparr> else c)
      in if \<not> prefix_IsValid (LocalAddr c) then c\<lparr>LocalAddr := Prefix (Addr4 0xC0A8A801) 24\<rparr> else c)"

definition default_key :: "'k crypto \<Rightarrow> config \<Rightarrow> (config_error + config) option" where
  "default_key lib c =
     (if PrivateKey c \<noteq> None then Some (Inr c)
      else let c = c\<lparr>PrivateKey := NewPrivateKey (generated lib)\<rparr>
           in case PrivKey lib (PrivateKey c) of
                None \<Rightarrow> None
              | Some (Inl e) \<Rightarrow> Some (Inl e)
              | Some (Inr k) \<Rightarrow>
                  (case IDFromPrivateKey lib k of
                     None \<Rightarrow> Some (Inl IdError)
                   | Some i \<Rightarrow> Some (Inr (c\<lparr>PeerID := i\<rparr>))))"

definition defaultConfig :: "'k crypto \<Rightarrow> config \<Rightarrow> (config_error + config) option" where
  "defaultConfig lib c =
     (case default_key lib (default_tun c) of
        Some (Inr c) \<Rightarrow>
          Some (Inr (if Bootstraps c = [] then c\<lparr>Bootstraps := DefaultBootstrapPeers lib\<rparr> else c))
      | r \<Rightarrow> r)"

text \<open>The file system and the JSON library.\<close>

record ('fs, 'f, 'j) files =
  Exists :: "string \<Rightarrow> 'fs \<Rightarrow> bool"
  LoadJson :: "string \<Rightarrow> 'fs \<Rightarrow> 'j option"
  Scan :: "'j \<Rightarrow> config \<Rightarrow> config option"
  ToJson :: "config \<Rightarrow> 'f option"
  PutBytes :: "string \<Rightarrow> 'f \<Rightarrow> 'fs \<Rightarrow> bool \<times> 'fs"

definition config_Save :: "('fs, 'f, 'j) files \<Rightarrow> config \<Rightarrow> 'fs \<Rightarrow> (config_error option \<times> 'fs) option" where
  "config_Save io c fs = do {
     bytes \<leftarrow> ToJson io c;
     let (ok, fs) = PutBytes io (cfg_path c) bytes fs;
     Some (if ok then None else Some WriteError, fs)
   }"

definition config_Load ::
  "('fs, 'f, 'j) files \<Rightarrow> 'k crypto \<Rightarrow> string \<Rightarrow> 'fs \<Rightarrow> ((config_error + config) \<times> 'fs) option" where
  "config_Load io lib path fs =
     (let read = (if \<not> Exists io path fs then Inr (empty_config path)
                  else case LoadJson io path fs of
                         None \<Rightarrow> Inl LoadError
                       | Some j \<Rightarrow>
                         case Scan io j (empty_config path) of None \<Rightarrow> Inl ScanError | Some c \<Rightarrow> Inr c)
      in case read of
           Inl e \<Rightarrow> Some (Inl e, fs)
         | Inr c \<Rightarrow> do {
             r \<leftarrow> defaultConfig lib c;
             case r of
               Inl e \<Rightarrow> Some (Inl e, fs)
             | Inr c \<Rightarrow> do {
                 (err, fs) \<leftarrow> config_Save io c fs;
                 Some (case err of Some e \<Rightarrow> (Inl e, fs) | None \<Rightarrow> (Inr c, fs))
               }
           })"

end
