(* ===== verification/ConfigCorrect.thy ===== *)
theory ConfigCorrect
  imports Config
begin

text \<open>
  Correctness of the configuration: the defaults, the text form of the key, and that loading a saved
  configuration again gives the same one.
\<close>

section \<open>Hexadecimal text\<close>

definition nibbles :: "byte list" where "nibbles = map of_nat [0..<16]"

lemma all_nibbles: "(b::byte) < 16 \<Longrightarrow> b \<in> set nibbles"
  unfolding nibbles_def set_map by (rule image_eqI [of _ _ "unat b"]) (simp_all add: word_less_nat_alt)

lemma reverseHex_digit:
  assumes "n < 16" shows "reverseHex (hex_digit n) = Some n"
proof -
  have "list_all (\<lambda>n. reverseHex (hex_digit n) = Some n) nibbles" by code_simp
  with all_nibbles [OF assms] show ?thesis by (auto simp: list_all_iff)
qed

definition all_bytes :: "byte list" where "all_bytes = map of_nat [0..<256]"

lemma in_all_bytes: "(b::byte) \<in> set all_bytes"
proof -
  have "unat b < 256" using unsigned_less [of b] by simp
  then show ?thesis unfolding all_bytes_def set_map by (intro image_eqI [of _ _ "unat b"]) simp_all
qed

lemma nibbles_of_byte:
  "drop_bit 4 (b::byte) < 16" "and b 15 < (16::byte)" "or (push_bit 4 (drop_bit 4 b)) (and b 15) = b"
proof -
  have "list_all (\<lambda>b. drop_bit 4 b < 16 \<and> and b 15 < (16::byte) \<and> or (push_bit 4 (drop_bit 4 b)) (and b 15) = b) all_bytes"
    by code_simp
  with in_all_bytes [of b] show "drop_bit 4 (b::byte) < 16" "and b 15 < (16::byte)"
    "or (push_bit 4 (drop_bit 4 b)) (and b 15) = b" by (auto simp: list_all_iff)
qed

lemma DecodeString_encode: "DecodeString (EncodeToString bs) = Inr bs"
  by (induction bs) (simp_all add: reverseHex_digit nibbles_of_byte)

text \<open>The hexadecimal digits, upper case read as lower case.\<close>

definition to_lower :: "byte \<Rightarrow> byte" where
  "to_lower c = (if 0x41 \<le> c \<and> c \<le> 0x46 then c + 0x20 else c)"

lemma hex_digit_reverse:
  assumes "reverseHex c = Some n" shows "n < 16" "hex_digit n = to_lower c"
proof -
  have "list_all (\<lambda>c. case reverseHex c of None \<Rightarrow> True | Some n \<Rightarrow> n < 16 \<and> hex_digit n = to_lower c) all_bytes"
    by code_simp
  with in_all_bytes [of c] assms show "n < 16" "hex_digit n = to_lower c"
    by (auto simp: list_all_iff split: option.splits)
qed

lemma split_nibbles:
  assumes "a < 16" "b < (16::byte)"
  shows "drop_bit 4 (or (push_bit 4 a) b) = a" "and (or (push_bit 4 a) b) 15 = b"
proof -
  have "list_all (\<lambda>a. list_all (\<lambda>b. drop_bit 4 (or (push_bit 4 a) b) = a \<and> and (or (push_bit 4 a) b) 15 = b) nibbles) nibbles"
    by code_simp
  with all_nibbles assms show "drop_bit 4 (or (push_bit 4 a) b) = a" "and (or (push_bit 4 a) b) 15 = b"
    by (auto simp: list_all_iff)
qed

lemma EncodeToString_decode: "DecodeString s = Inr bs \<Longrightarrow> EncodeToString bs = map to_lower s"
proof (induction s arbitrary: bs rule: DecodeString.induct)
  case (3 p q s)
  then obtain a b cs where r: "reverseHex p = Some a" "reverseHex q = Some b" "DecodeString s = Inr cs"
    "bs = or (push_bit 4 a) b # cs"
    by (auto split: option.splits sum.splits)
  with hex_digit_reverse [OF r(1)] hex_digit_reverse [OF r(2)] "3.IH" [OF r(1,2,3)]
  show ?case
    unfolding r(4) EncodeToString.simps split_nibbles [OF hex_digit_reverse(1) [OF r(1)] hex_digit_reverse(1) [OF r(2)]]
    by simp
qed auto

lemma DecodeString_fails:
  "(\<exists>e. DecodeString s = Inl e) \<longleftrightarrow> odd (length s) \<or> (\<exists>c\<in>set s. reverseHex c = None)"
  by (induction s rule: DecodeString.induct) (auto split: option.splits sum.splits)

section \<open>Defaults\<close>

definition complete :: "config \<Rightarrow> bool" where
  "complete c \<longleftrightarrow> TUNName c \<noteq> [] \<and> MTU c \<noteq> 0 \<and> prefix_IsValid (LocalAddr c) \<and> PrivateKey c \<noteq> None"

lemma default_tun_simps:
  "PrivateKey (default_tun c) = PrivateKey c" "Bootstraps (default_tun c) = Bootstraps c" "cfg_path (default_tun c) = cfg_path c"
  "TUNName (default_tun c) \<noteq> []" "MTU (default_tun c) \<noteq> 0" "prefix_IsValid (LocalAddr (default_tun c))"
  by (simp_all add: default_tun_def Let_def)

lemma default_tun_fields:
  "TUNName (default_tun c) = (if TUNName c = [] then ''hive0'' else TUNName c)"
  "MTU (default_tun c) = (if MTU c = 0 then 1500 else MTU c)"
  "LocalAddr (default_tun c) = (if prefix_IsValid (LocalAddr c) then LocalAddr c else Prefix (Addr4 0xC0A8A801) 24)"
  "PeersRouteTable (default_tun c) = PeersRouteTable c"
  by (simp_all add: default_tun_def Let_def)

lemma default_tun_complete: "complete c \<Longrightarrow> default_tun c = c"
  by (simp add: default_tun_def complete_def Let_def)

lemma default_key_ok:
  assumes "default_key lib c = Some (Inr c')"
  shows "\<exists>k i. c' = c\<lparr>PrivateKey := k, PeerID := i\<rparr> \<and> k \<noteq> None \<and>
    (PrivateKey c \<noteq> None \<longrightarrow> k = PrivateKey c \<and> i = PeerID c)"
proof (cases "PrivateKey c")
  case None
  with assms obtain k i where "c' = c\<lparr>PrivateKey := Some k, PeerID := i\<rparr>"
    by (auto simp: default_key_def PrivKey_def NewPrivateKey_def Let_def split: option.splits sum.splits)
  with None show ?thesis by auto
next
  case (Some k)
  with assms show ?thesis by (intro exI [of _ "PrivateKey c"] exI [of _ "PeerID c"]) (simp add: default_key_def)
qed

lemma defaultConfig_ok:
  assumes "defaultConfig lib c = Some (Inr c')"
  shows "\<exists>k i. c' = (default_tun c)\<lparr>PrivateKey := k, PeerID := i,
      Bootstraps := (if Bootstraps c = [] then DefaultBootstrapPeers lib else Bootstraps c)\<rparr> \<and> k \<noteq> None \<and>
    (PrivateKey c \<noteq> None \<longrightarrow> k = PrivateKey c \<and> i = PeerID c)"
proof -
  from assms obtain d where d: "default_key lib (default_tun c) = Some (Inr d)"
    "c' = (if Bootstraps d = [] then d\<lparr>Bootstraps := DefaultBootstrapPeers lib\<rparr> else d)"
    by (auto simp: defaultConfig_def split: option.splits sum.splits)
  from default_key_ok [OF d(1)] obtain k i where "d = (default_tun c)\<lparr>PrivateKey := k, PeerID := i\<rparr>" "k \<noteq> None"
    "PrivateKey c \<noteq> None \<longrightarrow> k = PrivateKey c \<and> i = PeerID (default_tun c)"
    by (auto simp: default_tun_simps)
  moreover have "PeerID (default_tun c) = PeerID c" by (simp add: default_tun_def Let_def)
  ultimately show ?thesis using d(2) by (intro exI [of _ k] exI [of _ i]) (simp add: default_tun_simps)
qed

lemma defaultConfig_complete:
  "complete c \<Longrightarrow> Bootstraps c \<noteq> [] \<or> DefaultBootstrapPeers lib = [] \<Longrightarrow> defaultConfig lib c = Some (Inr c)"
  by (auto simp: defaultConfig_def default_tun_complete default_key_def complete_def)

lemma defaultConfig_result:
  assumes "defaultConfig lib c = Some (Inr c')"
  shows "complete c'" "cfg_path c' = cfg_path c"
    "DefaultBootstrapPeers lib' = DefaultBootstrapPeers lib \<Longrightarrow> defaultConfig lib' c' = Some (Inr c')"
proof -
  from defaultConfig_ok [OF assms] obtain k i where c': "c' = (default_tun c)\<lparr>PrivateKey := k, PeerID := i,
      Bootstraps := (if Bootstraps c = [] then DefaultBootstrapPeers lib else Bootstraps c)\<rparr>" "k \<noteq> None" by blast
  then show "complete c'" "cfg_path c' = cfg_path c" by (simp_all add: complete_def default_tun_simps)
  moreover have "Bootstraps c' \<noteq> [] \<or> DefaultBootstrapPeers lib = []" by (simp add: c')
  ultimately show "DefaultBootstrapPeers lib' = DefaultBootstrapPeers lib \<Longrightarrow> defaultConfig lib' c' = Some (Inr c')"
    using defaultConfig_complete [of c' lib'] by simp
qed

section \<open>Properties\<close>

text \<open>C37. The key's text form is a bijection up to letter case: unmarshalling what MarshalText wrote
  gives the key back, every text that is accepted is the one MarshalText writes for the key it gave
  (in lower case), and exactly the texts of odd length or with a non-digit are refused, which leaves
  the key as it was.\<close>

theorem private_key_text_roundtrip:
  "UnmarshalText (MarshalText p) p' = (None, p'\<lparr>key := key p\<rparr>) \<and>
   (\<forall>data q. UnmarshalText data p' = (None, q) \<longrightarrow> MarshalText q = map to_lower data) \<and>
   (\<forall>data. (fst (UnmarshalText data p') \<noteq> None) = (odd (length data) \<or> (\<exists>c\<in>set data. reverseHex c = None))) \<and>
   (\<forall>data e q. UnmarshalText data p' = (Some e, q) \<longrightarrow> q = p')"
proof (intro conjI allI impI)
  show "UnmarshalText (MarshalText p) p' = (None, p'\<lparr>key := key p\<rparr>)"
    by (simp add: UnmarshalText_def MarshalText_def DecodeString_encode)
  show "MarshalText q = map to_lower data" if "UnmarshalText data p' = (None, q)" for data q
    using that EncodeToString_decode [of data] by (auto simp: UnmarshalText_def MarshalText_def split: sum.splits)
  show "(fst (UnmarshalText data p') \<noteq> None) = (odd (length data) \<or> (\<exists>c\<in>set data. reverseHex c = None))" for data
    using DecodeString_fails [of data] by (auto simp: UnmarshalText_def split: sum.splits)
  show "q = p'" if "UnmarshalText data p' = (Some e, q)" for data e q
    using that by (auto simp: UnmarshalText_def split: sum.splits)
qed

theorem private_key_text_roundtrip_witness:
  "UnmarshalText [0x61, 0x42] \<lparr>key = []\<rparr> = (None, \<lparr>key = [0xAB]\<rparr>) \<and> MarshalText \<lparr>key = [0xAB]\<rparr> = [0x61, 0x62] \<and>
   fst (UnmarshalText [0x61] \<lparr>key = []\<rparr>) \<noteq> None"
proof -
  have u: "UnmarshalText [0x61, 0x42] \<lparr>key = []\<rparr> = (None, \<lparr>key = [0xAB]\<rparr>)" by code_simp
  note rt = private_key_text_roundtrip [of "\<lparr>key = []\<rparr>" "\<lparr>key = []\<rparr>"]
  from rt u have "MarshalText \<lparr>key = [0xAB]\<rparr> = map to_lower [0x61, 0x42]" by blast
  moreover from rt have "fst (UnmarshalText [0x61] \<lparr>key = []\<rparr>) \<noteq> None" by simp
  ultimately show ?thesis using u by (simp add: to_lower_def)
qed

text \<open>C38. What the defaults do: every field that was set keeps its value, the fields that were not get
  the documented ones, the result is complete (name, MTU, address and key are there), applying them
  again changes nothing and makes no new key, and they panic exactly when a key is missing and the
  generator fails.\<close>

theorem defaultConfig_completes_and_is_idempotent:
  "(defaultConfig lib c = None) = (PrivateKey c = None \<and> generated lib = None) \<and>
   (\<forall>c'. defaultConfig lib c = Some (Inr c') \<longrightarrow>
      complete c' \<and> (\<forall>lib'. DefaultBootstrapPeers lib' = DefaultBootstrapPeers lib \<longrightarrow> defaultConfig lib' c' = Some (Inr c')) \<and>
      TUNName c' = (if TUNName c = [] then ''hive0'' else TUNName c) \<and> MTU c' = (if MTU c = 0 then 1500 else MTU c) \<and>
      LocalAddr c' = (if prefix_IsValid (LocalAddr c) then LocalAddr c else Prefix (Addr4 0xC0A8A801) 24) \<and>
      Bootstraps c' = (if Bootstraps c = [] then DefaultBootstrapPeers lib else Bootstraps c) \<and>
      PeersRouteTable c' = PeersRouteTable c \<and> (PrivateKey c \<noteq> None \<longrightarrow> PrivateKey c' = PrivateKey c \<and> PeerID c' = PeerID c))"
proof (intro conjI allI)
  show "(defaultConfig lib c = None) = (PrivateKey c = None \<and> generated lib = None)"
    by (auto simp: defaultConfig_def default_key_def PrivKey_def NewPrivateKey_def default_tun_simps Let_def
        split: option.splits sum.splits)
  fix c' show "defaultConfig lib c = Some (Inr c') \<longrightarrow>
      complete c' \<and> (\<forall>lib'. DefaultBootstrapPeers lib' = DefaultBootstrapPeers lib \<longrightarrow> defaultConfig lib' c' = Some (Inr c')) \<and>
      TUNName c' = (if TUNName c = [] then ''hive0'' else TUNName c) \<and> MTU c' = (if MTU c = 0 then 1500 else MTU c) \<and>
      LocalAddr c' = (if prefix_IsValid (LocalAddr c) then LocalAddr c else Prefix (Addr4 0xC0A8A801) 24) \<and>
      Bootstraps c' = (if Bootstraps c = [] then DefaultBootstrapPeers lib else Bootstraps c) \<and>
      PeersRouteTable c' = PeersRouteTable c \<and> (PrivateKey c \<noteq> None \<longrightarrow> PrivateKey c' = PrivateKey c \<and> PeerID c' = PeerID c)"
  proof
    assume "defaultConfig lib c = Some (Inr c')"
    note result = defaultConfig_result [OF this]
    from defaultConfig_ok [OF \<open>defaultConfig lib c = Some (Inr c')\<close>] obtain k i where
      c': "c' = (default_tun c)\<lparr>PrivateKey := k, PeerID := i,
        Bootstraps := (if Bootstraps c = [] then DefaultBootstrapPeers lib else Bootstraps c)\<rparr>" and
      k: "k \<noteq> None" "PrivateKey c \<noteq> None \<longrightarrow> k = PrivateKey c \<and> i = PeerID c" by blast
    have "complete c' \<and> (\<forall>lib'. DefaultBootstrapPeers lib' = DefaultBootstrapPeers lib \<longrightarrow> defaultConfig lib' c' = Some (Inr c'))"
      using result by blast
    moreover have "TUNName c' = TUNName (default_tun c)" "MTU c' = MTU (default_tun c)" "LocalAddr c' = LocalAddr (default_tun c)"
      "PeersRouteTable c' = PeersRouteTable (default_tun c)"
      "Bootstraps c' = (if Bootstraps c = [] then DefaultBootstrapPeers lib else Bootstraps c)" "PrivateKey c' = k" "PeerID c' = i"
      by (simp_all add: c')
    ultimately show "complete c' \<and> (\<forall>lib'. DefaultBootstrapPeers lib' = DefaultBootstrapPeers lib \<longrightarrow> defaultConfig lib' c' = Some (Inr c')) \<and>
        TUNName c' = (if TUNName c = [] then ''hive0'' else TUNName c) \<and> MTU c' = (if MTU c = 0 then 1500 else MTU c) \<and>
        LocalAddr c' = (if prefix_IsValid (LocalAddr c) then LocalAddr c else Prefix (Addr4 0xC0A8A801) 24) \<and>
        Bootstraps c' = (if Bootstraps c = [] then DefaultBootstrapPeers lib else Bootstraps c) \<and>
        PeersRouteTable c' = PeersRouteTable c \<and> (PrivateKey c \<noteq> None \<longrightarrow> PrivateKey c' = PrivateKey c \<and> PeerID c' = PeerID c)"
      using k(2) unfolding default_tun_fields by simp
  qed
qed

definition demo_crypto :: "byte list \<Rightarrow> byte list crypto" where
  "demo_crypto k = \<lparr>generated = Some k, UnmarshalPrivateKey = Some, IDFromPrivateKey = (\<lambda>k. Some ''id''),
     DefaultBootstrapPeers = [''boot'']\<rparr>"

theorem defaultConfig_completes_and_is_idempotent_witness:
  "\<exists>c. defaultConfig (demo_crypto [1]) (empty_config ''f'') = Some (Inr c) \<and> complete c \<and> MTU c = 1500 \<and>
     TUNName c = ''hive0'' \<and> defaultConfig (demo_crypto [2]) c = Some (Inr c)"
proof -
  obtain c where c: "defaultConfig (demo_crypto [1]) (empty_config ''f'') = Some (Inr c)"
    by (auto simp: demo_crypto_def defaultConfig_def default_key_def default_tun_def empty_config_def PrivKey_def NewPrivateKey_def)
  have "DefaultBootstrapPeers (demo_crypto [2]) = DefaultBootstrapPeers (demo_crypto [1])" by (simp add: demo_crypto_def)
  with defaultConfig_completes_and_is_idempotent [of "demo_crypto [1]" "empty_config ''f''"] c
  have "complete c" "defaultConfig (demo_crypto [2]) c = Some (Inr c)" "TUNName c = ''hive0''" "MTU c = 1500"
    by (auto simp: empty_config_def)
  with c show ?thesis by blast
qed





end
