(* ===== verification/Logging.thy ===== *)
theory Logging
  imports Config
begin

text \<open>
  \<open>pkgs/log\<close>: which cores the configuration asks for and how each is set up. The level parser, the
  sinks and the encoders of zap are arguments or names. \<open>None\<close> is a panic.
\<close>

section \<open>Cores\<close>

datatype encoder = ConsoleEncoder bool bool | JsonEncoder bool bool

text \<open>A core: its encoder (colour of the level, caller shown), its level and its sink.\<close>

record 'lvl core =
  encoder :: encoder
  level :: 'lvl
  sink :: string

record 'lvl zap =
  ParseAtomicLevel :: "string \<Rightarrow> 'lvl option"
  InfoLevel :: 'lvl
  zap_Open :: "string \<Rightarrow> bool"

definition to_lower_char :: "char \<Rightarrow> char" where
  "to_lower_char c = (if 65 \<le> (of_char c :: nat) \<and> (of_char c :: nat) \<le> 90 then char_of ((of_char c :: nat) + 32) else c)"

definition core_level :: "'lvl zap \<Rightarrow> core_config \<Rightarrow> 'lvl" where
  "core_level z c = (case ParseAtomicLevel z (Level c) of None \<Rightarrow> InfoLevel z | Some l \<Rightarrow> l)"

definition core_encoder :: "bool \<Rightarrow> core_config \<Rightarrow> encoder" where
  "core_encoder caller c =
     (if EncodeType c = ''json'' then JsonEncoder (EncodeColor c) caller else ConsoleEncoder (EncodeColor c) caller)"

text \<open>When \<open>zap.Open\<close> fails it gives no close function: \<open>ConsoleCore\<close> calls it all the same.\<close>

definition ConsoleCore :: "'lvl zap \<Rightarrow> core_config \<Rightarrow> 'lvl core option option" where
  "ConsoleCore z c =
     (let out = (if map to_lower_char (OutputPath c) = ''stderr'' then ''stderr'' else ''stdout'')
      in if zap_Open z out
         then Some (Some \<lparr>encoder = core_encoder True c, level = core_level z c, sink = out\<rparr>)
         else None)"

definition FileCore :: "'lvl zap \<Rightarrow> core_config \<Rightarrow> 'lvl core option option" where
  "FileCore z c =
     Some (if zap_Open z (OutputPath c)
           then Some \<lparr>encoder = core_encoder False c, level = core_level z c, sink = OutputPath c\<rparr>
           else None)"

fun collect_cores :: "'lvl zap \<Rightarrow> core_config list \<Rightarrow> 'lvl core list option" where
  "collect_cores z [] = Some []"
| "collect_cores z (c # cs) = do {
     core \<leftarrow> (if OutputType c = ''file'' then FileCore z c
             else if OutputType c = ''console'' then ConsoleCore z c
             else Some None);
     rest \<leftarrow> collect_cores z cs;
     Some (case core of None \<Rightarrow> rest | Some x \<Rightarrow> x # rest)
   }"

definition console_default :: core_config where
  "console_default = \<lparr>OutputType = [], OutputPath = [], Level = [], EncodeType = [], EncodeColor = True\<rparr>"

definition NewCore :: "'lvl zap \<Rightarrow> core_config list \<Rightarrow> 'lvl core list option" where
  "NewCore z cs = do {
     cores \<leftarrow> collect_cores z cs;
     if cores = [] then do {
       c \<leftarrow> ConsoleCore z console_default;
       Some (case c of None \<Rightarrow> [] | Some x \<Rightarrow> [x])
     } else Some cores
   }"

definition SetOutputTypes :: "core_config list \<Rightarrow> core_config list \<Rightarrow> core_config list" where
  "SetOutputTypes configs coreConfigs = coreConfigs @ configs"

text \<open>\<open>Logger\<close> and \<open>New\<close>: a logger is its name, its cores and whether it notes the caller.\<close>

record 'lvl logger =
  logger_name :: string
  logger_cores :: "'lvl core list"
  logger_caller :: bool

definition mlog_New :: "'lvl zap \<Rightarrow> core_config list \<Rightarrow> string \<Rightarrow> 'lvl logger option" where
  "mlog_New z coreConfigs name = do {
     cores \<leftarrow> NewCore z coreConfigs;
     Some \<lparr>logger_name = name, logger_cores = cores, logger_caller = True\<rparr>
   }"

section \<open>What they do\<close>

text \<open>There is always somewhere to log to, and only an unusable standard stream panics.\<close>

lemma collect_cores_ok:
  assumes "zap_Open z ''stdout''" "zap_Open z ''stderr''"
  shows "\<exists>cores. collect_cores z cs = Some cores \<and> length cores \<le> length cs"
  using assms
  by (induction cs) (auto simp: ConsoleCore_def FileCore_def Let_def split: option.splits)

lemma NewCore_never_empty:
  assumes "zap_Open z ''stdout''" "zap_Open z ''stderr''"
  shows "\<exists>cores. NewCore z cs = Some cores \<and> cores \<noteq> []"
  using collect_cores_ok [OF assms, of cs] assms
  by (auto simp: NewCore_def ConsoleCore_def Let_def console_default_def)

lemma mlog_New_ok:
  assumes "zap_Open z ''stdout''" "zap_Open z ''stderr''"
  shows "\<exists>l. mlog_New z cs name = Some l \<and> logger_name l = name \<and> logger_cores l \<noteq> []"
  using NewCore_never_empty [OF assms, of cs] by (auto simp: mlog_New_def)

end
