(* ===== verification/Command.thy ===== *)
theory Command
  imports Netip
begin

text \<open>
  \<open>pkgs/command\<close>: the \<open>ip\<close> command lines that the device runs, the process that runs them, and the
  text form of \<open>net/netip\<close> prefixes that goes into them. What the shell does is an argument.
\<close>

section \<open>The text form of prefixes\<close>

definition digit_char :: "nat \<Rightarrow> char" where
  "digit_char n = (''0123456789abcdef'' ! n)"

function numeral_in :: "nat \<Rightarrow> nat \<Rightarrow> string" where
  "numeral_in b n =
     (if b < 2 \<or> n < b then [digit_char n] else numeral_in b (n div b) @ [digit_char (n mod b)])"
  by pat_completeness auto
termination by (relation "measure snd") auto

declare numeral_in.simps [simp del]

text \<open>\<open>strings.Join\<close>.\<close>

fun joined :: "string \<Rightarrow> string list \<Rightarrow> string" where
  "joined sep [] = []"
| "joined sep [s] = s"
| "joined sep (s # t # ss) = s @ sep @ joined sep (t # ss)"

definition String4 :: "32 word \<Rightarrow> string" where
  "String4 w = joined ''.'' (map (numeral_in 10 \<circ> unat) (be_bytes 4 w))"

text \<open>The eight groups of an IPv6 address, and the first of its longest runs of two or more zero groups.\<close>

definition v6_groups :: "128 word \<Rightarrow> nat list" where
  "v6_groups w = map (\<lambda>i. unat (ucast (drop_bit (112 - 16 * i) w) :: 16 word)) [0..<8]"

definition zero_run :: "nat list \<Rightarrow> nat \<times> nat" where
  "zero_run gs =
     foldl (\<lambda>(s, e) i. let j = i + length (takeWhile (\<lambda>g. g = 0) (drop i gs))
                       in if 2 \<le> j - i \<and> e - s < j - i then (i, j) else (s, e))
       (255, 255) [0..<8]"

definition String6 :: "128 word \<Rightarrow> string" where
  "String6 w =
     (let gs = v6_groups w; (s, e) = zero_run gs; hex = joined '':'' \<circ> map (numeral_in 16)
      in if s < 8 then hex (take s gs) @ ''::'' @ hex (drop e gs) else hex gs)"

fun addr_String :: "ipaddr \<Rightarrow> string" where
  "addr_String ZeroAddr = ''invalid IP''"
| "addr_String (Addr4 w) = String4 w"
| "addr_String (Addr6 w z) =
     (if Is4In6 (Addr6 w z) then ''::ffff:'' @ String4 (ucast w) else String6 w) @
     (if z = [] then [] else ''%'' @ z)"

fun prefix_String :: "prefix \<Rightarrow> string" where
  "prefix_String ZeroPrefix = ''invalid Prefix''"
| "prefix_String (Prefix a n) = addr_String a @ ''/'' @ numeral_in 10 n"

section \<open>Running a command\<close>

text \<open>
  What \<open>Output\<close> of \<open>os/exec\<close> gives: the process was not started (then \<open>ProcessState\<close> is nil and its
  \<open>ExitCode\<close> is -1), or it ended with a code (-1 for a signal), its output, and whether the output
  could be read. A code other than zero is an error.
\<close>

datatype process = NotStarted | Exited int string bool

datatype exec_error = StartError | ExitError int | ReadError

type_synonym 'k shell = "string list \<Rightarrow> 'k \<Rightarrow> process \<times> 'k"

fun ExitCode :: "process \<Rightarrow> int" where
  "ExitCode NotStarted = - 1"
| "ExitCode (Exited n out read_ok) = n"

fun Output :: "process \<Rightarrow> string \<times> exec_error option" where
  "Output NotStarted = ([], Some StartError)"
| "Output (Exited n out read_ok) =
     (out, if n \<noteq> 0 then Some (ExitError n) else if \<not> read_ok then Some ReadError else None)"

text \<open>The output is dropped (nil) when there is an error.\<close>

definition Bash :: "'k shell \<Rightarrow> string \<Rightarrow> 'k \<Rightarrow> (int \<times> string option \<times> exec_error option) \<times> 'k" where
  "Bash sh cmd k =
     (let (p, k) = sh [''/bin/bash'', ''-c'', cmd] k;
          (output, err) = Output p
      in case err of
           Some e \<Rightarrow> ((ExitCode p, None, Some e), k)
         | None \<Rightarrow> ((ExitCode p, Some output, None), k))"

text \<open>\<open>CommandContext\<close> starts the process under a context; nothing in the repository calls \<open>BashCtx\<close>.\<close>

definition BashCtx ::
  "('c \<Rightarrow> 'k shell) \<Rightarrow> 'c \<Rightarrow> string \<Rightarrow> 'k \<Rightarrow> (int \<times> string option \<times> exec_error option) \<times> 'k" where
  "BashCtx sh ctx cmd k =
     (let (p, k) = sh ctx [''/bin/bash'', ''-c'', cmd] k;
          (output, err) = Output p
      in case err of
           Some e \<Rightarrow> ((ExitCode p, None, Some e), k)
         | None \<Rightarrow> ((ExitCode p, Some output, None), k))"

definition add_command :: "prefix \<Rightarrow> string \<Rightarrow> string" where
  "add_command addr dev = ''ip -4 addr add '' @ prefix_String addr @ '' dev '' @ dev"

definition IP4AddAddr :: "'k shell \<Rightarrow> prefix \<Rightarrow> string \<Rightarrow> 'k \<Rightarrow> exec_error option \<times> 'k" where
  "IP4AddAddr sh addr dev k = (let ((_, _, err), k) = Bash sh (add_command addr dev) k in (err, k))"

definition flush_command :: "string \<Rightarrow> string" where
  "flush_command dev = ''ip -4 addr flush dev '' @ dev"

definition IP4FlushAddr :: "'k shell \<Rightarrow> string \<Rightarrow> 'k \<Rightarrow> exec_error option \<times> 'k" where
  "IP4FlushAddr sh dev k = (let ((_, _, err), k) = Bash sh (flush_command dev) k in (err, k))"

end
