(* ===== verification/CommandCorrect.thy ===== *)
theory CommandCorrect
  imports Command
begin

text \<open>
  What the command lines of \<open>Command\<close> say: which characters they have, and that they can be read
  back; and which results a command gives.
\<close>

section \<open>Decimal and hexadecimal numerals\<close>

definition digits :: "nat \<Rightarrow> char set" where
  "digits b = digit_char ` {..<b}"

lemma numeral_in_chars: "2 \<le> b \<Longrightarrow> set (numeral_in b n) \<subseteq> digits b"
  by (induction b n rule: numeral_in.induct) (subst numeral_in.simps, auto simp: digits_def)

lemma numeral_in_not_Nil [simp]: "numeral_in b n \<noteq> []" "[] \<noteq> numeral_in b n"
  by (subst numeral_in.simps, simp)+

lemma digit_char_inject: "i < 16 \<Longrightarrow> j < 16 \<Longrightarrow> digit_char i = digit_char j \<longleftrightarrow> i = j"
proof -
  have "distinct ''0123456789abcdef''" by simp
  then show "i < 16 \<Longrightarrow> j < 16 \<Longrightarrow> digit_char i = digit_char j \<longleftrightarrow> i = j"
    unfolding digit_char_def by (subst nth_eq_iff_index_eq) simp_all
qed

lemma numeral_in_inject:
  assumes "2 \<le> b" "b \<le> 16"
  shows "numeral_in b m = numeral_in b n \<longleftrightarrow> m = n"
proof
  show "numeral_in b m = numeral_in b n \<Longrightarrow> m = n"
    using assms
  proof (induction b m arbitrary: n rule: numeral_in.induct)
    case (1 b m)
    have digit: "digit_char (i mod b) = digit_char (j mod b) \<longleftrightarrow> i mod b = j mod b" for i j
      using "1.prems" by (intro digit_char_inject) (auto intro: less_le_trans [OF mod_less_divisor])
    show ?case
    proof (cases "m < b")
      case True
      then have "n < b" using "1.prems" by (simp add: numeral_in.simps [of b m] numeral_in.simps [of b n] split: if_splits)
      with True "1.prems" digit [of m n] show ?thesis
        by (simp add: numeral_in.simps [of b m] numeral_in.simps [of b n])
    next
      case False
      then have n: "\<not> n < b" using "1.prems" by (auto simp: numeral_in.simps [of b m] numeral_in.simps [of b n])
      then have eq: "numeral_in b (m div b) = numeral_in b (n div b)" "m mod b = n mod b"
        using "1.prems" False digit [of m n]
        by (simp_all add: numeral_in.simps [of b m] numeral_in.simps [of b n])
      from "1.IH" [OF _ eq(1)] False "1.prems" have "m div b = n div b" by simp
      with eq(2) show ?thesis by (metis div_mult_mod_eq)
    qed
  qed
qed simp

section \<open>Reading a joined text back\<close>

lemma word_before:
  "c \<notin> set s \<Longrightarrow> c \<notin> set t \<Longrightarrow> s @ c # xs = t @ c # ys \<longleftrightarrow> s = t \<and> xs = ys"
proof (induction s arbitrary: t)
  case Nil
  then show ?case by (cases t) auto
next
  case (Cons x s)
  then show ?case by (cases t) auto
qed

lemma word_before_end: "c \<notin> set s \<Longrightarrow> s \<noteq> t @ c # ys"
  by auto

lemma joined_inject:
  assumes "\<forall>s\<in>set ss \<union> set ts. c \<notin> set s" "length ss = length ts"
  shows "joined [c] ss = joined [c] ts \<longleftrightarrow> ss = ts"
  using assms
proof (induction ss arbitrary: ts)
  case (Cons s ss)
  obtain t ts' where ts: "ts = t # ts'" using Cons.prems(2) by (cases ts) auto
  show ?case
  proof (cases ss)
    case Nil
    with Cons.prems show ?thesis by (simp add: ts)
  next
    case (Cons a as)
    then obtain b bs where b: "ts' = b # bs" using Cons.prems(2) ts by (cases ts') auto
    from Cons Cons.IH [of ts'] Cons.prems show ?thesis by (simp add: ts b word_before)
  qed
qed simp

lemma joined_chars: "set (joined sep ss) \<subseteq> set sep \<union> \<Union> (set ` set ss)"
  by (induction sep ss rule: joined.induct) auto

lemma be_bytes_inject:
  "be_bytes 4 (v :: 32 word) = be_bytes 4 w \<longleftrightarrow> v = w"
proof -
  have "be_word (be_bytes 4 u) = u" for u :: "32 word" by (rule be_word_bytes) simp
  then show ?thesis by metis
qed

section \<open>The characters of an address\<close>

lemma String4_chars: "set (String4 w) \<subseteq> insert (CHR ''.'') (digits 10)"
proof -
  have "set (String4 w) \<subseteq> set ''.'' \<union> \<Union> (set ` set (map (numeral_in 10 \<circ> unat) (be_bytes 4 w)))"
    unfolding String4_def by (rule joined_chars)
  then show ?thesis using numeral_in_chars [of 10] by fastforce
qed

lemma String6_chars: "set (String6 w) \<subseteq> insert (CHR '':'') (digits 16)"
proof -
  have "set (joined '':'' (map (numeral_in 16) gs)) \<subseteq> insert (CHR '':'') (digits 16)" for gs
    using joined_chars [of "'':''" "map (numeral_in 16) gs"] numeral_in_chars [of 16] by fastforce
  then show ?thesis by (auto simp: String6_def Let_def split: prod.splits)
qed

lemma digits_mono: "b \<le> c \<Longrightarrow> digits b \<subseteq> digits c"
  by (auto simp: digits_def)

text \<open>The characters that a shell does not interpret, of those that the text of a prefix can have.\<close>

definition plain_chars :: "char set" where
  "plain_chars = set ''0123456789abcdefghijklmnopqrstuvwxyzABCDEFGHIJKLMNOPQRSTUVWXYZ.:/_-''"

lemma digits_plain: "digits 16 \<subseteq> plain_chars"
proof
  fix c assume "c \<in> digits 16"
  then obtain i where i: "i < 16" "c = ''0123456789abcdef'' ! i"
    by (auto simp: digits_def digit_char_def)
  then have "c \<in> set ''0123456789abcdef''" using nth_mem [of i "''0123456789abcdef''"] by simp
  moreover have "plain_chars = set ''0123456789abcdef'' \<union> set ''ghijklmnopqrstuvwxyzABCDEFGHIJKLMNOPQRSTUVWXYZ.:/_-''"
    unfolding plain_chars_def set_append [symmetric] by simp
  ultimately show "c \<in> plain_chars" by blast
qed

lemma digits_10_plain: "digits 10 \<subseteq> plain_chars"
  by (rule order_trans [OF digits_mono digits_plain]) simp

lemma some_plain:
  "CHR ''.'' \<in> plain_chars" "CHR '':'' \<in> plain_chars" "CHR ''/'' \<in> plain_chars" "CHR '' '' \<notin> plain_chars"
  "CHR ''f'' \<in> plain_chars"
  unfolding plain_chars_def by simp_all

lemma addr_String_plain: "a \<noteq> ZeroAddr \<Longrightarrow> addr_zone a = [] \<Longrightarrow> set (addr_String a) \<subseteq> plain_chars"
proof -
  have four: "set (String4 w) \<subseteq> plain_chars" for w
    using String4_chars [of w] digits_10_plain some_plain(1) by blast
  have six: "set (String6 w) \<subseteq> plain_chars" for w
    using String6_chars [of w] digits_plain some_plain(2) by blast
  show "a \<noteq> ZeroAddr \<Longrightarrow> addr_zone a = [] \<Longrightarrow> set (addr_String a) \<subseteq> plain_chars"
    using four six some_plain(2,5) by (cases a) simp_all
qed

lemma prefix_String_plain:
  assumes "prefix_Addr p \<noteq> ZeroAddr" "addr_zone (prefix_Addr p) = []"
  shows "set (prefix_String p) \<subseteq> plain_chars"
proof -
  have "set (numeral_in 10 n) \<subseteq> plain_chars" for n
    using numeral_in_chars [of 10 n] digits_10_plain by simp
  with assms addr_String_plain some_plain(3) show ?thesis by (cases p) simp_all
qed

text \<open>Two IPv4 prefixes have different texts.\<close>

lemma not_digit: "CHR ''.'' \<notin> digits 10" "CHR ''/'' \<notin> digits 10" "CHR '' '' \<notin> digits 16"
  by (auto simp: digits_def digit_char_def nth_Cons' split: if_splits)

lemma numeral_10_no_dot: "CHR ''.'' \<notin> set (numeral_in 10 n)"
  using numeral_in_chars [of 10 n] not_digit by auto

lemma String4_inject: "String4 v = String4 w \<longleftrightarrow> v = w"
proof -
  have bytes: "map (numeral_in 10 \<circ> unat) xs = map (numeral_in 10 \<circ> unat) ys \<longleftrightarrow> xs = ys"
    for xs ys :: "byte list"
    by (rule inj_map_eq_map) (auto intro!: injI simp: numeral_in_inject intro: unsigned_word_eqI)
  have "String4 v = String4 w \<longleftrightarrow>
      map (numeral_in 10 \<circ> unat) (be_bytes 4 v) = map (numeral_in 10 \<circ> unat) (be_bytes 4 w)"
    unfolding String4_def by (rule joined_inject) (auto simp: numeral_10_no_dot)
  then show ?thesis by (simp only: bytes be_bytes_inject)
qed

lemma String4_no_slash: "CHR ''/'' \<notin> set (String4 w)"
  using String4_chars [of w] not_digit by auto

lemma prefix_String_inject:
  "prefix_String (Prefix (Addr4 v) m) = prefix_String (Prefix (Addr4 w) n) \<longleftrightarrow> v = w \<and> m = n"
  using word_before [of "CHR ''/''" "String4 v" "String4 w"]
  by (simp add: String4_no_slash String4_inject numeral_in_inject)

section \<open>The command lines\<close>

text \<open>The ip command lines say what they were built from: for IPv4 prefixes two calls of AddAddress
  give the shell the same line only if they are for the same address, prefix length and device,
  two calls of FlushAddress only if they are for the same device, and the two commands never
  coincide, whatever characters the device names have.\<close>

lemma ip_commands_determine_their_request:
  "(add_command (Prefix (Addr4 v) m) d = add_command (Prefix (Addr4 w) n) d' \<longleftrightarrow> v = w \<and> m = n \<and> d = d') \<and>
   (flush_command d = flush_command d' \<longleftrightarrow> d = d') \<and>
   add_command p d \<noteq> flush_command d'"
proof (intro conjI)
  have no_blank: "CHR '' '' \<notin> set (prefix_String (Prefix (Addr4 u) k))" for u k
    using prefix_String_plain [of "Prefix (Addr4 u) k"] some_plain(4) by auto
  show "add_command (Prefix (Addr4 v) m) d = add_command (Prefix (Addr4 w) n) d' \<longleftrightarrow> v = w \<and> m = n \<and> d = d'"
    using word_before [OF no_blank no_blank] prefix_String_inject [of v m w n]
    by (simp add: add_command_def del: prefix_String.simps)
qed (simp_all add: add_command_def flush_command_def)



section \<open>Results of a command\<close>

text \<open>No error means: the process was started, it ended with code 0, and its output was read.\<close>

lemma Bash_result:
  assumes "sh [''/bin/bash'', ''-c'', cmd] k = (p, k')"
  shows "snd (Bash sh cmd k) = k'"
    "snd (snd (fst (Bash sh cmd k))) = None \<longleftrightarrow> (\<exists>out. p = Exited 0 out True)"
    "fst (fst (Bash sh cmd k)) = 0 \<longleftrightarrow> (\<exists>out ok. p = Exited 0 out ok)"
  by (cases p; simp add: Bash_def assms Let_def split: prod.splits if_splits)+

end
