(* ===== verification/DeviceLinux.thy ===== *)
theory DeviceLinux
  imports Command
begin

text \<open>
  The Linux side of the devices and routes: \<open>core/device/tun_linux.go\<close>, \<open>core/route/route_linux.go\<close>,
  \<open>pkgs/system\<close>, on the command lines of \<open>Command\<close>. Requests to the kernel are the bytes the
  code passes to it (on a little-endian machine); what the kernel does with them is an argument. A
  nonzero errno is an error; \<open>None\<close> is a panic.
\<close>

section \<open>\<open>system.Ioctl\<close>\<close>

datatype request =
    SIOCSIFFLAGS | TUNGETIFF | SIOCGIFMTU | SIOCSIFMTU | SIOCGIFINDEX | TUNSETIFF | SIOCADDRT | SIOCDELRT

type_synonym 'k ioctl = "request \<Rightarrow> byte list \<Rightarrow> 'k \<Rightarrow> nat \<times> byte list \<times> 'k"

datatype dev_error =
    SocketError
  | SyscallError nat
  | ControlError
  | OpenError
  | NoDevice
  | NameTooLong
  | CidrError

definition Ioctl :: "'k ioctl \<Rightarrow> request \<Rightarrow> byte list \<Rightarrow> 'k \<Rightarrow> dev_error option \<times> byte list \<times> 'k" where
  "Ioctl io r argp k =
     (let (errno, argp, k) = io r argp k in (if errno \<noteq> 0 then Some (SyscallError errno) else None, argp, k))"

section \<open>Interface requests\<close>

definition IFNAMSIZ :: nat where "IFNAMSIZ = 16"

definition IFF_UP :: byte where "IFF_UP = 1"

definition le_bytes :: "nat \<Rightarrow> 'a::len word \<Rightarrow> byte list" where
  "le_bytes n w = rev (be_bytes n w)"

definition le_word :: "byte list \<Rightarrow> 'a::len word" where
  "le_word bs = be_word (rev bs)"

text \<open>\<open>var ifr ifReq; copy(ifr[:], name)\<close>, and the words the code writes and reads after the name.\<close>

definition ifReq :: "byte list \<Rightarrow> byte list" where
  "ifReq name = go_copy (replicate 40 0) name"

definition put_after_name :: "byte list \<Rightarrow> byte list \<Rightarrow> byte list" where
  "put_after_name bs ifr = take IFNAMSIZ ifr @ bs @ drop (IFNAMSIZ + length bs) ifr"

definition after_name :: "nat \<Rightarrow> byte list \<Rightarrow> byte list" where
  "after_name n ifr = take n (drop IFNAMSIZ ifr)"

section \<open>The device\<close>

record tun =
  tun_name :: "byte list"
  tun_mtu :: int
  cacheTime :: int
  tun_index :: "32 word"
  tun_state :: bool

text \<open>The low byte of the flags is the first one.\<close>

definition changeState :: "'k ioctl \<Rightarrow> bool \<Rightarrow> bool \<Rightarrow> tun \<Rightarrow> 'k \<Rightarrow> dev_error option \<times> tun \<times> 'k" where
  "changeState io socket_ok state t k =
     (if tun_state t = state then (None, t, k)
      else if \<not> socket_ok then (Some SocketError, t, k)
      else
        let ifr = ifReq (tun_name t);
            flags = ifr ! IFNAMSIZ;
            ifr = ifr[IFNAMSIZ := (if state then or flags IFF_UP else and flags (not IFF_UP))]
        in case Ioctl io SIOCSIFFLAGS ifr k of
             (Some e, _, k) \<Rightarrow> (Some e, t, k)
           | (None, _, k) \<Rightarrow> (None, t\<lparr>tun_state := state\<rparr>, k))"

definition tun_Up :: "'k ioctl \<Rightarrow> bool \<Rightarrow> tun \<Rightarrow> 'k \<Rightarrow> dev_error option \<times> tun \<times> 'k" where
  "tun_Up io socket_ok t k = changeState io socket_ok True t k"

definition tun_Down :: "'k ioctl \<Rightarrow> bool \<Rightarrow> tun \<Rightarrow> 'k \<Rightarrow> dev_error option \<times> tun \<times> 'k" where
  "tun_Down io socket_ok t k = changeState io socket_ok False t k"

text \<open>
  \<open>getNameFromSys\<close>: the closure passed to \<open>Control\<close> drops the error of \<open>Ioctl\<close>, and \<open>errno\<close> is
  never assigned, so only \<open>Control\<close> itself can fail.
\<close>

definition getNameFromSys :: "'k ioctl \<Rightarrow> bool \<Rightarrow> tun \<Rightarrow> 'k \<Rightarrow> (dev_error + byte list) \<times> tun \<times> 'k" where
  "getNameFromSys io control_ok t k =
     (if \<not> control_ok then (Inl ControlError, t, k)
      else
        let (_, ifr, k) = Ioctl io TUNGETIFF (replicate 40 0) k;
            name = takeWhile (\<lambda>b. b \<noteq> 0) ifr
        in (Inr name, t\<lparr>tun_name := name\<rparr>, k))"

definition getMTUFromSys :: "'k ioctl \<Rightarrow> bool \<Rightarrow> tun \<Rightarrow> 'k \<Rightarrow> (dev_error + int) \<times> 'k" where
  "getMTUFromSys io socket_ok t k =
     (if \<not> socket_ok then (Inl SocketError, k)
      else case Ioctl io SIOCGIFMTU (ifReq (tun_name t)) k of
        (Some e, _, k) \<Rightarrow> (Inl e, k)
      | (None, ifr, k) \<Rightarrow> (Inr (sint (le_word (after_name 4 ifr) :: 32 word)), k))"

definition setMTU :: "'k ioctl \<Rightarrow> bool \<Rightarrow> int \<Rightarrow> tun \<Rightarrow> 'k \<Rightarrow> dev_error option \<times> 'k" where
  "setMTU io socket_ok n t k =
     (if \<not> socket_ok then (Some SocketError, k)
      else
        let ifr = put_after_name (le_bytes 4 (word_of_int n :: 32 word)) (ifReq (tun_name t));
            (e, _, k) = Ioctl io SIOCSIFMTU ifr k
        in (e, k))"

definition getIFIndex :: "'k ioctl \<Rightarrow> bool \<Rightarrow> tun \<Rightarrow> 'k \<Rightarrow> (dev_error + 32 word) \<times> 'k" where
  "getIFIndex io socket_ok t k =
     (if \<not> socket_ok then (Inl SocketError, k)
      else case Ioctl io SIOCGIFINDEX (ifReq (tun_name t)) k of
        (Some e, _, k) \<Rightarrow> (Inl e, k)
      | (None, ifr, k) \<Rightarrow> (Inr (le_word (after_name 4 ifr)), k))"

text \<open>The getters go to the kernel once the clock has passed \<open>cacheTime\<close>.\<close>

definition get_MTU :: "'k ioctl \<Rightarrow> bool \<Rightarrow> int \<Rightarrow> tun \<Rightarrow> 'k \<Rightarrow> (dev_error + int) \<times> 'k" where
  "get_MTU io socket_ok now t k =
     (if cacheTime t < now then getMTUFromSys io socket_ok t k else (Inr (tun_mtu t), k))"

definition get_Name :: "'k ioctl \<Rightarrow> bool \<Rightarrow> int \<Rightarrow> tun \<Rightarrow> 'k \<Rightarrow> (dev_error + byte list) \<times> tun \<times> 'k" where
  "get_Name io control_ok now t k =
     (if cacheTime t < now then getNameFromSys io control_ok t k else (Inr (tun_name t), t, k))"

text \<open>
  Reading, writing and closing are those of the file of the device, an argument; the addresses
  are set by the \<open>ip\<close> command, with the name the device has in \<open>tun\<close>.
\<close>

record ('k, 'e) os_file =
  file_Read :: "byte list \<Rightarrow> 'k \<Rightarrow> (int \<times> 'e option) \<times> byte list \<times> 'k"
  file_Write :: "byte list \<Rightarrow> 'k \<Rightarrow> (int \<times> 'e option) \<times> 'k"
  file_Close :: "'k \<Rightarrow> 'e option \<times> 'k"

definition dev_Read :: "('k, 'e) os_file \<Rightarrow> byte list \<Rightarrow> 'k \<Rightarrow> (int \<times> 'e option) \<times> byte list \<times> 'k" where
  "dev_Read tunFile buff k = file_Read tunFile buff k"

definition dev_Write :: "('k, 'e) os_file \<Rightarrow> byte list \<Rightarrow> 'k \<Rightarrow> (int \<times> 'e option) \<times> 'k" where
  "dev_Write tunFile buff k = file_Write tunFile buff k"

definition dev_Close :: "('k, 'e) os_file \<Rightarrow> 'k \<Rightarrow> 'e option \<times> 'k" where
  "dev_Close tunFile k = file_Close tunFile k"

definition dev_State :: "tun \<Rightarrow> bool" where
  "dev_State t = tun_state t"

definition AddAddress :: "'k shell \<Rightarrow> prefix \<Rightarrow> tun \<Rightarrow> 'k \<Rightarrow> exec_error option \<times> 'k" where
  "AddAddress sh addr t k = IP4AddAddr sh addr (map (char_of \<circ> unat) (tun_name t)) k"

definition FlushAddresses :: "'k shell \<Rightarrow> tun \<Rightarrow> 'k \<Rightarrow> exec_error option \<times> 'k" where
  "FlushAddresses sh t k = IP4FlushAddr sh (map (char_of \<circ> unat) (tun_name t)) k"

text \<open>\<open>CreateTUN\<close>: the first step that fails is the result; each call has its own outcome.\<close>

record outcomes =
  open_ok :: "dev_error option"
  nonblock_ok :: bool
  control_ok :: bool
  sockets_ok :: "bool \<times> bool \<times> bool"
  clock :: int

definition CreateTUN ::
  "'k ioctl \<Rightarrow> outcomes \<Rightarrow> byte list \<Rightarrow> int \<Rightarrow> 'k \<Rightarrow> (dev_error + tun) \<times> 'k" where
  "CreateTUN io o' name mtu k =
     (case open_ok o' of
        Some e \<Rightarrow> (Inl e, k)
      | None \<Rightarrow>
        if IFNAMSIZ \<le> length name then (Inl NameTooLong, k)
        else case Ioctl io TUNSETIFF (put_after_name [0x01, 0x11] (ifReq name)) k of
          (Some e, _, k) \<Rightarrow> (Inl e, k)
        | (None, _, k) \<Rightarrow>
          if \<not> nonblock_ok o' then (Inl ControlError, k)
          else
            let d = \<lparr>tun_name = [], tun_mtu = 0, cacheTime = clock o', tun_index = 0, tun_state = False\<rparr>;
                (s1, s2, s3) = sockets_ok o'
            in case getNameFromSys io (control_ok o') d k of
              (Inl e, _, k) \<Rightarrow> (Inl e, k)
            | (Inr _, d, k) \<Rightarrow>
              case getIFIndex io s1 d k of
                (Inl e, k) \<Rightarrow> (Inl e, k)
              | (Inr i, k) \<Rightarrow>
                let d = d\<lparr>tun_index := i\<rparr>
                in case setMTU io s2 mtu d k of
                  (Some e, k) \<Rightarrow> (Inl e, k)
                | (None, k) \<Rightarrow>
                  case getMTUFromSys io s3 d k of
                    (Inl e, k) \<Rightarrow> (Inl e, k)
                  | (Inr m, k) \<Rightarrow> (Inr (d\<lparr>tun_mtu := m\<rparr>), k))"

section \<open>Routes\<close>

text \<open>\<open>net.CIDRMask\<close>, and the mask of \<open>net.ParseCIDR(target.String())\<close>; an invalid prefix does not parse.\<close>

fun CIDRMask :: "nat \<Rightarrow> nat \<Rightarrow> byte list" where
  "CIDRMask ones 0 = []"
| "CIDRMask ones (Suc n) =
     (if 8 \<le> ones then 0xff # CIDRMask (ones - 8) n else push_bit (8 - ones) 0xff # CIDRMask 0 n)"

fun prefix_mask :: "prefix \<Rightarrow> byte list option" where
  "prefix_mask ZeroPrefix = None"
| "prefix_mask (Prefix a n) = (if n \<le> BitLen a then Some (CIDRMask n (BitLen a div 8)) else None)"

record rt_entry =
  rt_Dst :: "byte list"
  rt_GenMask :: "byte list"
  rt_Flags :: "16 word"
  rt_Dev :: "64 word"

definition AF_INET :: "16 word" where "AF_INET = 2"

definition RTF_UP :: "16 word" where "RTF_UP = 1"

text \<open>\<open>RawSockaddrInet4\<close>: family, port, address, padding; and the whole of \<open>RtEntry\<close> in memory.\<close>

definition sockaddr_in :: "16 word \<Rightarrow> byte list \<Rightarrow> byte list" where
  "sockaddr_in family addr = le_bytes 2 family @ [0, 0] @ addr @ replicate 8 0"

definition rt_bytes :: "rt_entry \<Rightarrow> byte list" where
  "rt_bytes rt = replicate 8 0 @ sockaddr_in AF_INET (rt_Dst rt) @ replicate 16 0 @
     sockaddr_in AF_INET (rt_GenMask rt) @ le_bytes 2 (rt_Flags rt) @ replicate 6 0 @ replicate 8 0 @
     replicate 16 0 @ le_bytes 8 (rt_Dev rt) @ replicate 24 0"

text \<open>The request of \<open>Add\<close> and \<open>Del\<close>: \<open>As4\<close> panics, and so does indexing a mask that is too short.\<close>

definition route_entry :: "prefix \<Rightarrow> 16 word \<Rightarrow> 64 word \<Rightarrow> (dev_error + rt_entry) option" where
  "route_entry target flags dev =
     (case prefix_mask target of
        None \<Rightarrow> Some (Inl CidrError)
      | Some m \<Rightarrow> do {
          addr \<leftarrow> As4 (prefix_Addr target);
          Some (Inr \<lparr>rt_Dst = addr, rt_GenMask = take 4 m, rt_Flags = flags, rt_Dev = dev\<rparr>)
        })"

text \<open>The address of the device name in memory is an argument.\<close>

definition route_Add :: "'k ioctl \<Rightarrow> bool \<Rightarrow> 64 word \<Rightarrow> prefix \<Rightarrow> 'k \<Rightarrow> (dev_error option \<times> 'k) option" where
  "route_Add io socket_ok devName target k =
     (if \<not> socket_ok then Some (Some SocketError, k)
      else do {
        r \<leftarrow> route_entry target RTF_UP devName;
        Some (case r of
                Inl e \<Rightarrow> (Some e, k)
              | Inr rt \<Rightarrow> let (e, _, k) = Ioctl io SIOCADDRT (rt_bytes rt) k in (e, k))
      })"

definition route_Del :: "'k ioctl \<Rightarrow> bool \<Rightarrow> prefix \<Rightarrow> 'k \<Rightarrow> (dev_error option \<times> 'k) option" where
  "route_Del io socket_ok target k =
     (if \<not> socket_ok then Some (Some SocketError, k)
      else do {
        r \<leftarrow> route_entry target 0 0;
        Some (case r of
                Inl e \<Rightarrow> (Some e, k)
              | Inr rt \<Rightarrow> let (e, _, k) = Ioctl io SIOCDELRT (rt_bytes rt) k in (e, k))
      })"

end
