(* ===== verification/DeviceLinuxCorrect.thy ===== *)
theory DeviceLinuxCorrect
  imports DeviceLinux
begin

text \<open>
  The requests to the Linux kernel: what the bytes of a route request say, that the MTU written is the
  MTU read, what changing the state of the device sends, and the error that is lost on the way.
\<close>

section \<open>Words in little-endian order\<close>

lemma length_le_bytes [simp]: "length (le_bytes n w) = n"
  by (simp add: le_bytes_def)

lemma length_ifReq [simp]: "length (ifReq name) = 40"
  by (simp add: ifReq_def)

lemma ifReq_name: "length name \<le> 40 \<Longrightarrow> ifReq name = name @ replicate (40 - length name) 0"
  by (simp add: ifReq_def go_copy_short)

lemma after_put: "length ifr = 40 \<Longrightarrow> length bs \<le> 24 \<Longrightarrow> after_name (length bs) (put_after_name bs ifr) = bs"
  by (simp add: after_name_def put_after_name_def IFNAMSIZ_def)

lemma take_put: "length ifr = 40 \<Longrightarrow> take IFNAMSIZ (put_after_name bs ifr) = take IFNAMSIZ ifr"
  by (simp add: put_after_name_def IFNAMSIZ_def)

section \<open>Masks\<close>

lemma CIDRMask_word:
  assumes "n \<le> 32"
  shows "be_word (CIDRMask n 4) = push_bit (32 - n) (- 1 :: 32 word)" "length (CIDRMask n 4) = 4"
proof -
  have "list_all (\<lambda>n. be_word (CIDRMask n 4) = push_bit (32 - n) (- 1 :: 32 word) \<and> length (CIDRMask n 4) = 4) [0..<33]"
    by code_simp
  then have "\<forall>n\<in>{0..<33}. be_word (CIDRMask n 4) = push_bit (32 - n) (- 1 :: 32 word) \<and> length (CIDRMask n 4) = 4"
    by (simp only: list_all_iff set_upt)
  with assms show "be_word (CIDRMask n 4) = push_bit (32 - n) (- 1 :: 32 word)" "length (CIDRMask n 4) = 4" by auto
qed

lemma le_word_bytes: "8 * n = LENGTH('a) \<Longrightarrow> le_word (le_bytes n (w :: 'a::len word)) = w"
  by (simp add: le_word_def le_bytes_def be_word_bytes)

section \<open>Properties\<close>

text \<open>C39. The route request: for a valid IPv4 prefix the 120 bytes that Add passes to the kernel carry
  the address, a mask with exactly as many leading ones as the prefix has bits, and the flag for a
  route that is up; the host bits of the prefix stay in the destination, and those the kernel must find
  zero are exactly them. An IPv6 prefix panics instead (unless its address is 4-in-6), an invalid one is
  an error.\<close>

theorem route_request:
  "(\<forall>w n. n \<le> 32 \<longrightarrow> (\<exists>rt. route_entry (Prefix (Addr4 w) n) RTF_UP dev = Some (Inr rt) \<and>
      be_word (rt_Dst rt) = w \<and> be_word (rt_GenMask rt) = push_bit (32 - n) (- 1 :: 32 word) \<and>
      and (be_word (rt_Dst rt)) (not (be_word (rt_GenMask rt))) = take_bit (32 - n) w \<and>
      rt_Flags rt = 1 \<and> length (rt_bytes rt) = 120 \<and> take 4 (drop 12 (rt_bytes rt)) = rt_Dst rt \<and>
      take 4 (drop 44 (rt_bytes rt)) = rt_GenMask rt)) \<and>
   (\<forall>w z n. n \<le> 128 \<longrightarrow> \<not> Is4In6 (Addr6 w z) \<longrightarrow> route_entry (Prefix (Addr6 w z) n) RTF_UP dev = None) \<and>
   route_entry ZeroPrefix RTF_UP dev = Some (Inl CidrError)"
proof (intro conjI allI impI)
  fix w :: "32 word" and n :: nat assume n: "n \<le> 32"
  let ?rt = "\<lparr>rt_Dst = be_bytes 4 w, rt_GenMask = CIDRMask n 4, rt_Flags = RTF_UP, rt_Dev = dev\<rparr>"
  note mask = CIDRMask_word [OF n]
  have "route_entry (Prefix (Addr4 w) n) RTF_UP dev = Some (Inr ?rt)"
    using n mask(2) by (simp add: route_entry_def)
  moreover have "be_word (rt_Dst ?rt) = w" by (simp add: be_word_bytes)
  moreover have "and w (not (push_bit (32 - n) (- 1 :: 32 word))) = take_bit (32 - n) w"
    by (rule bit_word_eqI) (auto simp: bit_simps)
  moreover have "length (rt_bytes ?rt) = 120" "take 4 (drop 12 (rt_bytes ?rt)) = rt_Dst ?rt"
    "take 4 (drop 44 (rt_bytes ?rt)) = rt_GenMask ?rt"
    using mask(2) by (simp_all add: rt_bytes_def sockaddr_in_def)
  ultimately show "\<exists>rt. route_entry (Prefix (Addr4 w) n) RTF_UP dev = Some (Inr rt) \<and>
      be_word (rt_Dst rt) = w \<and> be_word (rt_GenMask rt) = push_bit (32 - n) (- 1 :: 32 word) \<and>
      and (be_word (rt_Dst rt)) (not (be_word (rt_GenMask rt))) = take_bit (32 - n) w \<and>
      rt_Flags rt = 1 \<and> length (rt_bytes rt) = 120 \<and> take 4 (drop 12 (rt_bytes rt)) = rt_Dst rt \<and>
      take 4 (drop 44 (rt_bytes rt)) = rt_GenMask rt"
    using mask by (intro exI [of _ ?rt]) (simp add: RTF_UP_def)
next
  fix w :: "128 word" and z n assume "n \<le> (128::nat)" "\<not> Is4In6 (Addr6 w z)"
  then show "route_entry (Prefix (Addr6 w z) n) RTF_UP dev = None" by (simp add: route_entry_def)
qed (simp add: route_entry_def)

theorem route_request_witness:
  "\<exists>rt. route_entry (Prefix (Addr4 0xC0A8A801) 24) RTF_UP 0 = Some (Inr rt) \<and>
     and (be_word (rt_Dst rt)) (not (be_word (rt_GenMask rt))) = (1 :: 32 word) \<and>
     route_entry (Prefix (Addr6 1 []) 64) RTF_UP 0 = None"
proof -
  have "(24::nat) \<le> 32" "(64::nat) \<le> 128" by simp_all
  moreover have "\<not> Is4In6 (Addr6 1 [])" by code_simp
  moreover have "take_bit (32 - 24) (0xC0A8A801 :: 32 word) = 1" by code_simp
  ultimately show ?thesis using route_request [of 0] by metis
qed

text \<open>The MTU that was set is the MTU that is read: for a kernel that keeps one MTU per device name,
  setMTU followed by getMTUFromSys returns the number, as a signed 32-bit integer.\<close>

theorem setMTU_then_getMTU:
  assumes set: "\<And>ifr k ifr' k'. io SIOCSIFMTU ifr k = (0, ifr', k') \<Longrightarrow>
      mtu_of k' (take IFNAMSIZ ifr) = le_word (after_name 4 ifr)"
    and get: "\<And>ifr k ifr' k'. io SIOCGIFMTU ifr k = (0, ifr', k') \<Longrightarrow>
      after_name 4 ifr' = le_bytes 4 (mtu_of k (take IFNAMSIZ ifr) :: 32 word)"
    and ok: "setMTU io True n t k = (None, k')" "getMTUFromSys io True t k' = (Inr m, k'')"
  shows "m = signed_take_bit 31 n"
proof -
  let ?ifr = "put_after_name (le_bytes 4 (word_of_int n :: 32 word)) (ifReq (tun_name t))"
  have bytes: "after_name 4 ?ifr = le_bytes 4 (word_of_int n :: 32 word)"
    using after_put [of "ifReq (tun_name t)" "le_bytes 4 (word_of_int n :: 32 word)"] by simp
  from ok(1) obtain ifr' where "io SIOCSIFMTU ?ifr k = (0, ifr', k')"
    by (auto simp: setMTU_def Ioctl_def Let_def split: prod.splits if_splits)
  from set [OF this] have mtu: "mtu_of k' (take IFNAMSIZ (ifReq (tun_name t))) = word_of_int n"
    by (simp add: bytes take_put le_word_bytes)
  from ok(2) obtain ifr2 where "io SIOCGIFMTU (ifReq (tun_name t)) k' = (0, ifr2, k'')"
    "m = sint (le_word (after_name 4 ifr2) :: 32 word)"
    by (auto simp: getMTUFromSys_def Ioctl_def Let_def split: prod.splits if_splits)
  with get mtu have "m = sint (word_of_int n :: 32 word)" by (simp add: le_word_bytes)
  then show ?thesis by (simp add: signed_of_int)
qed

text \<open>A kernel with MTUs only.\<close>

definition mtu_kernel :: "(byte list \<Rightarrow> 32 word) ioctl" where
  "mtu_kernel r ifr k =
     (case r of
        SIOCSIFMTU \<Rightarrow> (0, ifr, k(take IFNAMSIZ ifr := le_word (after_name 4 ifr)))
      | SIOCGIFMTU \<Rightarrow> (0, put_after_name (le_bytes 4 (k (take IFNAMSIZ ifr))) (ifReq (take IFNAMSIZ ifr)), k)
      | _ \<Rightarrow> (1, ifr, k))"

definition demo_tun :: tun where
  "demo_tun = \<lparr>tun_name = [0x68], tun_mtu = 0, cacheTime = 0, tun_index = 0, tun_state = False\<rparr>"

theorem setMTU_then_getMTU_witness:
  "\<exists>k m. setMTU mtu_kernel True 1420 demo_tun (\<lambda>_. 0) = (None, k) \<and> getMTUFromSys mtu_kernel True demo_tun k = (Inr m, k) \<and> m = 1420"
proof -
  obtain k where k: "setMTU mtu_kernel True 1420 demo_tun (\<lambda>_. 0) = (None, k)"
    by (auto simp: setMTU_def Ioctl_def mtu_kernel_def Let_def)
  obtain m where m: "getMTUFromSys mtu_kernel True demo_tun k = (Inr m, k)"
    by (auto simp: getMTUFromSys_def Ioctl_def mtu_kernel_def Let_def)
  have "m = signed_take_bit 31 1420"
  proof (rule setMTU_then_getMTU [where mtu_of = "\<lambda>k. k", OF _ _ k m])
    show "io_k (take IFNAMSIZ ifr) = le_word (after_name 4 ifr)" if "mtu_kernel SIOCSIFMTU ifr k = (0, ifr', io_k)" for ifr k ifr' io_k
      using that by (auto simp: mtu_kernel_def)
    show "after_name 4 ifr' = le_bytes 4 (k (take IFNAMSIZ ifr))" if "mtu_kernel SIOCGIFMTU ifr k = (0, ifr', k')" for ifr k ifr' k'
      using that after_put [of "ifReq (take IFNAMSIZ ifr)" "le_bytes 4 (k (take IFNAMSIZ ifr))"] by (auto simp: mtu_kernel_def)
  qed
  then show ?thesis using k m by simp
qed

text \<open>What changing the state sends: nothing when the device is in the state already; otherwise one
  request, whose name field is the device's name (if it fits) and whose flags are exactly IFF_UP to
  start and none to stop, whatever flags the interface had. The recorded state changes only when the
  kernel accepted it.\<close>

theorem changeState_request:
  assumes "length (tun_name t) \<le> IFNAMSIZ"
  shows "changeState io True b t k =
     (if tun_state t = b then (None, t, k)
      else case io SIOCSIFFLAGS (take IFNAMSIZ (ifReq (tun_name t)) @ (if b then IFF_UP else 0) # replicate 23 0) k of
        (errno, _, k) \<Rightarrow> (if errno = 0 then (None, t\<lparr>tun_state := b\<rparr>, k) else (Some (SyscallError errno), t, k)))"
proof -
  have name: "ifReq (tun_name t) = take IFNAMSIZ (ifReq (tun_name t)) @ 0 # replicate 23 0"
  proof -
    have "drop IFNAMSIZ (ifReq (tun_name t)) = replicate 24 0"
      using assms by (simp add: ifReq_name IFNAMSIZ_def)
    then have "ifReq (tun_name t) = take IFNAMSIZ (ifReq (tun_name t)) @ replicate 24 0"
      by (metis append_take_drop_id)
    then show ?thesis by (simp add: eval_nat_numeral)
  qed
  have len: "length (take IFNAMSIZ (ifReq (tun_name t))) = IFNAMSIZ" by (simp add: IFNAMSIZ_def)
  let ?p = "take IFNAMSIZ (ifReq (tun_name t))"
  have flags: "ifReq (tun_name t) ! IFNAMSIZ = 0"
    by (subst name) (use len in \<open>simp add: nth_append\<close>)
  have send: "(ifReq (tun_name t))[IFNAMSIZ := x] = ?p @ x # replicate 23 0" for x :: byte
    by (subst name) (use len in \<open>simp add: list_update_append\<close>)
  obtain errno ifr k' where io: "io SIOCSIFFLAGS (?p @ (if b then IFF_UP else 0) # replicate 23 0) k = (errno, ifr, k')"
    by (metis prod_cases3)
  have byte: "(if b then or 0 IFF_UP else and 0 (not IFF_UP)) = (if b then IFF_UP else 0)" by simp
  show ?thesis
    unfolding changeState_def Let_def Ioctl_def flags byte send io by simp
qed

theorem changeState_request_witness:
  "changeState mtu_kernel True True demo_tun (\<lambda>_. 0) = (Some (SyscallError 1), demo_tun, (\<lambda>_. 0))"
proof -
  have "length (tun_name demo_tun) \<le> IFNAMSIZ" by (simp add: demo_tun_def IFNAMSIZ_def)
  from changeState_request [OF this, of mtu_kernel True "\<lambda>_. 0"] show ?thesis
    by (simp add: mtu_kernel_def demo_tun_def)
qed

text \<open>An error of the kernel in TUNGETIFF is not seen: the name becomes empty.\<close>

lemma getNameFromSys_hides_errors:
  assumes "io TUNGETIFF (replicate 40 0) k = (errno, replicate 40 0, k')"
  shows "getNameFromSys io True t k = (Inr [], t\<lparr>tun_name := []\<rparr>, k')"
  using assms by (simp add: getNameFromSys_def Ioctl_def takeWhile_eq_Nil_iff)

text \<open>CreateTUN never refreshes the cache time, so later readings of MTU and name go to the kernel.\<close>

lemma CreateTUN_cacheTime: "CreateTUN io v name mtu k = (Inr t, k') \<Longrightarrow> cacheTime t = clock v"
  by (auto simp: CreateTUN_def getNameFromSys_def Let_def split: option.splits if_splits prod.splits sum.splits)

end
