(* ===== verification/Startup.thy ===== *)
theory Startup
  imports Config Logging CommandCorrect DeviceLinuxCorrect
begin

text \<open>
  Start-up: the constructor \<open>engine.Run\<close> and the method \<open>Engine.Run\<close> of \<open>core/engine/engine.go\<close>, with
  \<open>EnableDHT\<close> and \<open>EnableMdns\<close>, on the configuration of \<open>Config\<close>, the loggers of \<open>Logging\<close> and the
  device and routes of \<open>DeviceLinux\<close>. What they do, in order, is the list of effects; the outcomes of
  libp2p's calls are fields of \<open>world\<close>.
\<close>

section \<open>The constructor\<close>

datatype 'a relay_option = StaticRelays "'a list" | RelaySource | NoRelays

record ('k, 'a, 'lvl) engine_host =
  engine_log :: "'lvl logger"
  identity :: 'k
  relay_option :: "'a relay_option"

datatype start_error = KeyFailed | HostFailed | DhtFailed | TunFailed dev_error | NameFailed | AddressFailed exec_error | UpFailed dev_error

text \<open>Relays that do not parse are skipped; the relay source is used only without configured relays.\<close>

definition relay_options :: "(string \<Rightarrow> 'a option) \<Rightarrow> config \<Rightarrow> 'a relay_option" where
  "relay_options AddrInfoFromString c =
     (if Relays c \<noteq> [] then StaticRelays (List.map_filter AddrInfoFromString (Relays c))
      else if EnableAutoRelay c then RelaySource
      else NoRelays)"

text \<open>
  The package's list of log configurations grows by those of the configuration; making the
  logger can panic. \<open>None\<close> is a panic.
\<close>

definition engine_Run_new ::
  "'lvl zap \<Rightarrow> core_config list \<Rightarrow> 'k crypto \<Rightarrow> (string \<Rightarrow> 'a option) \<Rightarrow> bool \<Rightarrow> bool \<Rightarrow> config \<Rightarrow>
   (start_error + ('k, 'a, 'lvl) engine_host) option" where
  "engine_Run_new z coreConfigs lib AddrInfoFromString host_ok dht_ok c = do {
     logger \<leftarrow> mlog_New z (SetOutputTypes (LogConfigs c) coreConfigs) ''engine'';
     pk \<leftarrow> PrivKey lib (PrivateKey c);
     Some (case pk of
             Inl e \<Rightarrow> Inl KeyFailed
           | Inr k \<Rightarrow>
               if \<not> host_ok then Inl HostFailed
               else if \<not> dht_ok then Inl DhtFailed
               else Inr \<lparr>engine_log = logger, identity = k, relay_option = relay_options AddrInfoFromString c\<rparr>)
   }"

section \<open>\<open>Engine.Run\<close>\<close>

datatype effect =
    Created tun
  | Addressed prefix
  | UpDone
  | Stored string prefix
  | Routed prefix
  | RouteFailed prefix dev_error
  | DhtStarted
  | MdnsCreated
  | MdnsStarted
  | RelayFinderStarted
  | HandlerSet
  | Started string








section \<open>What start-up guarantees\<close>



fun stored :: "effect list \<Rightarrow> (string \<times> prefix) list" where
  "stored [] = []"
| "stored (Stored i p # es) = (i, p) # stored es"
| "stored (_ # es) = stored es"

lemma stored_append [simp]: "stored (xs @ ys) = stored xs @ stored ys"
  by (induction xs rule: stored.induct) simp_all




section \<open>Properties\<close>







end
