(* ===== verification/CommandLine.thy ===== *)
theory CommandLine
  imports Startup ConfigCorrect
begin

text \<open>
  \<open>cmd/main.go\<close>: the command line with its one flag, and \<open>main\<close>, which composes loading the
  configuration, the engine's constructor and \<open>Engine.Run\<close>; how the process ends, and what a
  restart keeps. \<open>flag.Parse\<close> is modelled as the standard library has it.
\<close>

section \<open>The flag \<open>-config\<close>\<close>

datatype flag_error = BadSyntax string | NotDefined string | NeedsArgument string

datatype flag_result = FlagsOk string "string list" | HelpAsked | FlagError flag_error

text \<open>A flag's name and the value after its first equals sign.\<close>

definition split_flag :: "string \<Rightarrow> string \<times> string option" where
  "split_flag s =
     (case dropWhile (\<lambda>c. c \<noteq> CHR ''='') s of
        [] \<Rightarrow> (s, None)
      | _ # v \<Rightarrow> (takeWhile (\<lambda>c. c \<noteq> CHR ''='') s, Some v))"

text \<open>The first argument is the value of \<open>config\<close> so far; what follows the flags is left over.\<close>

fun parse_flags :: "string \<Rightarrow> string list \<Rightarrow> flag_result" where
  "parse_flags config [] = FlagsOk config []"
| "parse_flags config (s # args) =
     (if length s < 2 \<or> hd s \<noteq> CHR ''-'' then FlagsOk config (s # args)
      else if s = ''--'' then FlagsOk config args
      else
        let name = (if s ! 1 = CHR ''-'' then drop 2 s else drop 1 s)
        in if name = [] \<or> hd name = CHR ''-'' \<or> hd name = CHR ''='' then FlagError (BadSyntax s)
           else
             let (name, value) = split_flag name
             in if name \<noteq> ''config'' then
                  (if name = ''help'' \<or> name = ''h'' then HelpAsked else FlagError (NotDefined name))
                else
                  case value of
                    Some v \<Rightarrow> parse_flags v args
                  | None \<Rightarrow>
                    (case args of
                       [] \<Rightarrow> FlagError (NeedsArgument name)
                     | v # rest \<Rightarrow> parse_flags v rest))"

definition default_config_path :: string where
  "default_config_path = ''/var/lib/NetHive/config.json''"

definition parse :: "string list \<Rightarrow> flag_result" where
  "parse args = parse_flags default_config_path args"

section \<open>\<open>main\<close>\<close>





section \<open>The flag's forms\<close>

lemma split_flag_value: "split_flag (''config='' @ p) = (''config'', Some p)"
  by (simp add: split_flag_def)

lemma split_flag_plain: "split_flag ''config'' = (''config'', None)"
  by (simp add: split_flag_def)

text \<open>Both dashes and both ways to give the value; the last flag before the first other argument counts.\<close>

lemma parse_config:
  "parse_flags c (''-config'' # p # args) = parse_flags p args"
  "parse_flags c (''--config'' # p # args) = parse_flags p args"
  "parse_flags c ((''-config='' @ p) # args) = parse_flags p args"
  "parse_flags c ((''--config='' @ p) # args) = parse_flags p args"
  using split_flag_value [of p] by (simp_all add: split_flag_plain Let_def)

lemma parse_default: "parse [] = FlagsOk default_config_path []"
  by (simp add: parse_def)

section \<open>How the process ends\<close>




section \<open>Restarting\<close>







end
