(* ===== verification/Windows.thy ===== *)
theory Windows
  imports DeviceLinuxCorrect
begin

text \<open>
  The Windows side: \<open>pkgs/win\<close> (socket addresses in memory, the address rows of an interface) and the
  loops of \<open>core/device/tun_windows.go\<close> around the wintun driver. A system call is an argument: it
  gets its arguments and returns its status; what the driver returns call by call is a list.
\<close>

section \<open>Socket addresses\<close>

definition be2se :: "16 word \<Rightarrow> 16 word" where
  "be2se i = or (and (drop_bit 8 i) 0xFF) (push_bit 8 (and i 0xFF))"

definition se2be :: "16 word \<Rightarrow> 16 word" where
  "se2be i = or (and (drop_bit 8 i) 0xFF) (push_bit 8 (and i 0xFF))"

definition AF_INET6 :: "16 word" where "AF_INET6 = 23"

text \<open>\<open>strconv.ParseUint(z, 10, 32)\<close>: decimal digits only, and in range.\<close>

definition ParseUint32 :: "string \<Rightarrow> 32 word option" where
  "ParseUint32 z =
     (let ds = map (\<lambda>c. of_char c :: nat) z;
          n = foldl (\<lambda>a d. 10 * a + (d - 48)) 0 ds
      in if z \<noteq> [] \<and> list_all (\<lambda>d. 48 \<le> d \<and> d \<le> 57) ds \<and> n < 2 ^ 32 then Some (of_nat n) else None)"

text \<open>
  \<open>SockAddrInet\<close>, 28 bytes: the family, then the fields of the IPv4 or of the IPv6 form over the same
  memory. \<open>None\<close> is \<open>ERROR_INVALID_PARAMETER\<close>, which leaves the memory as it was.
\<close>

definition SetAddrPort :: "addrport \<Rightarrow> byte list \<Rightarrow> byte list option" where
  "SetAddrPort ap s =
     (case ap_addr ap of
        Addr4 w \<Rightarrow>
          Some (le_bytes 2 AF_INET @ le_bytes 2 (be2se (ap_port ap)) @ be_bytes 4 w @ replicate 8 0 @ drop 16 s)
      | Addr6 w z \<Rightarrow>
          let scope = (case ParseUint32 z of Some n \<Rightarrow> n | None \<Rightarrow> 0)
          in Some (le_bytes 2 AF_INET6 @ le_bytes 2 (be2se (ap_port ap)) @ replicate 4 0 @ be_bytes 16 w @
               le_bytes 4 scope @ drop 28 s)
      | ZeroAddr \<Rightarrow> None)"

section \<open>Address rows\<close>

record address_row =
  row_Address :: "byte list"
  InterfaceLUID :: "64 word"
  ValidLifetime :: "32 word"
  PreferredLifetime :: "32 word"
  OnLinkPrefixLength :: "8 word"
  DadState :: "32 word"

datatype win_error = Errno nat | InvalidParameter

text \<open>The calls an operation makes, in order; the first argument of \<open>sys\<close> is the procedure.\<close>

datatype win_call = InitRow | GetTable | DeleteRow address_row | FreeTable

definition SyscallOnlyReturnError :: "nat \<Rightarrow> win_error option" where
  "SyscallOnlyReturnError r0 = (if r0 \<noteq> 0 then Some (Errno r0) else None)"

text \<open>
  \<open>syscall.SyscallN\<close> passes its arguments as they are; the kernel's answer is an argument of the
  definitions. Pointers are addresses. The first number in each list is a count that the
  procedures do not expect.
\<close>

datatype win_proc =
    InitializeUnicastIpAddressEntry | GetUnicastIpAddressTable | DeleteUnicastIpAddressEntry | FreeMibTable

type_synonym 'k syscalls = "win_proc \<Rightarrow> 64 word list \<Rightarrow> 'k \<Rightarrow> nat \<times> 'k"

definition initializeUnicastIPAddressEntry :: "'k syscalls \<Rightarrow> 64 word \<Rightarrow> 'k \<Rightarrow> win_error option \<times> 'k" where
  "initializeUnicastIPAddressEntry sys row k =
     (let (r0, k) = sys InitializeUnicastIpAddressEntry [1, row] k in (SyscallOnlyReturnError r0, k))"

definition getUnicastIPAddressTable :: "'k syscalls \<Rightarrow> 64 word \<Rightarrow> 'k \<Rightarrow> win_error option \<times> 'k" where
  "getUnicastIPAddressTable sys tab k =
     (let (r0, k) = sys GetUnicastIpAddressTable [2, 0, tab] k in (SyscallOnlyReturnError r0, k))"

definition deleteUnicastIPAddressEntry :: "'k syscalls \<Rightarrow> 64 word \<Rightarrow> 'k \<Rightarrow> win_error option \<times> 'k" where
  "deleteUnicastIPAddressEntry sys row k =
     (let (r0, k) = sys DeleteUnicastIpAddressEntry [1, row] k in (SyscallOnlyReturnError r0, k))"

definition freeMibTable :: "'k syscalls \<Rightarrow> 64 word \<Rightarrow> 'k \<Rightarrow> 'k" where
  "freeMibTable sys memory k = snd (sys FreeMibTable [1, memory] k)"

text \<open>
  The table is a struct with room for one row; \<open>Rows\<close> is a slice of as many rows as the count
  says, so the rows after the first are whatever the memory behind the struct holds.
\<close>

record address_table =
  NumEntries :: "32 word"
  first_row :: address_row

definition Rows :: "address_table \<Rightarrow> address_row list \<Rightarrow> address_row list" where
  "Rows m behind = take (unat (NumEntries m)) (first_row m # behind)"

definition NldsPreferred :: "32 word" where "NldsPreferred = 4"

text \<open>\<open>init\<close> is what \<open>InitializeUnicastIpAddressEntry\<close> returned and left in the row.\<close>

definition AddIPAddress ::
  "nat \<times> address_row \<Rightarrow> 64 word \<Rightarrow> prefix \<Rightarrow> win_call list \<times> (win_error + address_row)" where
  "AddIPAddress init i address =
     ([InitRow],
      case SyscallOnlyReturnError (fst init) of
        Some e \<Rightarrow> Inl e
      | None \<Rightarrow>
        case SetAddrPort (AddrPort (prefix_Addr address) 0) (row_Address (snd init)) of
          None \<Rightarrow> Inl InvalidParameter
        | Some a \<Rightarrow> Inr ((snd init)\<lparr>row_Address := a, InterfaceLUID := i, ValidLifetime := 0xffffffff,
            PreferredLifetime := 0xffffffff, OnLinkPrefixLength := word_of_int (prefix_Bits address),
            DadState := NldsPreferred\<rparr>))"

definition FlushAddress :: "nat \<times> address_row list \<Rightarrow> 64 word \<Rightarrow> win_call list \<times> win_error option" where
  "FlushAddress table i =
     (case SyscallOnlyReturnError (fst table) of
        Some e \<Rightarrow> ([GetTable], Some e)
      | None \<Rightarrow> (GetTable # map DeleteRow (filter (\<lambda>row. InterfaceLUID row = i) (snd table)) @ [FreeTable], None))"

section \<open>The wintun device\<close>

datatype receive = Packet "byte list" | NoMoreItems | InvalidData | OtherFailure

datatype send = Allocated | HandleEof | BufferOverflow | SendFailure

datatype win_io_error = RingCorrupt | ReadFailed | ErrClosed | WriteFailed

text \<open>
  \<open>Read\<close> asks the driver again while there is no packet: the result is \<open>None\<close> while the list of the
  driver's answers is used up, otherwise the size and the buffer, or the error.
\<close>

fun tun_Read :: "receive list \<Rightarrow> byte list \<Rightarrow> (win_io_error + nat \<times> byte list) option" where
  "tun_Read [] buff = None"
| "tun_Read (Packet p # rs) buff = Some (Inr (length p, go_copy buff p))"
| "tun_Read (NoMoreItems # rs) buff = tun_Read rs buff"
| "tun_Read (InvalidData # rs) buff = Some (Inl RingCorrupt)"
| "tun_Read (OtherFailure # rs) buff = Some (Inl ReadFailed)"

fun tun_Write :: "send list \<Rightarrow> byte list \<Rightarrow> (win_io_error + nat \<times> byte list) option" where
  "tun_Write [] buff = None"
| "tun_Write (Allocated # rs) buff = Some (Inr (length buff, go_copy (replicate (length buff) 0) buff))"
| "tun_Write (HandleEof # rs) buff = Some (Inl ErrClosed)"
| "tun_Write (BufferOverflow # rs) buff = tun_Write rs buff"
| "tun_Write (SendFailure # rs) buff = Some (Inl WriteFailed)"

record win_tun =
  wt_name :: string
  wt_mtu :: int
  wt_state :: bool

definition win_CreateTUN :: "bool \<Rightarrow> bool \<Rightarrow> string \<Rightarrow> int \<Rightarrow> win_tun option" where
  "win_CreateTUN adapter_ok session_ok name mtu =
     (if \<not> adapter_ok \<or> \<not> session_ok then None
      else Some \<lparr>wt_name = name, wt_mtu = (if mtu \<le> 0 then 1420 else mtu), wt_state = False\<rparr>)"

definition win_Up :: "win_tun \<Rightarrow> win_tun" where "win_Up t = t\<lparr>wt_state := True\<rparr>"

definition win_Down :: "win_tun \<Rightarrow> win_tun" where "win_Down t = t\<lparr>wt_state := False\<rparr>"

definition win_State :: "win_tun \<Rightarrow> bool" where "win_State t = wt_state t"

definition win_MTU :: "win_tun \<Rightarrow> int" where "win_MTU t = wt_mtu t"

definition win_Name :: "win_tun \<Rightarrow> string" where "win_Name t = wt_name t"

text \<open>Closing is the adapter's; the addresses go to the interface of the adapter's \<open>LUID\<close>.\<close>

definition win_Close :: "('k \<Rightarrow> 'e option \<times> 'k) \<Rightarrow> 'k \<Rightarrow> 'e option \<times> 'k" where
  "win_Close adapter_Close k = adapter_Close k"

definition win_AddAddress ::
  "nat \<times> address_row \<Rightarrow> 64 word \<Rightarrow> prefix \<Rightarrow> win_call list \<times> win_error option" where
  "win_AddAddress init LUID addr =
     (case AddIPAddress init LUID addr of
        (calls, Inl e) \<Rightarrow> (calls, Some e)
      | (calls, Inr row) \<Rightarrow> (calls, None))"

definition win_FlushAddress :: "nat \<times> address_row list \<Rightarrow> 64 word \<Rightarrow> win_call list \<times> win_error option" where
  "win_FlushAddress table LUID = FlushAddress table LUID"

section \<open>What they do\<close>

lemma be2se_bits: "be2se i = or (take_bit 8 (drop_bit 8 i)) (push_bit 8 (take_bit 8 i))"
  by (simp add: be2se_def take_bit_eq_mask mask_eq_exp_minus_1)

lemma se2be_be2se: "se2be = be2se"
  by (simp add: fun_eq_iff se2be_def be2se_def)

lemma be2se_involution: "be2se (be2se i) = i"
  unfolding be2se_bits by (rule bit_word_eqI) (auto simp: bit_simps)

text \<open>The port goes to memory in network byte order.\<close>

lemma be2se_network_order: "le_bytes 2 (be2se p) = be_bytes 2 p"
proof -
  have "le_bytes 2 (be2se p) = [ucast (be2se p), ucast (drop_bit 8 (be2se p))]"
    by (simp add: le_bytes_def numeral_2_eq_2)
  also have "ucast (be2se p) = (ucast (drop_bit 8 p) :: byte)"
    unfolding be2se_bits by (rule bit_word_eqI) (auto simp: bit_simps)
  also have "ucast (drop_bit 8 (be2se p)) = (ucast p :: byte)"
    unfolding be2se_bits by (rule bit_word_eqI) (auto simp: bit_simps)
  finally show ?thesis by (simp add: numeral_2_eq_2)
qed

lemma SetAddrPort_layout:
  assumes "length s = 28" "SetAddrPort ap s = Some s'"
  shows "length s' = 28" "take 2 (drop 2 s') = be_bytes 2 (ap_port ap)"
    "ap_addr ap = Addr4 w \<Longrightarrow> take 4 (drop 4 s') = be_bytes 4 w \<and> drop 16 s' = drop 16 s"
    "ap_addr ap = Addr6 v z \<Longrightarrow> take 16 (drop 8 s') = be_bytes 16 v"
  using assms by (auto simp: SetAddrPort_def be2se_network_order Let_def split: ipaddr.splits)

text \<open>The row is filled in and dropped: no call creates the address.\<close>

lemma AddIPAddress_only_initializes: "fst (AddIPAddress init i address) = [InitRow]"
  by (simp add: AddIPAddress_def)

lemma FlushAddress_deletes:
  "fst table = 0 \<Longrightarrow> DeleteRow row \<in> set (fst (FlushAddress table i)) \<longleftrightarrow> row \<in> set (snd table) \<and> InterfaceLUID row = i"
  by (auto simp: FlushAddress_def SyscallOnlyReturnError_def)

text \<open>A packet longer than the buffer is cut, but its full size is reported.\<close>

lemma tun_Read_result:
  "tun_Read rs buff = Some (Inr (n, b)) \<Longrightarrow> \<exists>p. Packet p \<in> set rs \<and> n = length p \<and> b = go_copy buff p \<and> length b = length buff"
  by (induction rs buff rule: tun_Read.induct) auto

text \<open>An address of a valid prefix is accepted without an error and still not created.\<close>

lemma win_AddAddress_result:
  assumes "fst init = 0" "prefix_Addr addr \<noteq> ZeroAddr"
  shows "win_AddAddress init LUID addr = ([InitRow], None)"
  using assms
  by (cases "prefix_Addr addr")
    (auto simp: win_AddAddress_def AddIPAddress_def SyscallOnlyReturnError_def SetAddrPort_def Let_def)

text \<open>With more than one entry the rows depend on memory that is not the table's.\<close>

lemma Rows_behind:
  "(\<forall>xs ys. Rows m xs = Rows m ys) \<longleftrightarrow> NumEntries m = 0 \<or> NumEntries m = 1"
proof (cases "unat (NumEntries m) \<le> 1")
  case True
  have one: "n = 1" if "unat n = 1" for n :: "32 word"
    using that by (simp add: word_eq_iff_unsigned [where ?'a = nat])
  from True have "unat (NumEntries m) = 0 \<or> unat (NumEntries m) = 1" by auto
  then show ?thesis using one [of "NumEntries m"] by (auto simp: Rows_def unat_eq_zero)
next
  case False
  then have "Rows m [] \<noteq> Rows m [r]" for r by (auto simp: Rows_def take_Cons' split: if_splits)
  moreover have "NumEntries m \<noteq> 0 \<and> NumEntries m \<noteq> 1" using False by auto
  ultimately show ?thesis by blast
qed

end
