(* ===== verification/Spec2Isabelle.thy ===== *)
theory Spec2Isabelle
  imports NetHash RingBufferBytes RingBufferRuns GoListCorrect XsyncConcRuns EngineRuns DiscoveryCorrect
    ConfigCorrect Startup CommandLine Windows Logging
begin

text \<open>
  A verification development for NetHive, a peer-to-peer VPN in Go. The program reads IP packets from
  a TUN device, finds the peer that the configuration maps to the packet's destination, and sends the
  packet to it over a libp2p stream; what peers send is written to the TUN device.

  \<^bold>\<open>The parts of the program and the theories that model them.\<close>

  \<^item> \<open>core/protocol/ip.go\<close> and \<open>pkgs/xpool/xpool.go\<close>: \<open>IPPacket\<close> (both header parsers, \<open>ParseIP\<close>,
    \<open>ReleaseIP\<close>) on the object pool of \<open>Pool\<close>. A pool is a store of cells with a list of idle ones;
    which cell \<open>Get\<close> returns is an argument. \<open>Pool\<close> states what clients rely on as the locale
    \<open>object_pool\<close> and interprets it on the model.
  \<^item> \<open>core/stack/hash.go\<close>: \<open>NetHash\<close>, on 32-bit words with wrap-around.
  \<^item> \<open>pkgs/xsync/map.go\<close>: \<open>XsyncMap\<close> (read map, dirty map, shared entries with the expunged mark, miss
    counter, every method run to completion) and \<open>XsyncMapCorrect\<close> (representation invariant,
    refinement of a plain map, the locale \<open>go_map\<close> and its interpretation). \<open>XsyncConc\<close> has the same
    methods as a machine of goroutines that interleave between their accesses to \<open>read\<close>, the entries
    and the mutex; \<open>XsyncConcInv\<close> its invariant (who may hold which entry, what a goroutine may rely
    on while others step), \<open>XsyncConcLog\<close> and \<open>XsyncConcLin\<close> the log that puts the calls of a run in
    one order, \<open>XsyncConcAlone\<close> calls that are not disturbed, \<open>XsyncConcRuns\<close> the properties and
    concrete runs.
  \<^item> \<open>pkgs/ringbuffer/ringbuffer.go\<close>: \<open>RingBuffer\<close> (the functions on the bytes), \<open>RingBufferCorrect\<close>
    (their effect on the contents), \<open>RingBufferSpec\<close> (the contract as a locale, interpreted),
    \<open>RingBufferBytes\<close> (the block operations against the operations on single bytes),
    \<open>RingBufferConc\<close> (mutex, condition variables, wait group: a step relation of any number of
    goroutines), \<open>RingBufferConcCorrect\<close> and \<open>RingBufferRuns\<close> (invariants of every reachable state).
  \<^item> \<open>pkgs/list/list.go\<close>: \<open>GoList\<close> on an explicit heap of nodes, \<open>GoListCorrect\<close> (every method refines
    plain lists, for any number of lists that share the heap).
  \<^item> \<open>core/engine/{routine,conn,engine,payload}.go\<close>: \<open>Engine\<close>, the packet path as a step relation of
    its goroutines; \<open>EngineCorrect\<close> (the main invariant), \<open>EngineTraffic\<close> (whole runs: bounds, order,
    no duplicates), \<open>EngineConn\<close> (tables against goroutines), \<open>EngineRoute\<close> (the router against its
    specification, channels nobody reads), \<open>EngineRuns\<close> (the properties and concrete runs).
  \<^item> \<open>core/engine/{dht,search,relay,mdns}.go\<close> and the receiving loop of \<open>addConn\<close>: \<open>Discovery\<close>,
    \<open>DiscoveryCorrect\<close>.
  \<^item> \<open>core/config\<close>: \<open>Config\<close>, \<open>ConfigCorrect\<close>. \<open>core/device/tun_linux.go\<close>, \<open>core/route\<close> and
    \<open>pkgs/system\<close>: \<open>DeviceLinux\<close>, \<open>DeviceLinuxCorrect\<close>, on the \<open>ip\<close> command lines of \<open>pkgs/command\<close>:
    \<open>Command\<close>, \<open>CommandCorrect\<close>. \<open>pkgs/win\<close> and \<open>core/device/tun_windows.go\<close>: \<open>Windows\<close>.
    \<open>pkgs/log\<close>: \<open>Logging\<close>.
  \<^item> The program as a whole: \<open>engine.Run\<close> and \<open>Engine.Run\<close> in \<open>Startup\<close>, on the configuration, the loggers,
    the device and the routes; \<open>cmd/main.go\<close> in \<open>CommandLine\<close>, on these and on \<open>config.Load\<close>: the flag,
    every way the process ends, and what a restart keeps.
  \<^item> \<open>Netip\<close> is the part of Go's \<open>net/netip\<close> the program uses; \<open>NH_Prelude\<close> has slices with Go's bounds
    checks, big-endian words, association lists and the collection \<open>go_run\<close>.

  \<^bold>\<open>Conventions.\<close> A Go panic is \<open>None\<close>; an error the code returns is a value (\<open>Inl\<close>, or a field of the
  result). A struct is a record with the source's field names. Code outside the repository (libp2p,
  the kernel, JSON, zap, the wintun driver) is an argument of the definitions that use it; a theorem
  that needs something of it says so in a hypothesis. Pointers are numbers into a store wherever
  aliasing matters: pool cells, map entries, list nodes, payloads.

  \<^bold>\<open>The packet path.\<close> \<open>esys\<close> is the shared state (\<open>engine\<close>: the two device channels, the pools, the three
  tables, the packet channels) with the program counters of the router, the TUN writer and the other
  goroutines (connections, incoming streams, stream readers). A section is what a goroutine does
  between two accesses to shared state, so every interleaving of the accesses is a run of \<open>estep\<close>. What
  the device, the network and the run time choose is the section's \<open>env\<close>. The invariant \<open>einv\<close> says
  where each payload is and what its place promises: a payload in a packet channel is a packet from
  the TUN device with the destination the channel was made for (the ghost \<open>own\<close>), one in the writer's
  channel is a message from a configured peer. Routing safety, inbound safety and the single owner
  follow; \<open>conn_ok\<close> ties the tables to the connection goroutines; \<open>in_queue\<close> and \<open>out_data\<close> count.
  \<open>decides\<close> and \<open>carries_out\<close> are the router's specification over plain maps.

  \<^bold>\<open>The concurrent map.\<close> A call of \<open>xsync.Map\<close> has a program counter (\<open>xpc\<close>) whose steps make one
  access that others can interfere with. \<open>explains log h A\<close> says that \<open>log\<close> is the history \<open>h\<close> of
  calls and returns with one \<open>Effect\<close> for each call, between its call and its return, and that
  the effects are those of a plain map that ends as \<open>A\<close>. Every reachable state has such a log. Most
  calls take effect at their own access; a call that finds an entry which is no longer in the
  map takes effect earlier, when another goroutine removed that entry, and the proof of \<open>XsyncConcLin\<close>
  puts its effect there (\<open>justified\<close>, \<open>loses\<close>). CompareAndSwap and CompareAndDelete are specified as the
  code has them: they act on any value present. \<open>rank\<close> bounds the steps of a call that is left alone.

  \<^bold>\<open>What the lemmas show.\<close> Safety of the packet path under all interleavings; linearizability of the
  concurrent map; refinement of plain maps, lists and byte queues by the three data structures; the
  order and the counts of what goes through; when goroutines may sleep; which errors come back and
  which are lost; that blocks move as their bytes do and that undisturbed calls of the map are its
  methods; the byte layout of kernel requests and what command lines a shell gets; round trips of
  the configuration, its key and the MTU; with which status the process ends, and that a restart has
  the same identity. Where the code does not do what it means to, a theorem shows the run: a writer
  that sleeps although the buffer has room, a packet left in a channel nobody reads, a search that
  never ends, a compare-and-swap that does not compare.

  \<^bold>\<open>Bounds and fuel.\<close> Channels have the capacity \<open>ChanSize\<close> and the search channel
  \<open>channelBuffLength\<close>, as in the source. \<open>router_run\<close> has fuel: seven sections are proved enough for any
  payload. Retry loops (\<open>connectBootstrapsLoop\<close>, \<open>mdnsLoop\<close>, the Windows \<open>Read\<close> and \<open>Write\<close>) recurse over the
  list of what the outside answers; a list used up is a loop still running. A call of the concurrent
  map that is left alone returns within \<open>rank\<close> steps: from its start at most eight, plus twice the size of
  the read map, plus the size of the dirty map. No other definition has
  fuel; the termination of the rest is proved by Isabelle's function package.

  \<^bold>\<open>Not modelled.\<close> Memory accesses are sequentially consistent, as \<open>sync\<close> and \<open>sync/atomic\<close> promise.
  The engine's model calls the methods of \<open>xsync.Map\<close> as one step each, which their linearizability
  justifies; the two machines are not composed into one, nor is the packet path's choice of a stream
  with the searches of \<open>Discovery\<close>. The byte slices of \<open>go-buffer-pool\<close> are values, so their reuse is
  not seen. Log messages are left out, but for the one that reads a payload after giving it back.
  What is outside the repository has outcomes only: libp2p, the kernel, the shell, the wintun driver,
  zap's encoders, the profiling server of \<open>main\<close>.
\<close>

end
